(* ===== verification/Prelude.thy ===== *)
theory Prelude
  imports Main "HOL-Library.Word" "HOL-Library.Monad_Syntax" "HOL-Library.Multiset"
begin

text \<open>
  Shared vocabulary of the development: machine-integer and buffer types, the checked memory
  accesses every component uses, and the generic list, option and map lemmas the component
  proofs share.

  A C function that can go wrong (read or write outside an object, dereference a null or freed
  pointer, fail an \<^verbatim>\<open>assert\<close>) is a HOL function into \<^typ>\<open>'a option\<close> whose value
  \<^term>\<open>None\<close> stands for that undefined or aborted run.  The theorems show that under a
  component's invariant the value is \<^term>\<open>Some\<close> of the specified result.
\<close>

unbundle bit_operations_syntax

type_synonym u8 = "8 word"
type_synonym u16 = "16 word"
type_synonym u32 = "32 word"
type_synonym u64 = "64 word"

named_theorems checked \<open>unfolding rules of the checked memory accesses\<close>

definition nth_opt :: "'a list \<Rightarrow> nat \<Rightarrow> 'a option" where
  "nth_opt xs i = (if i < length xs then Some (xs ! i) else None)"

definition upd_opt :: "'a list \<Rightarrow> nat \<Rightarrow> 'a \<Rightarrow> 'a list option" where
  "upd_opt xs i v = (if i < length xs then Some (xs[i := v]) else None)"

definition assert_opt :: "bool \<Rightarrow> unit option" where
  "assert_opt b = (if b then Some () else None)"

lemma nth_opt_Some [simp, checked]: "i < length xs \<Longrightarrow> nth_opt xs i = Some (xs ! i)"
  by (simp add: nth_opt_def)

lemma nth_opt_eq_Some [checked]: "nth_opt xs i = Some v \<longleftrightarrow> i < length xs \<and> v = xs ! i"
  by (auto simp: nth_opt_def)

lemma upd_opt_Some [simp, checked]: "i < length xs \<Longrightarrow> upd_opt xs i v = Some (xs[i := v])"
  by (simp add: upd_opt_def)

lemma assert_opt_simps [simp, checked]:
  "assert_opt True = Some ()" "assert_opt False = None"
  by (simp_all add: assert_opt_def)

subsection \<open>Lists of lists and multisets\<close>

lemma mset_concat_update:
  "i < length xss \<Longrightarrow>
   mset (concat (xss[i := ys])) + mset (xss ! i) = mset (concat xss) + mset ys"
proof (induction xss arbitrary: i)
  case Nil
  then show ?case by simp
next
  case (Cons a xss)
  show ?case
  proof (cases i)
    case 0
    then show ?thesis by (simp add: ac_simps)
  next
    case (Suc j)
    with Cons.prems have "j < length xss" by simp
    from Cons.IH [OF this] Suc show ?thesis by (simp add: ac_simps)
  qed
qed

lemma length_concat_update:
  assumes "i < length xss"
  shows "length (concat (xss[i := ys])) + length (xss ! i) = length (concat xss) + length ys"
proof -
  from arg_cong [OF mset_concat_update [OF assms, of ys], of size] show ?thesis
    by (metis size_mset size_union)
qed

lemma set_concat_nth: "set (concat xss) = (\<Union>i<length xss. set (xss ! i))"
proof -
  have "set xss = (!) xss ` {..<length xss}" by (auto simp: set_conv_nth)
  then show ?thesis by simp
qed

lemma nth_subset_concat: "i < length xss \<Longrightarrow> set (xss ! i) \<subseteq> set (concat xss)"
  using nth_mem by fastforce

lemma nth_le_concat:
  assumes "i < length xss"
  shows "length (xss ! i) \<le> length (concat xss)"
  using length_concat_update [OF assms, of "[]"] by simp

lemma concat_replicate_Nil [simp]: "concat (replicate n []) = []"
  by (induction n) auto

lemma concat_Nil_conv: "concat xss = [] \<longleftrightarrow> (\<forall>i<length xss. xss ! i = [])"
  by (simp add: all_set_conv_all_nth)

subsection \<open>Association lists read as maps\<close>

text \<open>The value of \<^const>\<open>map_of\<close> depends on the multiset of bindings only, when keys are distinct.\<close>

lemma map_of_mset_cong:
  assumes "mset xs = mset ys" and "distinct (map fst xs)"
  shows "map_of xs = map_of ys"
proof -
  have "distinct (map fst ys)"
    using assms(2) mset_eq_imp_distinct_iff [of "map fst xs" "map fst ys"] assms(1) by simp
  moreover have "set xs = set ys"
    using assms(1) by (rule mset_eq_setD)
  ultimately show ?thesis
    using assms(2) by (intro map_of_eqI) (force simp: map_of_eq_Some_iff)+
qed

subsection \<open>Masks\<close>

lemma and_mask_eq_mod: "(n::nat) AND (2 ^ k - 1) = n mod 2 ^ k"
  using take_bit_eq_mask [of k n] by (simp add: mask_eq_exp_minus_1 take_bit_eq_mod)

lemma and_mask_less: "(n::nat) AND (2 ^ k - 1) < 2 ^ k"
  by (simp only: and_mask_eq_mod) simp

lemma shift_add_xor:
  fixes x y :: "'a::len word"
  assumes "\<And>m. bit x m \<Longrightarrow> m < n"
  shows "push_bit n y + x = push_bit n y XOR x"
proof (rule disjunctive_add_eq_xor, rule bit_eqI)
  fix m
  show "bit (push_bit n y AND x) m \<longleftrightarrow> bit (0 :: 'a word) m"
    using assms [of m] by (auto simp: bit_simps)
qed

lemma xor_inject: "(x :: 'a::len word) XOR k = y XOR k \<longleftrightarrow> x = y"
  by (metis xor.assoc xor.comm_neutral xor_self_eq)

lemma xor_inject': "(k :: 'a::len word) XOR x = k XOR y \<longleftrightarrow> x = y"
  by (simp add: xor.commute [of k] xor_inject)

end
