(* ===== verification/Dict.thy ===== *)
theory Dict
  imports Prelude
begin

text \<open>
  The chained hash table with incremental rehashing of \<^verbatim>\<open>redis/redis/src/dict.c\<close>
  and \<^verbatim>\<open>dict.h\<close>: state, creation, expansion, rehashing, lookup, insertion, deletion.

  \<^item> A chain of entries linked by \<^verbatim>\<open>next\<close> is a list, a bucket array is a list of chains, and
    a null \<^verbatim>\<open>table\<close> pointer is the empty list.  A \<^verbatim>\<open>dictEntry*\<close> is the position of
    the entry: table number, bucket, index in the chain.
  \<^item> The value of an entry is an option: \<^term>\<open>None\<close> is memory \<^verbatim>\<open>dictAddRaw\<close> has not
    initialised yet.
  \<^item> Key and value duplication and destructor callbacks do not change the contents and are left out.
    The \<^verbatim>\<open>hashFunction\<close> and \<^verbatim>\<open>keyCompare\<close> callbacks are fields of the type record, as
    in the code.
  \<^item> The file-scope flag \<^verbatim>\<open>dict_can_resize\<close> is an argument of the operations that read it.
  \<^item> Counters of live entries are natural numbers: each counted entry occupies memory, so they stay
    far below \<open>2 ^ 64\<close>.  Sizes that the code computes by arithmetic wrap as in the code.
  \<^item> A Boolean result is the C result code: \<^term>\<open>True\<close> for \<^verbatim>\<open>DICT_OK\<close>, or for 1 where
    the function returns 0 or 1.
\<close>

section \<open>State\<close>

record 'k dictType =
  hashFunction :: "'k \<Rightarrow> u32"
  keyCompare :: "'k \<Rightarrow> 'k \<Rightarrow> bool"

record ('k, 'v) dictEntry =
  de_key :: 'k
  de_val :: "'v option"

record ('k, 'v) dictht =
  ht_table :: "('k, 'v) dictEntry list list"
  ht_size :: nat
  sizemask :: nat
  used :: nat

record ('k, 'v) dict =
  dtype :: "'k dictType"
  ht0 :: "('k, 'v) dictht"
  ht1 :: "('k, 'v) dictht"
  rehashidx :: int
  iterators :: nat

type_synonym entry_ptr = "nat \<times> nat \<times> nat"

definition LONG_MAX :: nat where "LONG_MAX = 2 ^ 63 - 1"
definition DICT_HT_INITIAL_SIZE :: nat where "DICT_HT_INITIAL_SIZE = 4"
definition dict_force_resize_ratio :: nat where "dict_force_resize_ratio = 5"

definition ht :: "('k, 'v) dict \<Rightarrow> nat \<Rightarrow> ('k, 'v) dictht" where
  "ht d t = (if t = 0 then ht0 d else ht1 d)"

definition set_ht :: "('k, 'v) dict \<Rightarrow> nat \<Rightarrow> ('k, 'v) dictht \<Rightarrow> ('k, 'v) dict" where
  "set_ht d t h = (if t = 0 then d\<lparr>ht0 := h\<rparr> else d\<lparr>ht1 := h\<rparr>)"

definition dictIsRehashing :: "('k, 'v) dict \<Rightarrow> bool" where
  "dictIsRehashing d \<longleftrightarrow> rehashidx d \<noteq> -1"

definition dictSize :: "('k, 'v) dict \<Rightarrow> nat" where
  "dictSize d = used (ht0 d) + used (ht1 d)"

definition dictSlots :: "('k, 'v) dict \<Rightarrow> nat" where
  "dictSlots d = ht_size (ht0 d) + ht_size (ht1 d)"

definition dictHashKey :: "('k, 'v) dict \<Rightarrow> 'k \<Rightarrow> nat" where
  "dictHashKey d k = unat (hashFunction (dtype d) k)"

section \<open>Creation, expansion and resizing\<close>

definition dictReset :: "('k, 'v) dictht" where
  "dictReset = \<lparr>ht_table = [], ht_size = 0, sizemask = 0, used = 0\<rparr>"

definition dictCreate :: "'k dictType \<Rightarrow> ('k, 'v) dict" where
  "dictCreate T = \<lparr>dtype = T, ht0 = dictReset, ht1 = dictReset, rehashidx = -1, iterators = 0\<rparr>"

partial_function (option) next_power_loop :: "nat \<Rightarrow> nat \<Rightarrow> nat option" where
  "next_power_loop i sz = (if sz \<le> i then Some i else next_power_loop ((i * 2) mod 2 ^ 64) sz)"

declare next_power_loop.simps [code]

definition dictNextPower :: "nat \<Rightarrow> nat option" where
  "dictNextPower sz = (if LONG_MAX \<le> sz then Some LONG_MAX
     else next_power_loop DICT_HT_INITIAL_SIZE sz)"

definition dictExpand :: "('k, 'v) dict \<Rightarrow> nat \<Rightarrow> (('k, 'v) dict \<times> bool) option" where
  "dictExpand d sz = do {
     realsize \<leftarrow> dictNextPower sz;
     if dictIsRehashing d \<or> sz < used (ht0 d) then Some (d, False)
     else if realsize = ht_size (ht0 d) then Some (d, False)
     else do {
       let n = \<lparr>ht_table = replicate realsize [], ht_size = realsize,
                sizemask = realsize - 1, used = 0\<rparr>;
       if ht_table (ht0 d) = [] then Some (d\<lparr>ht0 := n\<rparr>, True)
       else Some (d\<lparr>ht1 := n, rehashidx := 0\<rparr>, True)
     }
   }"

definition dictResize :: "bool \<Rightarrow> ('k, 'v) dict \<Rightarrow> (('k, 'v) dict \<times> bool) option" where
  "dictResize can_resize d =
     (if \<not> can_resize \<or> dictIsRehashing d then Some (d, False)
      else let minimal = sint (word_of_nat (used (ht0 d)) :: u32);
               minimal = (if minimal < int DICT_HT_INITIAL_SIZE
                          then int DICT_HT_INITIAL_SIZE else minimal)
           in dictExpand d (nat minimal))"

definition dictExpandIfNeeded :: "bool \<Rightarrow> ('k, 'v) dict \<Rightarrow> (('k, 'v) dict \<times> bool) option" where
  "dictExpandIfNeeded can_resize d =
     (if dictIsRehashing d then Some (d, True)
      else if ht_size (ht0 d) = 0 then dictExpand d DICT_HT_INITIAL_SIZE
      else if ht_size (ht0 d) \<le> used (ht0 d) \<and>
              (can_resize \<or> dict_force_resize_ratio < used (ht0 d) div ht_size (ht0 d))
      then dictExpand d (used (ht0 d) * 2)
      else Some (d, True))"

section \<open>Incremental rehashing\<close>

function rehash_skip ::
  "('k, 'v) dictEntry list list \<Rightarrow> nat \<Rightarrow> int \<Rightarrow> (nat \<times> int \<times> bool) option" where
  "rehash_skip tb i ev =
     (if i < length tb
      then if tb ! i = []
           then if ev - 1 = 0 then Some (Suc i, 0, True) else rehash_skip tb (Suc i) (ev - 1)
           else Some (i, ev, False)
      else None)"
  by pat_completeness auto
termination
  by (relation "measure (\<lambda>(tb, i, ev). length tb - i)") auto

fun rehash_move ::
  "'k dictType \<Rightarrow> ('k, 'v) dictEntry list \<Rightarrow> ('k, 'v) dictht \<Rightarrow> ('k, 'v) dictht \<Rightarrow>
   (('k, 'v) dictht \<times> ('k, 'v) dictht) option" where
  "rehash_move T [] h0 h1 = Some (h0, h1)"
| "rehash_move T (de # des) h0 h1 = do {
     let h = unat (hashFunction T (de_key de)) AND sizemask h1;
     chain \<leftarrow> nth_opt (ht_table h1) h;
     rehash_move T des (h0\<lparr>used := used h0 - 1\<rparr>)
       (h1\<lparr>ht_table := (ht_table h1)[h := de # chain], used := used h1 + 1\<rparr>)
   }"

fun rehash_loop ::
  "nat \<Rightarrow> ('k, 'v) dict \<Rightarrow> int \<Rightarrow> (('k, 'v) dict \<times> bool) option" where
  "rehash_loop 0 d ev = Some (d, False)"
| "rehash_loop (Suc n) d ev =
     (if used (ht0 d) = 0 then Some (d, False)
      else do {
        assert_opt (rehashidx d < int (ht_size (ht0 d)));
        (i, ev, stop) \<leftarrow> rehash_skip (ht_table (ht0 d)) (nat (rehashidx d)) ev;
        if stop then Some (d\<lparr>rehashidx := int i\<rparr>, True)
        else do {
          de \<leftarrow> nth_opt (ht_table (ht0 d)) i;
          (h0, h1) \<leftarrow> rehash_move (dtype d) de (ht0 d) (ht1 d);
          rehash_loop n
            (d\<lparr>ht0 := h0\<lparr>ht_table := (ht_table h0)[i := []]\<rparr>, ht1 := h1,
               rehashidx := int (Suc i)\<rparr>) ev
        }
      })"

definition dictRehash :: "('k, 'v) dict \<Rightarrow> nat \<Rightarrow> (('k, 'v) dict \<times> bool) option" where
  "dictRehash d n = do {
     assert_opt (n * 10 < 2 ^ 31);
     if \<not> dictIsRehashing d then Some (d, False)
     else do {
       (d, early) \<leftarrow> rehash_loop n d (int n * 10);
       if early then Some (d, True)
       else if used (ht0 d) = 0
       then Some (d\<lparr>ht0 := ht1 d, ht1 := dictReset, rehashidx := -1\<rparr>, False)
       else Some (d, True)
     } }"

definition dictRehashStep :: "('k, 'v) dict \<Rightarrow> ('k, 'v) dict option" where
  "dictRehashStep d = (if iterators d = 0 then map_option fst (dictRehash d 1) else Some d)"

definition rehash_if_rehashing :: "('k, 'v) dict \<Rightarrow> ('k, 'v) dict option" where
  "rehash_if_rehashing d = (if dictIsRehashing d then dictRehashStep d else Some d)"

text \<open>
  \<^verbatim>\<open>timeInMilliseconds\<close> reads the wall clock: its successive readings are the values of
  \<open>clock\<close>.
\<close>

partial_function (option) rehash_ms_loop ::
  "(nat \<Rightarrow> int) \<Rightarrow> nat \<Rightarrow> int \<Rightarrow> int \<Rightarrow> ('k, 'v) dict \<Rightarrow> nat \<Rightarrow> (('k, 'v) dict \<times> nat) option" where
  "rehash_ms_loop clock i start ms d rehashes =
     Option.bind (dictRehash d 100) (\<lambda>(d, more).
       if \<not> more then Some (d, rehashes)
       else if ms < clock i - start then Some (d, rehashes + 100)
       else rehash_ms_loop clock (Suc i) start ms d (rehashes + 100))"

declare rehash_ms_loop.simps [code]

definition dictRehashMilliseconds ::
  "(nat \<Rightarrow> int) \<Rightarrow> ('k, 'v) dict \<Rightarrow> int \<Rightarrow> (('k, 'v) dict \<times> nat) option" where
  "dictRehashMilliseconds clock d ms = rehash_ms_loop clock 1 (clock 0) ms d 0"

section \<open>Lookup\<close>

fun chain_find ::
  "('k \<Rightarrow> 'k \<Rightarrow> bool) \<Rightarrow> 'k \<Rightarrow> ('k, 'v) dictEntry list \<Rightarrow> nat option" where
  "chain_find cmp k [] = None"
| "chain_find cmp k (he # hes) =
     (if cmp k (de_key he) then Some 0 else map_option Suc (chain_find cmp k hes))"

fun find_tables ::
  "('k, 'v) dict \<Rightarrow> 'k \<Rightarrow> nat list \<Rightarrow> entry_ptr option option" where
  "find_tables d k [] = Some None"
| "find_tables d k (t # ts) = do {
     let idx = dictHashKey d k AND sizemask (ht d t);
     he \<leftarrow> nth_opt (ht_table (ht d t)) idx;
     case chain_find (keyCompare (dtype d)) k he of
       Some j \<Rightarrow> Some (Some (t, idx, j))
     | None \<Rightarrow> if \<not> dictIsRehashing d then Some None else find_tables d k ts
   }"

definition dictFind ::
  "('k, 'v) dict \<Rightarrow> 'k \<Rightarrow> (('k, 'v) dict \<times> entry_ptr option) option" where
  "dictFind d k =
     (if ht_size (ht0 d) = 0 then Some (d, None)
      else do {
        d \<leftarrow> rehash_if_rehashing d;
        r \<leftarrow> find_tables d k [0, 1];
        Some (d, r)
      })"

fun read_entry :: "('k, 'v) dict \<Rightarrow> entry_ptr \<Rightarrow> ('k, 'v) dictEntry option" where
  "read_entry d (t, i, j) = do {
     chain \<leftarrow> nth_opt (ht_table (ht d t)) i;
     nth_opt chain j
   }"

definition dictFetchValue ::
  "('k, 'v) dict \<Rightarrow> 'k \<Rightarrow> (('k, 'v) dict \<times> 'v option) option" where
  "dictFetchValue d k = do {
     (d, he) \<leftarrow> dictFind d k;
     case he of
       None \<Rightarrow> Some (d, None)
     | Some p \<Rightarrow> do { e \<leftarrow> read_entry d p; Some (d, de_val e) }
   }"

section \<open>Insertion and replacement\<close>

fun dictSetVal :: "('k, 'v) dict \<Rightarrow> entry_ptr \<Rightarrow> 'v \<Rightarrow> ('k, 'v) dict option" where
  "dictSetVal d (t, i, j) v = do {
     chain \<leftarrow> nth_opt (ht_table (ht d t)) i;
     e \<leftarrow> nth_opt chain j;
     Some (set_ht d t ((ht d t)\<lparr>ht_table :=
       (ht_table (ht d t))[i := chain[j := e\<lparr>de_val := Some v\<rparr>]]\<rparr>))
   }"

fun key_index_tables :: "('k, 'v) dict \<Rightarrow> 'k \<Rightarrow> nat list \<Rightarrow> nat \<Rightarrow> int option" where
  "key_index_tables d k [] idx = Some (sint (word_of_nat idx :: u32))"
| "key_index_tables d k (t # ts) _ = do {
     let idx = dictHashKey d k AND sizemask (ht d t);
     he \<leftarrow> nth_opt (ht_table (ht d t)) idx;
     case chain_find (keyCompare (dtype d)) k he of
       Some _ \<Rightarrow> Some (-1)
     | None \<Rightarrow> if \<not> dictIsRehashing d then Some (sint (word_of_nat idx :: u32))
                else key_index_tables d k ts idx
   }"

definition dictKeyIndex ::
  "bool \<Rightarrow> ('k, 'v) dict \<Rightarrow> 'k \<Rightarrow> (('k, 'v) dict \<times> int) option" where
  "dictKeyIndex can_resize d k = do {
     (d, ok) \<leftarrow> dictExpandIfNeeded can_resize d;
     if \<not> ok then Some (d, -1)
     else do { idx \<leftarrow> key_index_tables d k [0, 1] 0; Some (d, idx) }
   }"

definition dictAddRaw ::
  "bool \<Rightarrow> ('k, 'v) dict \<Rightarrow> 'k \<Rightarrow> (('k, 'v) dict \<times> entry_ptr option) option" where
  "dictAddRaw can_resize d k = do {
     d \<leftarrow> rehash_if_rehashing d;
     (d, index) \<leftarrow> dictKeyIndex can_resize d k;
     if index = -1 then Some (d, None)
     else do {
       let t = (if dictIsRehashing d then 1 else 0);
       assert_opt (0 \<le> index);
       chain \<leftarrow> nth_opt (ht_table (ht d t)) (nat index);
       let entry = \<lparr>de_key = k, de_val = None\<rparr>;
       Some (set_ht d t ((ht d t)\<lparr>ht_table := (ht_table (ht d t))[nat index := entry # chain],
                                  used := used (ht d t) + 1\<rparr>),
             Some (t, nat index, 0))
     }
   }"

definition dictAdd ::
  "bool \<Rightarrow> ('k, 'v) dict \<Rightarrow> 'k \<Rightarrow> 'v \<Rightarrow> (('k, 'v) dict \<times> bool) option" where
  "dictAdd can_resize d k v = do {
     (d, entry) \<leftarrow> dictAddRaw can_resize d k;
     case entry of
       None \<Rightarrow> Some (d, False)
     | Some p \<Rightarrow> do { d \<leftarrow> dictSetVal d p v; Some (d, True) }
   }"

definition dictReplace ::
  "bool \<Rightarrow> ('k, 'v) dict \<Rightarrow> 'k \<Rightarrow> 'v \<Rightarrow> (('k, 'v) dict \<times> bool) option" where
  "dictReplace can_resize d k v = do {
     (d, added) \<leftarrow> dictAdd can_resize d k v;
     if added then Some (d, True)
     else do {
       (d, entry) \<leftarrow> dictFind d k;
       p \<leftarrow> entry;
       d \<leftarrow> dictSetVal d p v;
       Some (d, False)
     }
   }"

definition dictReplaceRaw ::
  "bool \<Rightarrow> ('k, 'v) dict \<Rightarrow> 'k \<Rightarrow> (('k, 'v) dict \<times> entry_ptr option) option" where
  "dictReplaceRaw can_resize d k = do {
     (d, entry) \<leftarrow> dictFind d k;
     case entry of
       Some p \<Rightarrow> Some (d, Some p)
     | None \<Rightarrow> dictAddRaw can_resize d k
   }"

section \<open>Deletion\<close>

fun chain_unlink ::
  "('k \<Rightarrow> 'k \<Rightarrow> bool) \<Rightarrow> 'k \<Rightarrow> ('k, 'v) dictEntry list \<Rightarrow> ('k, 'v) dictEntry list option" where
  "chain_unlink cmp k [] = None"
| "chain_unlink cmp k (he # hes) =
     (if cmp k (de_key he) then Some hes else map_option (Cons he) (chain_unlink cmp k hes))"

fun delete_tables ::
  "('k, 'v) dict \<Rightarrow> 'k \<Rightarrow> nat list \<Rightarrow> (('k, 'v) dict \<times> bool) option" where
  "delete_tables d k [] = Some (d, False)"
| "delete_tables d k (t # ts) = do {
     let idx = dictHashKey d k AND sizemask (ht d t);
     he \<leftarrow> nth_opt (ht_table (ht d t)) idx;
     case chain_unlink (keyCompare (dtype d)) k he of
       Some rest \<Rightarrow> Some (set_ht d t ((ht d t)\<lparr>ht_table := (ht_table (ht d t))[idx := rest],
                                              used := used (ht d t) - 1\<rparr>), True)
     | None \<Rightarrow> if \<not> dictIsRehashing d then Some (d, False) else delete_tables d k ts
   }"

definition dictGenericDelete ::
  "('k, 'v) dict \<Rightarrow> 'k \<Rightarrow> (('k, 'v) dict \<times> bool) option" where
  "dictGenericDelete d k =
     (if ht_size (ht0 d) = 0 then Some (d, False)
      else do {
        d \<leftarrow> rehash_if_rehashing d;
        delete_tables d k [0, 1]
      })"

fun clear_chain ::
  "('k, 'v) dictEntry list \<Rightarrow> ('k, 'v) dictEntry list \<Rightarrow> nat \<Rightarrow> ('k, 'v) dictEntry list \<times> nat" where
  "clear_chain [] freed u = (freed, u)"
| "clear_chain (he # hes) freed u = clear_chain hes (freed @ [he]) (u - 1)"

fun clear_loop ::
  "('k, 'v) dictEntry list list \<Rightarrow> ('k, 'v) dictEntry list \<Rightarrow> nat \<Rightarrow> ('k, 'v) dictEntry list \<times> nat" where
  "clear_loop [] freed u = (freed, u)"
| "clear_loop (c # cs) freed u =
     (if 0 < u then (case clear_chain c freed u of (freed, u) \<Rightarrow> clear_loop cs freed u)
      else (freed, u))"

definition dictClear ::
  "('k, 'v) dictht \<Rightarrow> ('k, 'v) dictht \<times> ('k, 'v) dictEntry list" where
  "dictClear h = (dictReset, fst (clear_loop (ht_table h) [] (used h)))"

definition dictEmpty :: "('k, 'v) dict \<Rightarrow> ('k, 'v) dict \<times> ('k, 'v) dictEntry list" where
  "dictEmpty d =
     (case dictClear (ht0 d) of (h0, f0) \<Rightarrow>
      case dictClear (ht1 d) of (h1, f1) \<Rightarrow>
        (d\<lparr>ht0 := h0, ht1 := h1, rehashidx := -1, iterators := 0\<rparr>, f0 @ f1))"

end
