(* ===== verification/Interfaces.thy ===== *)
theory Interfaces
  imports Prelude
begin

text \<open>
  The contracts between components, as locales.

  \<^item> \<open>kv_map\<close>: what a client of a key/value container relies on.  The container may reorganise
    itself on every access (incremental rehashing does), so even a lookup returns a new container,
    and every operation is partial: \<^term>\<open>None\<close> would be a run with undefined behaviour.
  \<^item> \<open>set_store\<close>: the same for a set of values, with the values an implementation can represent
    given by \<open>valid\<close>.

  The client lemma of each locale says that any sequence of operations returns exactly the replies
  of the abstract map or set.
\<close>

section \<open>Key/value containers\<close>

datatype ('k, 'v) kv_op = KvGet 'k | KvPut 'k 'v | KvDel 'k

datatype 'v kv_reply = Value "'v option" | Flag bool

text \<open>The specification: one step and a run of steps on a finite map.\<close>

fun kv_spec :: "('k \<rightharpoonup> 'v) \<Rightarrow> ('k, 'v) kv_op \<Rightarrow> ('k \<rightharpoonup> 'v) \<times> 'v kv_reply" where
  "kv_spec m (KvGet k) = (m, Value (m k))"
| "kv_spec m (KvPut k v) = (m(k \<mapsto> v), Flag (m k = None))"
| "kv_spec m (KvDel k) = (m(k := None), Flag (m k \<noteq> None))"

fun kv_spec_run :: "('k \<rightharpoonup> 'v) \<Rightarrow> ('k, 'v) kv_op list \<Rightarrow> ('k \<rightharpoonup> 'v) \<times> 'v kv_reply list" where
  "kv_spec_run m [] = (m, [])"
| "kv_spec_run m (c # cs) =
     (case kv_spec m c of (m, r) \<Rightarrow> case kv_spec_run m cs of (m, rs) \<Rightarrow> (m, r # rs))"

text \<open>The same sequence run on an implementation.\<close>

fun kv_step ::
  "('m \<Rightarrow> 'k \<Rightarrow> ('m \<times> 'v option) option) \<Rightarrow> ('m \<Rightarrow> 'k \<Rightarrow> 'v \<Rightarrow> ('m \<times> bool) option) \<Rightarrow>
   ('m \<Rightarrow> 'k \<Rightarrow> ('m \<times> bool) option) \<Rightarrow> 'm \<Rightarrow> ('k, 'v) kv_op \<Rightarrow> ('m \<times> 'v kv_reply) option" where
  "kv_step get put del m (KvGet k) = map_option (map_prod id Value) (get m k)"
| "kv_step get put del m (KvPut k v) = map_option (map_prod id Flag) (put m k v)"
| "kv_step get put del m (KvDel k) = map_option (map_prod id Flag) (del m k)"

fun kv_run ::
  "('m \<Rightarrow> 'k \<Rightarrow> ('m \<times> 'v option) option) \<Rightarrow> ('m \<Rightarrow> 'k \<Rightarrow> 'v \<Rightarrow> ('m \<times> bool) option) \<Rightarrow>
   ('m \<Rightarrow> 'k \<Rightarrow> ('m \<times> bool) option) \<Rightarrow> 'm \<Rightarrow> ('k, 'v) kv_op list \<Rightarrow> ('m \<times> 'v kv_reply list) option" where
  "kv_run get put del m [] = Some (m, [])"
| "kv_run get put del m (c # cs) = do {
     (m, r) \<leftarrow> kv_step get put del m c;
     (m, rs) \<leftarrow> kv_run get put del m cs;
     Some (m, r # rs)
   }"

locale kv_map =
  fixes inv :: "'m \<Rightarrow> bool"
    and amap :: "'m \<Rightarrow> 'k \<rightharpoonup> 'v"
    and capacity :: nat
    and get :: "'m \<Rightarrow> 'k \<Rightarrow> ('m \<times> 'v option) option"
    and put :: "'m \<Rightarrow> 'k \<Rightarrow> 'v \<Rightarrow> ('m \<times> bool) option"
    and del :: "'m \<Rightarrow> 'k \<Rightarrow> ('m \<times> bool) option"
  assumes finite_map: "inv m \<Longrightarrow> finite (dom (amap m))"
    and get_law: "inv m \<Longrightarrow> \<exists>m'. get m k = Some (m', amap m k) \<and> inv m' \<and> amap m' = amap m"
    and put_law: "inv m \<Longrightarrow> card (dom (amap m)) \<le> capacity \<Longrightarrow>
      \<exists>m'. put m k v = Some (m', amap m k = None) \<and> inv m' \<and> amap m' = (amap m)(k \<mapsto> v)"
    and del_law: "inv m \<Longrightarrow>
      \<exists>m'. del m k = Some (m', amap m k \<noteq> None) \<and> inv m' \<and> amap m' = (amap m)(k := None)"
begin

lemma step_refines:
  assumes "inv m" and "card (dom (amap m)) \<le> capacity"
  shows "\<exists>m'. kv_step get put del m c = Some (m', snd (kv_spec (amap m) c)) \<and> inv m' \<and>
           amap m' = fst (kv_spec (amap m) c)"
  using get_law [OF assms(1)] put_law [OF assms] del_law [OF assms(1)]
  by (cases c) fastforce+

lemma spec_card:
  assumes "finite (dom m)"
  shows "card (dom (fst (kv_spec m c))) \<le> Suc (card (dom m))"
  using assms by (cases c) (auto simp: card_insert_if card_Diff_singleton_if)

lemma run_refines:
  assumes "inv m" and "card (dom (amap m)) + length cs \<le> Suc capacity"
  shows "\<exists>m'. kv_run get put del m cs = Some (m', snd (kv_spec_run (amap m) cs)) \<and> inv m' \<and>
           amap m' = fst (kv_spec_run (amap m) cs)"
  using assms
proof (induction cs arbitrary: m)
  case Nil
  then show ?case by simp
next
  case (Cons c cs)
  then have "card (dom (amap m)) \<le> capacity" by simp
  from step_refines [OF Cons.prems(1) this, of c] obtain m1 where m1:
    "kv_step get put del m c = Some (m1, snd (kv_spec (amap m) c))" "inv m1"
    "amap m1 = fst (kv_spec (amap m) c)" by blast
  have "card (dom (amap m1)) \<le> Suc (card (dom (amap m)))"
    using spec_card [OF finite_map [OF Cons.prems(1)], of c] m1(3) by simp
  with Cons.prems(2) have "card (dom (amap m1)) + length cs \<le> Suc capacity" by simp
  from Cons.IH [OF m1(2) this] m1 show ?case by (auto split: prod.splits)
qed

end

section \<open>Sets\<close>

datatype 'a set_op = SetMem (set_arg: 'a) | SetAdd (set_arg: 'a) | SetDel (set_arg: 'a)

fun set_spec :: "'a set \<Rightarrow> 'a set_op \<Rightarrow> 'a set \<times> bool" where
  "set_spec S (SetMem x) = (S, x \<in> S)"
| "set_spec S (SetAdd x) = (insert x S, x \<notin> S)"
| "set_spec S (SetDel x) = (S - {x}, x \<in> S)"

fun set_spec_run :: "'a set \<Rightarrow> 'a set_op list \<Rightarrow> 'a set \<times> bool list" where
  "set_spec_run S [] = (S, [])"
| "set_spec_run S (c # cs) =
     (case set_spec S c of (S, r) \<Rightarrow> case set_spec_run S cs of (S, rs) \<Rightarrow> (S, r # rs))"

fun set_step ::
  "('s \<Rightarrow> 'a \<Rightarrow> ('s \<times> bool) option) \<Rightarrow> ('s \<Rightarrow> 'a \<Rightarrow> ('s \<times> bool) option) \<Rightarrow>
   ('s \<Rightarrow> 'a \<Rightarrow> ('s \<times> bool) option) \<Rightarrow> 's \<Rightarrow> 'a set_op \<Rightarrow> ('s \<times> bool) option" where
  "set_step mem add del s (SetMem x) = mem s x"
| "set_step mem add del s (SetAdd x) = add s x"
| "set_step mem add del s (SetDel x) = del s x"

fun set_run ::
  "('s \<Rightarrow> 'a \<Rightarrow> ('s \<times> bool) option) \<Rightarrow> ('s \<Rightarrow> 'a \<Rightarrow> ('s \<times> bool) option) \<Rightarrow>
   ('s \<Rightarrow> 'a \<Rightarrow> ('s \<times> bool) option) \<Rightarrow> 's \<Rightarrow> 'a set_op list \<Rightarrow> ('s \<times> bool list) option" where
  "set_run mem add del s [] = Some (s, [])"
| "set_run mem add del s (c # cs) = do {
     (s, r) \<leftarrow> set_step mem add del s c;
     (s, rs) \<leftarrow> set_run mem add del s cs;
     Some (s, r # rs)
   }"

locale set_store =
  fixes inv :: "'s \<Rightarrow> bool"
    and aset :: "'s \<Rightarrow> 'a set"
    and valid :: "'a \<Rightarrow> bool"
    and capacity :: nat
    and mem :: "'s \<Rightarrow> 'a \<Rightarrow> ('s \<times> bool) option"
    and add :: "'s \<Rightarrow> 'a \<Rightarrow> ('s \<times> bool) option"
    and del :: "'s \<Rightarrow> 'a \<Rightarrow> ('s \<times> bool) option"
  assumes finite_set: "inv s \<Longrightarrow> finite (aset s)"
    and mem_law: "inv s \<Longrightarrow> valid x \<Longrightarrow>
      \<exists>s'. mem s x = Some (s', x \<in> aset s) \<and> inv s' \<and> aset s' = aset s"
    and add_law: "inv s \<Longrightarrow> valid x \<Longrightarrow> card (aset s) \<le> capacity \<Longrightarrow>
      \<exists>s'. add s x = Some (s', x \<notin> aset s) \<and> inv s' \<and> aset s' = insert x (aset s)"
    and del_law: "inv s \<Longrightarrow> valid x \<Longrightarrow>
      \<exists>s'. del s x = Some (s', x \<in> aset s) \<and> inv s' \<and> aset s' = aset s - {x}"
begin

lemma step_refines:
  assumes "inv s" and "valid (set_arg c)" and "card (aset s) \<le> capacity"
  shows "\<exists>s'. set_step mem add del s c = Some (s', snd (set_spec (aset s) c)) \<and> inv s' \<and>
           aset s' = fst (set_spec (aset s) c)"
  using mem_law [OF assms(1)] add_law [OF assms(1) _ assms(3)] del_law [OF assms(1)] assms(2)
  by (cases c) auto

lemma spec_card: "finite S \<Longrightarrow> card (fst (set_spec S c)) \<le> Suc (card S)"
  by (cases c) (auto simp: card_insert_if card_Diff_singleton_if)

lemma run_refines:
  assumes "inv s" and "\<forall>c\<in>set cs. valid (set_arg c)" and "card (aset s) + length cs \<le> Suc capacity"
  shows "\<exists>s'. set_run mem add del s cs = Some (s', snd (set_spec_run (aset s) cs)) \<and> inv s' \<and>
           aset s' = fst (set_spec_run (aset s) cs)"
  using assms
proof (induction cs arbitrary: s)
  case Nil
  then show ?case by simp
next
  case (Cons c cs)
  then have "valid (set_arg c)" "card (aset s) \<le> capacity" by simp_all
  from step_refines [OF Cons.prems(1) this] obtain s1 where s1:
    "set_step mem add del s c = Some (s1, snd (set_spec (aset s) c))" "inv s1"
    "aset s1 = fst (set_spec (aset s) c)" by blast
  have "card (aset s1) \<le> Suc (card (aset s))"
    using spec_card [OF finite_set [OF Cons.prems(1)], of c] s1(3) by simp
  then have "card (aset s1) + length cs \<le> Suc capacity" using Cons.prems(3) by simp
  with Cons.IH [OF s1(2)] Cons.prems(2) s1 show ?case by (fastforce split: prod.splits)
qed

end

end
