(* ===== verification/Dict_Correct.thy ===== *)
theory Dict_Correct
  imports Dict Interfaces
begin

text \<open>
  Correctness of the hash table: the representation invariant \<open>dict_inv\<close>, the finite map
  \<open>dict_map\<close> a table stands for, and for every operation that it keeps the invariant, never reads
  outside an array or fails its assertion, and has the effect of the corresponding operation on the
  map.  The table then provides the \<open>kv_map\<close> interface.
\<close>

section \<open>Invariant and abstraction\<close>

definition bucket :: "'k dictType \<Rightarrow> ('k, 'v) dictht \<Rightarrow> 'k \<Rightarrow> nat" where
  "bucket T h k = unat (hashFunction T k) AND sizemask h"

definition ht_alloc :: "'k dictType \<Rightarrow> ('k, 'v) dictht \<Rightarrow> bool" where
  "ht_alloc T h \<longleftrightarrow> (\<exists>b\<in>{2..31}. ht_size h = 2 ^ b \<and> sizemask h = 2 ^ b - 1 \<and>
     length (ht_table h) = 2 ^ b \<and> used h = length (concat (ht_table h)) \<and>
     (\<forall>i<2 ^ b. \<forall>e\<in>set (ht_table h ! i). bucket T h (de_key e) = i))"

definition entries :: "('k, 'v) dict \<Rightarrow> ('k, 'v) dictEntry list" where
  "entries d = concat (ht_table (ht0 d)) @ concat (ht_table (ht1 d))"

definition binding :: "('k, 'v) dictEntry \<Rightarrow> 'k \<times> 'v option" where
  "binding e = (de_key e, de_val e)"

definition dict_map :: "('k, 'v) dict \<Rightarrow> 'k \<rightharpoonup> 'v option" where
  "dict_map d = map_of (map binding (entries d))"

definition rehash_inv :: "('k, 'v) dict \<Rightarrow> bool" where
  "rehash_inv d \<longleftrightarrow> ht_alloc (dtype d) (ht0 d) \<and> ht_alloc (dtype d) (ht1 d) \<and>
     0 \<le> rehashidx d \<and> rehashidx d \<le> int (ht_size (ht0 d)) \<and>
     (\<forall>i<nat (rehashidx d). ht_table (ht0 d) ! i = [])"

definition dict_inv :: "('k, 'v) dict \<Rightarrow> bool" where
  "dict_inv d \<longleftrightarrow> keyCompare (dtype d) = (=) \<and>
     distinct (map de_key (entries d)) \<and>
     (if dictIsRehashing d then rehash_inv d
      else ht1 d = dictReset \<and> (ht0 d = dictReset \<or> ht_alloc (dtype d) (ht0 d)))"

section \<open>One table\<close>

lemma ht_alloc_length: "ht_alloc T h \<Longrightarrow> length (ht_table h) = ht_size h"
  by (auto simp: ht_alloc_def)

lemma ht_alloc_size: "ht_alloc T h \<Longrightarrow> 4 \<le> ht_size h \<and> ht_size h \<le> 2 ^ 31"
proof -
  assume "ht_alloc T h"
  then obtain b where b: "2 \<le> b" "b \<le> 31" "ht_size h = 2 ^ b" by (auto simp: ht_alloc_def)
  from power_increasing [OF b(1), of "2::nat"] power_increasing [OF b(2), of "2::nat"] b(3)
  show ?thesis by simp
qed

lemma ht_alloc_nonempty: "ht_alloc T h \<Longrightarrow> ht_size h \<noteq> 0 \<and> ht_table h \<noteq> []"
  using ht_alloc_size [of T h] ht_alloc_length [of T h] by auto

lemma ht_alloc_used: "ht_alloc T h \<Longrightarrow> used h = length (concat (ht_table h))"
  by (auto simp: ht_alloc_def)

lemma bucket_less: "ht_alloc T h \<Longrightarrow> bucket T h k < length (ht_table h)"
  unfolding ht_alloc_def bucket_def using and_mask_less by auto

lemma in_bucket:
  "ht_alloc T h \<Longrightarrow> i < length (ht_table h) \<Longrightarrow> e \<in> set (ht_table h ! i) \<Longrightarrow>
   bucket T h (de_key e) = i"
  by (auto simp: ht_alloc_def)

lemma entry_in_bucket:
  assumes "ht_alloc T h"
  shows "e \<in> set (concat (ht_table h)) \<longleftrightarrow> e \<in> set (ht_table h ! bucket T h (de_key e))"
  unfolding set_concat_nth using assms bucket_less [OF assms] in_bucket [OF assms] by fastforce

lemma ht_alloc_update:
  assumes "ht_alloc T h" and "i < length (ht_table h)"
    and "\<forall>e\<in>set ys. bucket T h (de_key e) = i"
    and "u + length (ht_table h ! i) = used h + length ys"
  shows "ht_alloc T (h\<lparr>ht_table := (ht_table h)[i := ys], used := u\<rparr>)"
proof -
  from assms(1) obtain b where b: "b \<in> {2..31}" "ht_size h = 2 ^ b" "sizemask h = 2 ^ b - 1"
     "length (ht_table h) = 2 ^ b" "used h = length (concat (ht_table h))"
     "\<forall>i<2 ^ b. \<forall>e\<in>set (ht_table h ! i). bucket T h (de_key e) = i"
    unfolding ht_alloc_def by blast
  have "u = length (concat ((ht_table h)[i := ys]))"
    using length_concat_update [OF assms(2), of ys] assms(4) b(5) by linarith
  moreover have "bucket T (h\<lparr>ht_table := (ht_table h)[i := ys], used := u\<rparr>) = bucket T h"
    by (simp add: bucket_def fun_eq_iff)
  ultimately show ?thesis
    unfolding ht_alloc_def using b assms(2,3)
    by (intro bexI [of _ b]) (auto simp: nth_list_update)
qed

lemma ht_alloc_replicate:
  assumes "b \<in> {2..31}"
  shows "ht_alloc T \<lparr>ht_table = replicate (2 ^ b) [], ht_size = 2 ^ b, sizemask = 2 ^ b - 1, used = 0\<rparr>"
  using assms by (auto simp: ht_alloc_def intro!: bexI [of _ b])

section \<open>Chains\<close>

lemma chain_find_None: "chain_find (=) k c = None \<longleftrightarrow> k \<notin> de_key ` set c"
  by (induction c) auto

lemma chain_find_Some:
  "chain_find (=) k c = Some j \<Longrightarrow> j < length c \<and> de_key (c ! j) = k"
  by (induction c arbitrary: j) (auto split: if_splits)

lemma chain_unlink_None: "chain_unlink (=) k c = None \<longleftrightarrow> k \<notin> de_key ` set c"
  by (induction c) auto

lemma chain_unlink_Some:
  "chain_unlink (=) k c = Some r \<Longrightarrow> \<exists>e. de_key e = k \<and> mset c = add_mset e (mset r)"
  by (induction c arbitrary: r) (auto split: if_splits)

section \<open>Entries as a map\<close>

lemma fst_binding [simp]: "fst \<circ> binding = de_key"
  by (auto simp: binding_def)

lemma map_of_add_mset:
  assumes "mset ys = add_mset (k, v) (mset xs)" and "distinct (map fst ys)"
  shows "map_of ys = (map_of xs)(k \<mapsto> v)"
  using map_of_mset_cong [of ys "(k, v) # xs"] assms by simp

lemma dict_map_mset:
  "mset (entries d') = mset (entries d) \<Longrightarrow> distinct (map de_key (entries d)) \<Longrightarrow>
   dict_map d' = dict_map d"
  unfolding dict_map_def by (rule map_of_mset_cong [symmetric]) (simp_all add: comp_def binding_def)

lemma dict_map_add:
  assumes "mset (entries d') = add_mset e (mset (entries d))"
    and "distinct (map de_key (entries d'))"
  shows "dict_map d' = (dict_map d)(de_key e \<mapsto> de_val e)"
  unfolding dict_map_def
  by (rule map_of_add_mset) (use assms in \<open>simp_all add: binding_def comp_def\<close>)

lemma dict_map_None: "dict_map d k = None \<longleftrightarrow> k \<notin> de_key ` set (entries d)"
  by (auto simp: dict_map_def map_of_eq_None_iff binding_def image_image)

lemma dict_map_entry:
  "distinct (map de_key (entries d)) \<Longrightarrow> e \<in> set (entries d) \<Longrightarrow>
   dict_map d (de_key e) = Some (de_val e)"
  unfolding dict_map_def by (rule map_of_is_SomeI) (auto simp: binding_def comp_def)

lemma dom_dict_map: "dom (dict_map d) = de_key ` set (entries d)"
  unfolding set_eq_iff domIff dict_map_None by simp

lemma card_dom_dict_map:
  "distinct (map de_key (entries d)) \<Longrightarrow> card (dom (dict_map d)) = length (entries d)"
  by (metis dom_dict_map distinct_card length_map list.set_map)

lemma dict_map_del:
  assumes "mset (entries d) = add_mset e (mset (entries d'))"
    and "distinct (map de_key (entries d))"
  shows "dict_map d' = (dict_map d)(de_key e := None)"
proof -
  have "image_mset de_key (mset (entries d)) = add_mset (de_key e) (image_mset de_key (mset (entries d')))"
    by (simp add: assms(1))
  then have "mset (map de_key (entries d)) = mset (de_key e # map de_key (entries d'))"
    by simp
  with assms(2) have "de_key e \<notin> set (map de_key (entries d'))"
    by (metis distinct.simps(2) mset_eq_imp_distinct_iff)
  then have "dict_map d' (de_key e) = None" by (simp add: dict_map_None)
  with dict_map_add [OF assms] show ?thesis by (metis fun_upd_triv fun_upd_upd)
qed

lemma dict_map_swap:
  assumes e: "e \<in> set (entries d)" and ms: "add_mset e (mset (entries d')) = add_mset e' (mset (entries d))"
    and "distinct (map de_key (entries d))" "distinct (map de_key (entries d'))"
    and key: "de_key e' = de_key e"
  shows "dict_map d' = (dict_map d)(de_key e' \<mapsto> de_val e')"
proof -
  from e obtain zs where zs: "mset (entries d) = add_mset e (mset zs)"
    by (metis mset_remove1 insert_DiffM set_mset_mset)
  with ms have zs': "mset (entries d') = add_mset e' (mset zs)" by simp
  have "map_of (map binding (entries d)) = (map_of (map binding zs))(de_key e \<mapsto> de_val e)"
    by (rule map_of_add_mset) (use assms zs in \<open>simp_all add: binding_def comp_def\<close>)
  moreover have "map_of (map binding (entries d')) = (map_of (map binding zs))(de_key e' \<mapsto> de_val e')"
    by (rule map_of_add_mset) (use assms zs' in \<open>simp_all add: binding_def comp_def\<close>)
  ultimately show ?thesis by (simp add: dict_map_def key)
qed

section \<open>Replacing one chain\<close>

text \<open>
  Every operation on entries replaces one chain of one table and adjusts its counter; the lemmas
  below say once what that does to the invariant and to the entries.
\<close>

definition put_chain ::
  "('k, 'v) dict \<Rightarrow> nat \<Rightarrow> nat \<Rightarrow> ('k, 'v) dictEntry list \<Rightarrow> nat \<Rightarrow> ('k, 'v) dict" where
  "put_chain d t i ys u =
     set_ht d t ((ht d t)\<lparr>ht_table := (ht_table (ht d t))[i := ys], used := u\<rparr>)"

lemma put_chain_frame [simp]:
  "dtype (put_chain d t i ys u) = dtype d" "rehashidx (put_chain d t i ys u) = rehashidx d"
  "iterators (put_chain d t i ys u) = iterators d"
  "dictIsRehashing (put_chain d t i ys u) = dictIsRehashing d"
  "ht_size (ht0 (put_chain d t i ys u)) = ht_size (ht0 d)"
  "ht_size (ht1 (put_chain d t i ys u)) = ht_size (ht1 d)"
  by (simp_all add: put_chain_def set_ht_def ht_def dictIsRehashing_def)

lemma mset_put_chain:
  assumes "i < length (ht_table (ht d t))"
  shows "mset (entries (put_chain d t i ys u)) + mset (ht_table (ht d t) ! i) =
         mset (entries d) + mset ys"
  using mset_concat_update [OF assms, of ys]
  by (auto simp: put_chain_def set_ht_def ht_def entries_def ac_simps split: if_splits)

definition live_table :: "('k, 'v) dict \<Rightarrow> nat \<Rightarrow> bool" where
  "live_table d t \<longleftrightarrow> (t = 0 \<and> ht_size (ht0 d) \<noteq> 0) \<or> (t = 1 \<and> dictIsRehashing d)"

lemma live_table_alloc: "dict_inv d \<Longrightarrow> live_table d t \<Longrightarrow> ht_alloc (dtype d) (ht d t)"
  by (auto simp: dict_inv_def live_table_def rehash_inv_def ht_def dictReset_def split: if_splits)

lemma dict_inv_put_chain:
  assumes inv: "dict_inv d" and live: "live_table d t" and i: "i < length (ht_table (ht d t))"
    and ys: "\<forall>e\<in>set ys. bucket (dtype d) (ht d t) (de_key e) = i"
    and u: "u + length (ht_table (ht d t) ! i) = used (ht d t) + length ys"
    and dist: "distinct (map de_key (entries (put_chain d t i ys u)))"
    and empty: "t = 0 \<Longrightarrow> ht_table (ht0 d) ! i = [] \<Longrightarrow> dictIsRehashing d \<Longrightarrow> ys = []"
  shows "dict_inv (put_chain d t i ys u)"
proof -
  have alloc: "ht_alloc (dtype d) ((ht d t)\<lparr>ht_table := (ht_table (ht d t))[i := ys], used := u\<rparr>)"
    using ht_alloc_update [OF live_table_alloc [OF inv live] i ys u] .
  show ?thesis
  proof (cases "dictIsRehashing d")
    case True
    with inv have r: "rehash_inv d" by (simp add: dict_inv_def)
    have "rehash_inv (put_chain d t i ys u)"
      unfolding rehash_inv_def
      using r alloc empty [OF _ _ True] live i
      by (auto simp: rehash_inv_def put_chain_def set_ht_def ht_def live_table_def nth_list_update
          split: if_splits)
    with True inv dist show ?thesis by (simp add: dict_inv_def)
  next
    case False
    with inv live alloc dist show ?thesis
      by (auto simp: dict_inv_def live_table_def put_chain_def set_ht_def ht_def dictIsRehashing_def)
  qed
qed

section \<open>Rehashing\<close>

declare rehash_skip.simps [simp del]

lemma rehash_skip_finds:
  assumes "\<exists>j. i \<le> j \<and> j < length tb \<and> tb ! j \<noteq> []"
  shows "\<exists>i' ev' stop. rehash_skip tb i ev = Some (i', ev', stop) \<and> i \<le> i' \<and> i' \<le> length tb \<and>
           (\<forall>j. i \<le> j \<and> j < i' \<longrightarrow> tb ! j = []) \<and>
           (\<not> stop \<longrightarrow> i' < length tb) \<and> (stop \<longrightarrow> i < i')"
  using assms
proof (induction tb i ev rule: rehash_skip.induct)
  case (1 tb i ev)
  from "1.prems" obtain j where j: "i \<le> j" "j < length tb" "tb ! j \<noteq> []" by blast
  then have il: "i < length tb" by simp
  show ?case
  proof (cases "tb ! i = [] \<and> ev - 1 \<noteq> 0")
    case True
    with j have "i \<noteq> j" by auto
    with j have "\<exists>j. Suc i \<le> j \<and> j < length tb \<and> tb ! j \<noteq> []"
      by (intro exI [of _ j]) simp
    from "1.IH" [OF il conjunct1 [OF True] conjunct2 [OF True] this]
    obtain i' ev' stop where r: "rehash_skip tb (Suc i) (ev - 1) = Some (i', ev', stop)"
      "Suc i \<le> i'" "i' \<le> length tb" "\<forall>j. Suc i \<le> j \<and> j < i' \<longrightarrow> tb ! j = []"
      "\<not> stop \<longrightarrow> i' < length tb" by blast
    have "rehash_skip tb i ev = Some (i', ev', stop)"
      using True il r(1) by (simp add: rehash_skip.simps [of tb i ev])
    moreover have "\<forall>j. i \<le> j \<and> j < i' \<longrightarrow> tb ! j = []"
    proof (intro allI impI)
      fix k assume "i \<le> k \<and> k < i'"
      with r(4) True show "tb ! k = []" by (cases "k = i") auto
    qed
    ultimately show ?thesis using r(2,3,5)
      by (intro exI [of _ i'] exI [of _ ev'] exI [of _ stop] conjI) simp_all
  next
    case False
    then consider "tb ! i \<noteq> []" | "tb ! i = []" "ev - 1 = 0" by blast
    then show ?thesis
    proof cases
      case 1
      with il have "rehash_skip tb i ev = Some (i, ev, False)"
        by (simp add: rehash_skip.simps [of tb i ev])
      moreover have "\<forall>j. i \<le> j \<and> j < i \<longrightarrow> tb ! j = []" by (meson leD)
      ultimately show ?thesis using il by (intro exI [of _ i] exI [of _ ev] exI [of _ False]) simp
    next
      case 2
      with il have "rehash_skip tb i ev = Some (Suc i, 0, True)"
        by (subst rehash_skip.simps) simp
      moreover from 2 have "\<forall>j. i \<le> j \<and> j < Suc i \<longrightarrow> tb ! j = []"
        by (metis le_antisym less_Suc_eq_le)
      ultimately show ?thesis using il
        by (intro exI [of _ "Suc i"] exI [of _ 0] exI [of _ True]) simp
    qed
  qed
qed

lemma rehash_move_ok:
  assumes "ht_alloc T h1"
  shows "\<exists>h1'. rehash_move T des h0 h1 = Some (h0\<lparr>used := used h0 - length des\<rparr>, h1') \<and>
           ht_alloc T h1' \<and> ht_size h1' = ht_size h1 \<and>
           mset (concat (ht_table h1')) = mset des + mset (concat (ht_table h1))"
  using assms
proof (induction des arbitrary: h0 h1)
  case Nil
  then show ?case by simp
next
  case (Cons de des)
  let ?b = "bucket T h1 (de_key de)"
  let ?h1 = "h1\<lparr>ht_table := (ht_table h1)[?b := de # ht_table h1 ! ?b], used := used h1 + 1\<rparr>"
  have b: "?b < length (ht_table h1)" using bucket_less [OF Cons.prems] .
  have "ht_alloc T ?h1"
    using in_bucket [OF Cons.prems b] by (intro ht_alloc_update [OF Cons.prems b]) auto
  from Cons.IH [OF this, of "h0\<lparr>used := used h0 - 1\<rparr>"] obtain h1' where h1':
    "rehash_move T des (h0\<lparr>used := used h0 - 1\<rparr>) ?h1 =
       Some (h0\<lparr>used := used h0 - 1, used := used (h0\<lparr>used := used h0 - 1\<rparr>) - length des\<rparr>, h1')"
    "ht_alloc T h1'" "ht_size h1' = ht_size ?h1"
    "mset (concat (ht_table h1')) = mset des + mset (concat (ht_table ?h1))" by blast
  have "mset (concat (ht_table ?h1)) = add_mset de (mset (concat (ht_table h1)))"
    using mset_concat_update [OF b, of "de # ht_table h1 ! ?b"] by simp
  moreover have "rehash_move T (de # des) h0 h1 = rehash_move T des (h0\<lparr>used := used h0 - 1\<rparr>) ?h1"
    using b by (simp add: bucket_def Let_def)
  ultimately show ?case using h1' by (intro exI [of _ h1']) simp
qed


lemma rehash_inv_nonempty:
  assumes "rehash_inv d" and "used (ht0 d) \<noteq> 0"
  shows "\<exists>j. nat (rehashidx d) \<le> j \<and> j < length (ht_table (ht0 d)) \<and> ht_table (ht0 d) ! j \<noteq> []"
proof -
  from assms have "concat (ht_table (ht0 d)) \<noteq> []"
    using ht_alloc_used [of "dtype d" "ht0 d"] by (auto simp: rehash_inv_def)
  then obtain j where "j < length (ht_table (ht0 d))" "ht_table (ht0 d) ! j \<noteq> []"
    unfolding concat_Nil_conv by blast
  with assms(1) show ?thesis unfolding rehash_inv_def by (meson not_le)
qed

lemma rehash_loop_ok:
  assumes "rehash_inv d"
  shows "\<exists>d' early. rehash_loop n d ev = Some (d', early) \<and> rehash_inv d' \<and>
           mset (entries d') = mset (entries d) \<and> dtype d' = dtype d \<and>
           iterators d' = iterators d \<and> rehashidx d \<le> rehashidx d' \<and>
           ht_size (ht0 d') = ht_size (ht0 d) \<and> ht_size (ht1 d') = ht_size (ht1 d) \<and>
           (n \<noteq> 0 \<and> used (ht0 d) \<noteq> 0 \<longrightarrow> rehashidx d < rehashidx d')"
  using assms
proof (induction n arbitrary: d ev)
  case 0
  then show ?case by auto
next
  case (Suc n)
  show ?case
  proof (cases "used (ht0 d) = 0")
    case True
    with Suc.prems show ?thesis by auto
  next
    case False
    let ?tb = "ht_table (ht0 d)"
    from Suc.prems have a0: "ht_alloc (dtype d) (ht0 d)" and a1: "ht_alloc (dtype d) (ht1 d)"
      and r0: "0 \<le> rehashidx d" and emp: "\<forall>i<nat (rehashidx d). ?tb ! i = []"
      by (auto simp: rehash_inv_def)
    note len = ht_alloc_length [OF a0]
    from rehash_inv_nonempty [OF Suc.prems False] have ne:
      "\<exists>j. nat (rehashidx d) \<le> j \<and> j < length ?tb \<and> ?tb ! j \<noteq> []" .
    then have "nat (rehashidx d) < ht_size (ht0 d)" using len by auto
    with r0 have lt: "rehashidx d < int (ht_size (ht0 d))" by linarith
    from rehash_skip_finds [OF ne, of ev] obtain i ev' stop where sk:
      "rehash_skip ?tb (nat (rehashidx d)) ev = Some (i, ev', stop)"
      "nat (rehashidx d) \<le> i" "i \<le> length ?tb"
      "\<forall>j. nat (rehashidx d) \<le> j \<and> j < i \<longrightarrow> ?tb ! j = []"
      "\<not> stop \<longrightarrow> i < length ?tb" "stop \<longrightarrow> nat (rehashidx d) < i" by blast
    have emp': "\<forall>j<i. ?tb ! j = []" using emp sk(4) by (meson not_le)
    show ?thesis
    proof (cases stop)
      case True
      let ?d = "d\<lparr>rehashidx := int i\<rparr>"
      have "rehash_loop (Suc n) d ev = Some (?d, True)" using False lt sk(1) True by simp
      moreover have "rehash_inv ?d" using Suc.prems emp' sk(3) len by (simp add: rehash_inv_def)
      ultimately show ?thesis using sk(6) True r0
        by (intro exI [of _ ?d] exI [of _ True]) (auto simp: entries_def)
    next
      case go: False
      with sk have i: "i < length ?tb" by simp
      from rehash_move_ok [OF a1, of "?tb ! i" "ht0 d"] obtain h1 where mv:
        "rehash_move (dtype d) (?tb ! i) (ht0 d) (ht1 d) =
           Some ((ht0 d)\<lparr>used := used (ht0 d) - length (?tb ! i)\<rparr>, h1)"
        "ht_alloc (dtype d) h1" "ht_size h1 = ht_size (ht1 d)"
        "mset (concat (ht_table h1)) = mset (?tb ! i) + mset (concat (ht_table (ht1 d)))" by blast
      let ?h0 = "(ht0 d)\<lparr>used := used (ht0 d) - length (?tb ! i), ht_table := ?tb[i := []]\<rparr>"
      have h0: "?h0 = (ht0 d)\<lparr>ht_table := ?tb[i := []], used := used (ht0 d) - length (?tb ! i)\<rparr>"
        by (cases "ht0 d") simp
      let ?d = "d\<lparr>ht0 := ?h0, ht1 := h1, rehashidx := int (Suc i)\<rparr>"
      have step: "rehash_loop (Suc n) d ev = rehash_loop n ?d ev'"
        using False lt sk(1) go i mv(1) by simp
      have "used (ht0 d) - length (?tb ! i) + length (?tb ! i) = used (ht0 d)"
        using nth_le_concat [OF i] ht_alloc_used [OF a0] by simp
      then have "ht_alloc (dtype d) ?h0" unfolding h0 using ht_alloc_update [OF a0 i, of "[]"] by simp
      then have inv: "rehash_inv ?d"
        using mv(2) i len emp' by (simp add: rehash_inv_def nth_list_update less_Suc_eq)
      have "mset (concat (?tb[i := []])) + mset (?tb ! i) = mset (concat ?tb)"
        using mset_concat_update [OF i, of "[]"] by simp
      then have ms: "mset (entries ?d) = mset (entries d)"
        using mv(4) by (simp add: entries_def ac_simps)
      from Suc.IH [OF inv, of ev'] obtain d' early where d':
        "rehash_loop n ?d ev' = Some (d', early)" "rehash_inv d'"
        "mset (entries d') = mset (entries ?d)" "dtype d' = dtype ?d" "iterators d' = iterators ?d"
        "rehashidx ?d \<le> rehashidx d'" "ht_size (ht0 d') = ht_size (ht0 ?d)"
        "ht_size (ht1 d') = ht_size (ht1 ?d)" by blast
      have "rehashidx d < rehashidx d'" using d'(6) sk(2) r0 by (simp add: nat_le_iff)
      then show ?thesis
        using step d' ms mv(3) by (intro exI [of _ d'] exI [of _ early]) simp
    qed
  qed
qed


text \<open>
  What every operation keeps while it rehashes: the multiset of entries, the type and the
  iterator count.
\<close>

definition same_entries :: "('k, 'v) dict \<Rightarrow> ('k, 'v) dict \<Rightarrow> bool" where
  "same_entries d d' \<longleftrightarrow> dict_inv d' \<and> mset (entries d') = mset (entries d) \<and>
     dtype d' = dtype d \<and> iterators d' = iterators d \<and>
     (ht_size (ht0 d) \<noteq> 0 \<longrightarrow> ht_size (ht0 d') \<noteq> 0)"

lemma same_entries_refl: "dict_inv d \<Longrightarrow> same_entries d d"
  by (simp add: same_entries_def)

lemma same_entries_trans: "same_entries d e \<Longrightarrow> same_entries e f \<Longrightarrow> same_entries d f"
  by (simp add: same_entries_def)

lemma dict_inv_distinct: "dict_inv d \<Longrightarrow> distinct (map de_key (entries d))"
  by (simp add: dict_inv_def)

lemma distinct_keys_mset:
  "mset (entries d') = mset (entries d) \<Longrightarrow>
   distinct (map de_key (entries d')) = distinct (map de_key (entries d))"
  by (rule mset_eq_imp_distinct_iff) simp

lemma same_entries_map: "dict_inv d \<Longrightarrow> same_entries d d' \<Longrightarrow> dict_map d' = dict_map d"
  by (auto simp: same_entries_def dict_inv_distinct intro: dict_map_mset)

lemma dictSize_entries: "dict_inv d \<Longrightarrow> dictSize d = length (entries d)"
  by (auto simp: dict_inv_def dictSize_def entries_def dictReset_def rehash_inv_def ht_alloc_used
      split: if_splits)

lemma rehash_loop_done: "used (ht0 d) = 0 \<Longrightarrow> rehash_loop n d ev = Some (d, False)"
  by (cases n) auto

lemma dictRehash_ok:
  assumes inv: "dict_inv d" and n: "n * 10 < 2 ^ 31"
  shows "\<exists>d' more. dictRehash d n = Some (d', more) \<and> same_entries d d' \<and>
           more = dictIsRehashing d' \<and>
           (dictIsRehashing d \<and> n \<noteq> 0 \<and> more \<longrightarrow>
             rehashidx d < rehashidx d' \<and> ht_size (ht0 d') = ht_size (ht0 d))"
proof (cases "dictIsRehashing d")
  case False
  with inv n show ?thesis by (simp add: dictRehash_def same_entries_refl)
next
  case True
  with inv have r: "rehash_inv d" and cmp: "keyCompare (dtype d) = (=)"
    and dist: "distinct (map de_key (entries d))" by (auto simp: dict_inv_def)
  from rehash_loop_ok [OF r, of n "int n * 10"] obtain d1 early where l:
    "rehash_loop n d (int n * 10) = Some (d1, early)" "rehash_inv d1"
    "mset (entries d1) = mset (entries d)" "dtype d1 = dtype d" "iterators d1 = iterators d"
    "ht_size (ht0 d1) = ht_size (ht0 d)"
    "n \<noteq> 0 \<and> used (ht0 d) \<noteq> 0 \<longrightarrow> rehashidx d < rehashidx d1" by blast
  have dist1: "distinct (map de_key (entries d1))" using distinct_keys_mset [OF l(3)] dist by simp
  have re1: "dictIsRehashing d1" using l(2) by (auto simp: rehash_inv_def dictIsRehashing_def)
  show ?thesis
  proof (cases "early \<or> used (ht0 d1) \<noteq> 0")
    case go: True
    have "dictRehash d n = Some (d1, True)" using go True l(1) n by (auto simp: dictRehash_def)
    moreover have "same_entries d d1"
      using l dist1 cmp re1 by (simp add: same_entries_def dict_inv_def)
    moreover have "used (ht0 d) \<noteq> 0"
      using go l(1) rehash_loop_done [of d n "int n * 10"] by auto
    ultimately show ?thesis using re1 l(6,7) by auto
  next
    case fin: False
    let ?d = "d1\<lparr>ht0 := ht1 d1, ht1 := dictReset, rehashidx := -1\<rparr>"
    have "dictRehash d n = Some (?d, False)" using fin True l(1) n by (simp add: dictRehash_def)
    moreover have "concat (ht_table (ht0 d1)) = []"
      using fin l(2) ht_alloc_used [of "dtype d1" "ht0 d1"] by (simp add: rehash_inv_def)
    then have ms: "mset (entries ?d) = mset (entries d)"
      using l(3) by (simp add: entries_def dictReset_def del: concat_eq_Nil_conv)
    then have "same_entries d ?d"
      using l(2,4,5) cmp dist distinct_keys_mset [OF ms] ht_alloc_nonempty [of "dtype d1" "ht1 d1"]
      by (simp add: same_entries_def dict_inv_def dictIsRehashing_def rehash_inv_def)
    ultimately show ?thesis by (auto simp: dictIsRehashing_def)
  qed
qed


lemma rehash_if_rehashing_ok:
  assumes "dict_inv d"
  shows "\<exists>d'. rehash_if_rehashing d = Some d' \<and> same_entries d d'"
  using dictRehash_ok [OF assms, of 1] assms
  by (auto simp: rehash_if_rehashing_def dictRehashStep_def same_entries_refl)

section \<open>Expansion\<close>

lemma next_power_loop_ok:
  assumes "sz \<le> 2 ^ b" and "b \<le> 63" and "a \<le> b" and "a = 2 \<or> 2 ^ (a - 1) < sz" and "2 \<le> a"
  shows "\<exists>c. next_power_loop (2 ^ a) sz = Some (2 ^ c) \<and> a \<le> c \<and> c \<le> b \<and> sz \<le> 2 ^ c \<and>
           (c = 2 \<or> 2 ^ (c - 1) < sz)"
  using assms
proof (induction "b - a" arbitrary: a)
  case 0
  then show ?case by (auto simp: next_power_loop.simps)
next
  case (Suc n)
  show ?case
  proof (cases "sz \<le> 2 ^ a")
    case True
    with Suc.prems show ?thesis by (auto simp: next_power_loop.simps)
  next
    case False
    from Suc have ab: "Suc a \<le> b" by simp
    have "(2::nat) ^ Suc a < 2 ^ 64"
      using ab Suc.prems(2) by (intro power_strict_increasing) auto
    then have "next_power_loop (2 ^ a) sz = next_power_loop (2 ^ Suc a) sz"
      using False by (subst next_power_loop.simps) (simp add: mult.commute)
    moreover have "\<exists>c. next_power_loop (2 ^ Suc a) sz = Some (2 ^ c) \<and> Suc a \<le> c \<and> c \<le> b \<and>
        sz \<le> 2 ^ c \<and> (c = 2 \<or> 2 ^ (c - 1) < sz)"
      using Suc.hyps(2) Suc.prems ab False by (intro Suc.hyps(1)) auto
    ultimately show ?thesis by auto
  qed
qed

lemma dictNextPower_ok:
  assumes "sz < LONG_MAX"
  shows "\<exists>c. dictNextPower sz = Some (2 ^ c) \<and> 2 \<le> c \<and> c \<le> 63 \<and> sz \<le> 2 ^ c \<and>
           (c = 2 \<or> 2 ^ (c - 1) < sz)"
proof -
  have "sz \<le> 2 ^ 63" using assms by (simp add: LONG_MAX_def)
  from next_power_loop_ok [OF this, of 2] assms show ?thesis
    by (auto simp: dictNextPower_def DICT_HT_INITIAL_SIZE_def)
qed

lemma dictNextPower_small:
  assumes "sz \<le> 2 ^ 31"
  shows "\<exists>c\<in>{2..31}. dictNextPower sz = Some (2 ^ c) \<and> sz \<le> 2 ^ c"
proof -
  from assms have "sz < LONG_MAX" by (simp add: LONG_MAX_def)
  from dictNextPower_ok [OF this] obtain c where c: "dictNextPower sz = Some (2 ^ c)" "2 \<le> c"
    "sz \<le> 2 ^ c" "c = 2 \<or> 2 ^ (c - 1) < sz" by blast
  have "c \<le> 31"
  proof (rule ccontr)
    assume "\<not> c \<le> 31"
    with c(4) have "2 ^ (c - 1) < sz" and "31 \<le> c - 1" by auto
    with assms power_increasing [of 31 "c - 1" "2::nat"] show False by simp
  qed
  with c show ?thesis by auto
qed

lemma dictExpand_ok:
  assumes inv: "dict_inv d" and "sz \<le> 2 ^ 31"
  shows "\<exists>d' ok. dictExpand d sz = Some (d', ok) \<and> same_entries d d' \<and> (ok \<longrightarrow> ht_size (ht0 d') \<noteq> 0) \<and>
           (\<not> dictIsRehashing d \<and> used (ht0 d) \<le> sz \<and> ht_size (ht0 d) < sz \<longrightarrow> ok) \<and>
           (\<not> ok \<longrightarrow> d' = d)"
proof -
  from dictNextPower_small [OF assms(2)] obtain c where c:
    "c \<in> {2..31}" "dictNextPower sz = Some (2 ^ c)" "sz \<le> 2 ^ c" by blast
  let ?n = "\<lparr>ht_table = replicate (2 ^ c) [], ht_size = 2 ^ c, sizemask = 2 ^ c - 1, used = 0\<rparr>
    :: ('a, 'b) dictht"
  note n = ht_alloc_replicate [OF c(1), of "dtype d"]
  show ?thesis
  proof (cases "dictIsRehashing d \<or> sz < used (ht0 d) \<or> 2 ^ c = ht_size (ht0 d)")
    case True
    with inv c show ?thesis by (auto simp: dictExpand_def same_entries_refl)
  next
    case False
    show ?thesis
    proof (cases "ht_table (ht0 d) = []")
      case empty: True
      let ?d = "d\<lparr>ht0 := ?n\<rparr>"
      have "dictExpand d sz = Some (?d, True)" using False c(2) empty by (simp add: dictExpand_def)
      moreover have "ht0 d = dictReset"
        using inv False empty ht_alloc_nonempty [of "dtype d" "ht0 d"] by (auto simp: dict_inv_def)
      then have "same_entries d ?d" using inv n False
        by (auto simp: same_entries_def dict_inv_def entries_def dictReset_def dictIsRehashing_def)
      ultimately show ?thesis by auto
    next
      case full: False
      let ?d = "d\<lparr>ht1 := ?n, rehashidx := 0\<rparr>"
      have "dictExpand d sz = Some (?d, True)" using False c(2) full by (simp add: dictExpand_def)
      moreover have a0: "ht_alloc (dtype d) (ht0 d)" and "ht1 d = dictReset"
        using inv False full by (auto simp: dict_inv_def dictReset_def)
      then have "same_entries d ?d" using inv n
        by (auto simp: same_entries_def dict_inv_def entries_def dictReset_def dictIsRehashing_def
            rehash_inv_def)
      ultimately show ?thesis using ht_alloc_nonempty [OF a0] by auto
    qed
  qed
qed

lemma dictExpandIfNeeded_ok:
  assumes inv: "dict_inv d" and "used (ht0 d) \<le> 2 ^ 30"
  shows "\<exists>d'. dictExpandIfNeeded can_resize d = Some (d', True) \<and> same_entries d d' \<and>
           ht_size (ht0 d') \<noteq> 0"
proof -
  consider (re) "dictIsRehashing d" | (new) "\<not> dictIsRehashing d" "ht_size (ht0 d) = 0"
    | (old) "\<not> dictIsRehashing d" "ht_size (ht0 d) \<noteq> 0" by blast
  then show ?thesis
  proof cases
    case re
    with inv have "ht_size (ht0 d) \<noteq> 0"
      using ht_alloc_nonempty by (auto simp: dict_inv_def rehash_inv_def)
    with re inv show ?thesis by (simp add: dictExpandIfNeeded_def same_entries_refl)
  next
    case new
    with inv have "used (ht0 d) = 0"
      using ht_alloc_nonempty [of "dtype d" "ht0 d"] by (auto simp: dict_inv_def dictReset_def)
    with dictExpand_ok [OF inv, of 4] new show ?thesis
      by (auto simp: dictExpandIfNeeded_def DICT_HT_INITIAL_SIZE_def)
  next
    case old
    from dictExpand_ok [OF inv, of "used (ht0 d) * 2"] assms(2) obtain d' ok where e:
      "dictExpand d (used (ht0 d) * 2) = Some (d', ok)" "same_entries d d'"
      "ok \<longrightarrow> ht_size (ht0 d') \<noteq> 0"
      "\<not> dictIsRehashing d \<and> used (ht0 d) \<le> used (ht0 d) * 2 \<and> ht_size (ht0 d) < used (ht0 d) * 2 \<longrightarrow> ok"
      by auto
    with old inv show ?thesis by (auto simp: dictExpandIfNeeded_def same_entries_refl)
  qed
qed


section \<open>Lookup\<close>

fun valid_ptr :: "('k, 'v) dict \<Rightarrow> 'k \<Rightarrow> entry_ptr \<Rightarrow> bool" where
  "valid_ptr d k (t, i, j) \<longleftrightarrow> live_table d t \<and> i < length (ht_table (ht d t)) \<and>
     j < length (ht_table (ht d t) ! i) \<and> de_key (ht_table (ht d t) ! i ! j) = k"

lemma hash_index: "dictHashKey d k AND sizemask (ht d t) = bucket (dtype d) (ht d t) k"
  by (simp add: dictHashKey_def bucket_def)

lemma key_in_table:
  assumes "ht_alloc T h"
  shows "k \<in> de_key ` set (concat (ht_table h)) \<longleftrightarrow>
         k \<in> de_key ` set (ht_table h ! bucket T h k)"
proof -
  have "e \<in> set (concat (ht_table h)) \<longleftrightarrow> e \<in> set (ht_table h ! bucket T h k)" if "de_key e = k" for e
    using entry_in_bucket [OF assms, of e] that by simp
  then show ?thesis unfolding image_iff by blast
qed

lemma keys_not_rehashing:
  "dict_inv d \<Longrightarrow> \<not> dictIsRehashing d \<Longrightarrow> entries d = concat (ht_table (ht d 0))"
  by (simp add: dict_inv_def entries_def dictReset_def ht_def)

lemma keys_two_tables: "set (entries d) = set (concat (ht_table (ht d 0))) \<union> set (concat (ht_table (ht d 1)))"
  by (simp add: entries_def ht_def)

lemma live_table_0: "ht_size (ht0 d) \<noteq> 0 \<Longrightarrow> live_table d 0"
  by (simp add: live_table_def)

lemma live_table_1: "dictIsRehashing d \<Longrightarrow> live_table d 1"
  by (simp add: live_table_def)

lemma find_tables_ok:
  assumes inv: "dict_inv d" and sz: "ht_size (ht0 d) \<noteq> 0"
  shows "\<exists>r. find_tables d k [0, 1] = Some r \<and>
           (case r of None \<Rightarrow> k \<notin> de_key ` set (entries d) | Some p \<Rightarrow> valid_ptr d k p)"
proof -
  note a0 = live_table_alloc [OF inv live_table_0 [OF sz]]
  have cmp: "keyCompare (dtype d) = (=)" using inv by (simp add: dict_inv_def)
  show ?thesis
  proof (cases "chain_find (=) k (ht_table (ht d 0) ! bucket (dtype d) (ht d 0) k)")
    case (Some j)
    with chain_find_Some [OF Some] show ?thesis
      by (simp add: hash_index cmp bucket_less [OF a0] live_table_0 [OF sz] Let_def)
  next
    case None
    then have n0: "k \<notin> de_key ` set (concat (ht_table (ht d 0)))"
      unfolding chain_find_None key_in_table [OF a0] .
    show ?thesis
    proof (cases "dictIsRehashing d")
      case False
      with None n0 show ?thesis
        by (simp add: hash_index cmp bucket_less [OF a0] keys_not_rehashing [OF inv] Let_def)
    next
      case True
      note a1 = live_table_alloc [OF inv live_table_1 [OF True]]
      show ?thesis
      proof (cases "chain_find (=) k (ht_table (ht d 1) ! bucket (dtype d) (ht d 1) k)")
        case (Some j)
        with None True chain_find_Some [OF Some] show ?thesis
          using live_table_1 [OF True] bucket_less [OF a1, of k]
          by (simp add: hash_index cmp bucket_less [OF a0] Let_def)
      next
        case none1: None
        then have "k \<notin> de_key ` set (concat (ht_table (ht d 1)))"
          unfolding chain_find_None key_in_table [OF a1] .
        with None True none1 n0 show ?thesis
          using bucket_less [OF a1, of k]
          by (simp add: hash_index cmp bucket_less [OF a0] keys_two_tables Let_def image_Un)
      qed
    qed
  qed
qed

lemma same_entries_size:
  "dict_inv d \<Longrightarrow> same_entries d d' \<Longrightarrow> de_key ` set (entries d') = de_key ` set (entries d)"
  by (metis mset_eq_setD same_entries_def)

lemma reset_entries: "dict_inv d \<Longrightarrow> ht_size (ht0 d) = 0 \<Longrightarrow> entries d = []"
  using ht_alloc_nonempty [of "dtype d" "ht0 d"]
  by (auto simp: dict_inv_def rehash_inv_def entries_def dictReset_def split: if_splits)


lemma dictFind_ok:
  assumes inv: "dict_inv d"
  shows "\<exists>d' r. dictFind d k = Some (d', r) \<and> same_entries d d' \<and>
           (case r of None \<Rightarrow> k \<notin> de_key ` set (entries d) | Some p \<Rightarrow> valid_ptr d' k p)"
proof (cases "ht_size (ht0 d) = 0")
  case True
  with inv show ?thesis by (simp add: dictFind_def same_entries_refl reset_entries)
next
  case False
  from rehash_if_rehashing_ok [OF inv] obtain d' where d':
    "rehash_if_rehashing d = Some d'" "same_entries d d'" by blast
  then have inv': "dict_inv d'" and "ht_size (ht0 d') \<noteq> 0"
    using False by (auto simp: same_entries_def)
  from find_tables_ok [OF this, of k] obtain r where "find_tables d' k [0, 1] = Some r"
    "case r of None \<Rightarrow> k \<notin> de_key ` set (entries d') | Some p \<Rightarrow> valid_ptr d' k p" by blast
  with d' False same_entries_size [OF inv d'(2)] show ?thesis
    by (intro exI [of _ d'] exI [of _ r]) (auto simp: dictFind_def split: option.splits)
qed

lemma ptr_entry_in:
  assumes "valid_ptr d k (t, i, j)"
  shows "ht_table (ht d t) ! i ! j \<in> set (entries d)"
proof -
  have "t = 0 \<or> t = 1" using assms by (auto simp: live_table_def)
  moreover have "ht_table (ht d t) ! i ! j \<in> set (concat (ht_table (ht d t)))"
    using assms by (auto intro!: bexI [OF _ nth_mem])
  ultimately show ?thesis unfolding keys_two_tables by auto
qed

lemma valid_ptr_entry:
  assumes "dict_inv d" and "valid_ptr d k p"
  shows "\<exists>e. read_entry d p = Some e \<and> de_key e = k \<and> dict_map d k = Some (de_val e)"
proof -
  obtain t i j where p: "p = (t, i, j)" by (cases p)
  let ?e = "ht_table (ht d t) ! i ! j"
  have "?e \<in> set (entries d)" using ptr_entry_in [OF assms(2) [unfolded p]] .
  from dict_map_entry [OF dict_inv_distinct [OF assms(1)] this] assms(2) p show ?thesis by auto
qed

lemma dictFetchValue_ok:
  assumes inv: "dict_inv d"
  shows "\<exists>d'. dictFetchValue d k = Some (d', Option.bind (dict_map d k) id) \<and> same_entries d d'"
proof -
  from dictFind_ok [OF inv, of k] obtain d' r where f: "dictFind d k = Some (d', r)"
    "same_entries d d'"
    "case r of None \<Rightarrow> k \<notin> de_key ` set (entries d) | Some p \<Rightarrow> valid_ptr d' k p" by blast
  show ?thesis
  proof (cases r)
    case None
    with f show ?thesis by (simp add: dictFetchValue_def dict_map_None [THEN iffD2])
  next
    case (Some p)
    with f have "valid_ptr d' k p" "dict_inv d'" by (auto simp: same_entries_def)
    from valid_ptr_entry [OF this(2,1)] f Some same_entries_map [OF inv f(2)] show ?thesis
      by (auto simp: dictFetchValue_def)
  qed
qed

section \<open>Insertion and replacement\<close>

lemma dictSetVal_ok:
  assumes inv: "dict_inv d" and ptr: "valid_ptr d k p"
  shows "\<exists>d'. dictSetVal d p v = Some d' \<and> dict_inv d' \<and> dict_map d' = (dict_map d)(k \<mapsto> Some v) \<and>
           dtype d' = dtype d \<and> iterators d' = iterators d"
proof -
  obtain t i j where p: "p = (t, i, j)" by (cases p)
  with ptr have live: "live_table d t" and i: "i < length (ht_table (ht d t))"
    and j: "j < length (ht_table (ht d t) ! i)" and k: "de_key (ht_table (ht d t) ! i ! j) = k" by auto
  let ?c = "ht_table (ht d t) ! i"
  let ?e = "?c ! j" and ?e' = "(?c ! j)\<lparr>de_val := Some v\<rparr>"
  let ?d = "put_chain d t i (?c[j := ?e']) (used (ht d t))"
  have set: "dictSetVal d p v = Some ?d"
    using i j p by (simp add: put_chain_def)
  have "mset (?c[j := ?e']) + {#?e#} = mset ?c + {#?e'#}"
    using j by (simp add: mset_update)
  with mset_put_chain [OF i, of "?c[j := ?e']" "used (ht d t)"]
  have "mset (entries ?d) + mset ?c + {#?e#} = mset (entries d) + {#?e'#} + mset ?c"
    by (simp add: ac_simps)
  then have ms: "add_mset ?e (mset (entries ?d)) = add_mset ?e' (mset (entries d))" by simp
  then have "image_mset de_key (add_mset ?e (mset (entries ?d))) =
             image_mset de_key (add_mset ?e' (mset (entries d)))" by (rule arg_cong)
  then have "mset (map de_key (entries ?d)) = mset (map de_key (entries d))" by simp
  then have dist: "distinct (map de_key (entries ?d))"
    using mset_eq_imp_distinct_iff dict_inv_distinct [OF inv] by metis
  have "dict_inv ?d"
  proof (rule dict_inv_put_chain [OF inv live i _ _ dist])
    have "set (?c[j := ?e']) \<subseteq> insert ?e' (set ?c)" by (rule set_update_subset_insert)
    moreover have "bucket (dtype d) (ht d t) (de_key ?e') = i"
      using in_bucket [OF live_table_alloc [OF inv live] i nth_mem [OF j]] by simp
    ultimately show "\<forall>e\<in>set (?c[j := ?e']). bucket (dtype d) (ht d t) (de_key e) = i"
      using in_bucket [OF live_table_alloc [OF inv live] i] by blast
  qed (use j in \<open>auto simp: ht_def\<close>)
  moreover have "dict_map ?d = (dict_map d)(de_key ?e' \<mapsto> de_val ?e')"
    using ptr_entry_in [OF ptr [unfolded p]] ms dict_inv_distinct [OF inv] dist
    by (intro dict_map_swap [of ?e]) auto
  then have "dict_map ?d = (dict_map d)(k \<mapsto> Some v)" using k by simp
  ultimately show ?thesis using set by auto
qed


lemma sint_word_of_nat_small: "n < 2 ^ 31 \<Longrightarrow> sint (word_of_nat n :: u32) = int n"
  by (simp add: signed_of_nat signed_take_bit_int_eq_self)

definition target_table :: "('k, 'v) dict \<Rightarrow> nat" where
  "target_table d = (if dictIsRehashing d then 1 else 0)"

lemma bucket_bound: "ht_alloc T h \<Longrightarrow> bucket T h k < 2 ^ 31"
  using bucket_less [of T h k] ht_alloc_size [of T h] ht_alloc_length [of T h] by simp

lemma key_index_tables_ok:
  assumes inv: "dict_inv d" and sz: "ht_size (ht0 d) \<noteq> 0"
  shows "key_index_tables d k [0, 1] 0 =
           Some (if k \<in> de_key ` set (entries d) then -1
                 else int (bucket (dtype d) (ht d (target_table d)) k))"
proof -
  note a0 = live_table_alloc [OF inv live_table_0 [OF sz]]
  have cmp: "keyCompare (dtype d) = (=)" using inv by (simp add: dict_inv_def)
  have c0: "chain_find (=) k (ht_table (ht d 0) ! bucket (dtype d) (ht d 0) k) = None \<longleftrightarrow>
      k \<notin> de_key ` set (concat (ht_table (ht d 0)))"
    unfolding chain_find_None key_in_table [OF a0] ..
  show ?thesis
  proof (cases "dictIsRehashing d")
    case False
    then show ?thesis using c0 bucket_less [OF a0] bucket_bound [OF a0]
      by (auto simp: hash_index cmp keys_not_rehashing [OF inv] Let_def target_table_def
          sint_word_of_nat_small split: option.splits)
  next
    case True
    note a1 = live_table_alloc [OF inv live_table_1 [OF True]]
    have c1: "chain_find (=) k (ht_table (ht d 1) ! bucket (dtype d) (ht d 1) k) = None \<longleftrightarrow>
        k \<notin> de_key ` set (concat (ht_table (ht d 1)))"
      unfolding chain_find_None key_in_table [OF a1] ..
    show ?thesis using True c0 c1 bucket_less [OF a0] bucket_less [OF a1, of k] bucket_bound [OF a1]
      by (auto simp: hash_index cmp keys_two_tables Let_def target_table_def
          sint_word_of_nat_small simp del: set_concat split: option.splits)
  qed
qed


lemma used_le_entries: "dict_inv d \<Longrightarrow> used (ht0 d) \<le> length (entries d)"
  using dictSize_entries [of d] by (simp add: dictSize_def)

lemma dictKeyIndex_ok:
  assumes inv: "dict_inv d" and room: "length (entries d) \<le> 2 ^ 30"
  shows "\<exists>d'. dictKeyIndex can_resize d k =
           Some (d', if k \<in> de_key ` set (entries d) then -1
                     else int (bucket (dtype d') (ht d' (target_table d')) k)) \<and>
           same_entries d d' \<and> ht_size (ht0 d') \<noteq> 0"
proof -
  have "used (ht0 d) \<le> 2 ^ 30" using used_le_entries [OF inv] room by linarith
  from dictExpandIfNeeded_ok [OF inv this] obtain d' where d':
    "dictExpandIfNeeded can_resize d = Some (d', True)" "same_entries d d'" "ht_size (ht0 d') \<noteq> 0"
    by blast
  then have "dict_inv d'" by (simp add: same_entries_def)
  from key_index_tables_ok [OF this d'(3), of k] d' same_entries_size [OF inv d'(2)]
  show ?thesis by (simp add: dictKeyIndex_def)
qed

lemma target_live: "ht_size (ht0 d) \<noteq> 0 \<Longrightarrow> live_table d (target_table d)"
  by (simp add: live_table_def target_table_def)

lemma insert_entry_ok:
  assumes inv: "dict_inv d" and sz: "ht_size (ht0 d) \<noteq> 0" and new: "k \<notin> de_key ` set (entries d)"
    and t: "t = target_table d" and i: "i = bucket (dtype d) (ht d t) k"
    and e: "e = \<lparr>de_key = k, de_val = None\<rparr>"
  shows "dict_inv (put_chain d t i (e # ht_table (ht d t) ! i) (used (ht d t) + 1))"
    and "mset (entries (put_chain d t i (e # ht_table (ht d t) ! i) (used (ht d t) + 1))) =
         add_mset e (mset (entries d))"
    and "valid_ptr (put_chain d t i (e # ht_table (ht d t) ! i) (used (ht d t) + 1)) k (t, i, 0)"
proof -
  let ?d = "put_chain d t i (e # ht_table (ht d t) ! i) (used (ht d t) + 1)"
  have live: "live_table d t" using target_live [OF sz] t by simp
  note a = live_table_alloc [OF inv live]
  have il: "i < length (ht_table (ht d t))" using bucket_less [OF a] i by simp
  have "mset (entries ?d) + mset (ht_table (ht d t) ! i) =
        add_mset e (mset (entries d)) + mset (ht_table (ht d t) ! i)"
    using mset_put_chain [OF il, of "e # ht_table (ht d t) ! i"] by simp
  then show ms: "mset (entries ?d) = add_mset e (mset (entries d))" by simp
  then have "mset (map de_key (entries ?d)) = mset (k # map de_key (entries d))"
    using e by simp
  then have dist: "distinct (map de_key (entries ?d))"
    using mset_eq_imp_distinct_iff dict_inv_distinct [OF inv] new by fastforce
  show "dict_inv ?d"
  proof (rule dict_inv_put_chain [OF inv live il _ _ dist])
    show "\<forall>e\<in>set (e # ht_table (ht d t) ! i). bucket (dtype d) (ht d t) (de_key e) = i"
      using in_bucket [OF a il] e i by auto
  qed (use t in \<open>auto simp: target_table_def split: if_splits\<close>)
  show "valid_ptr ?d k (t, i, 0)"
    using live il e t by (auto simp: live_table_def put_chain_def set_ht_def ht_def target_table_def
        dictIsRehashing_def split: if_splits)
qed

lemma dictAddRaw_present:
  assumes inv: "dict_inv d" and room: "length (entries d) \<le> 2 ^ 30"
    and "k \<in> de_key ` set (entries d)"
  shows "\<exists>d'. dictAddRaw can_resize d k = Some (d', None) \<and> same_entries d d'"
proof -
  from rehash_if_rehashing_ok [OF inv] obtain d1 where d1:
    "rehash_if_rehashing d = Some d1" "same_entries d d1" by blast
  then have inv1: "dict_inv d1" and len: "length (entries d1) \<le> 2 ^ 30"
    using room by (auto simp: same_entries_def dest: mset_eq_length)
  from dictKeyIndex_ok [OF inv1 len, of can_resize k] assms(3) d1 same_entries_size [OF inv d1(2)]
  show ?thesis by (auto simp: dictAddRaw_def intro: same_entries_trans)
qed

lemma dictAddRaw_absent:
  assumes inv: "dict_inv d" and room: "length (entries d) \<le> 2 ^ 30"
    and new: "k \<notin> de_key ` set (entries d)"
  shows "\<exists>d' p. dictAddRaw can_resize d k = Some (d', Some p) \<and> dict_inv d' \<and>
           mset (entries d') = add_mset \<lparr>de_key = k, de_val = None\<rparr> (mset (entries d)) \<and>
           valid_ptr d' k p \<and> dtype d' = dtype d \<and> iterators d' = iterators d"
proof -
  from rehash_if_rehashing_ok [OF inv] obtain d1 where d1:
    "rehash_if_rehashing d = Some d1" "same_entries d d1" by blast
  then have inv1: "dict_inv d1" and len: "length (entries d1) \<le> 2 ^ 30"
    using room by (auto simp: same_entries_def dest: mset_eq_length)
  have new1: "k \<notin> de_key ` set (entries d1)" using same_entries_size [OF inv d1(2)] new by simp
  from dictKeyIndex_ok [OF inv1 len, of can_resize k] new1 obtain d2 where d2:
    "dictKeyIndex can_resize d1 k = Some (d2, int (bucket (dtype d2) (ht d2 (target_table d2)) k))"
    "same_entries d1 d2" "ht_size (ht0 d2) \<noteq> 0" by auto
  then have inv2: "dict_inv d2" by (simp add: same_entries_def)
  have new2: "k \<notin> de_key ` set (entries d2)" using same_entries_size [OF inv1 d2(2)] new1 by simp
  let ?t = "target_table d2" and ?e = "\<lparr>de_key = k, de_val = None\<rparr> :: ('a, 'b) dictEntry"
  let ?i = "bucket (dtype d2) (ht d2 ?t) k"
  let ?d = "put_chain d2 ?t ?i (?e # ht_table (ht d2 ?t) ! ?i) (used (ht d2 ?t) + 1)"
  note ins = insert_entry_ok [OF inv2 d2(3) new2 refl refl refl]
  have "dictAddRaw can_resize d k = Some (?d, Some (?t, ?i, 0))"
    using d1(1) d2(1) bucket_less [OF live_table_alloc [OF inv2 target_live [OF d2(3)]], of k]
    by (simp add: dictAddRaw_def put_chain_def target_table_def Let_def)
  with ins d1(2) d2(2) show ?thesis
    by (intro exI [of _ ?d] exI [of _ "(?t, ?i, 0)"]) (simp add: same_entries_def)
qed


declare valid_ptr.simps [simp del] split_paired_Ex [simp del]

definition dict_room :: "('k, 'v) dict \<Rightarrow> bool" where
  "dict_room d \<longleftrightarrow> card (dom (dict_map d)) \<le> 2 ^ 30"

lemma dict_room_length: "dict_inv d \<Longrightarrow> dict_room d \<longleftrightarrow> length (entries d) \<le> 2 ^ 30"
  by (simp add: dict_room_def card_dom_dict_map dict_inv_distinct)

lemma in_dom_dict_map: "k \<in> dom (dict_map d) \<longleftrightarrow> k \<in> de_key ` set (entries d)"
  by (simp add: dom_dict_map)

lemma dictAddRaw_ok:
  assumes inv: "dict_inv d" and room: "dict_room d"
  shows "\<exists>d' r. dictAddRaw can_resize d k = Some (d', r) \<and> dict_inv d' \<and>
           dtype d' = dtype d \<and> iterators d' = iterators d \<and>
           (if k \<in> dom (dict_map d) then r = None \<and> dict_map d' = dict_map d
            else dict_map d' = (dict_map d)(k \<mapsto> None) \<and> (\<exists>p. r = Some p \<and> valid_ptr d' k p))"
proof (cases "k \<in> dom (dict_map d)")
  case True
  then have "k \<in> de_key ` set (entries d)" unfolding in_dom_dict_map .
  from dictAddRaw_present [OF inv room [unfolded dict_room_length [OF inv]] this, of can_resize]
  obtain d' where "dictAddRaw can_resize d k = Some (d', None)" "same_entries d d'" by blast
  with True same_entries_map [OF inv, of d'] show ?thesis by (simp add: same_entries_def)
next
  case False
  then have "k \<notin> de_key ` set (entries d)" unfolding in_dom_dict_map .
  from dictAddRaw_absent [OF inv room [unfolded dict_room_length [OF inv]] this, of can_resize]
  obtain d' p where d': "dictAddRaw can_resize d k = Some (d', Some p)" "dict_inv d'"
    "mset (entries d') = add_mset \<lparr>de_key = k, de_val = None\<rparr> (mset (entries d))"
    "valid_ptr d' k p" "dtype d' = dtype d" "iterators d' = iterators d" by blast
  have "dict_map d' = (dict_map d)(k \<mapsto> None)"
    using dict_map_add [OF d'(3) dict_inv_distinct [OF d'(2)]] by simp
  with False d' show ?thesis by auto
qed

lemma dictAdd_ok:
  assumes inv: "dict_inv d" and room: "dict_room d"
  shows "\<exists>d'. dictAdd can_resize d k v = Some (d', k \<notin> dom (dict_map d)) \<and> dict_inv d' \<and>
           dict_map d' = (if k \<in> dom (dict_map d) then dict_map d else (dict_map d)(k \<mapsto> Some v)) \<and>
           dtype d' = dtype d \<and> iterators d' = iterators d"
proof -
  from dictAddRaw_ok [OF inv room, of can_resize k] obtain d1 r where r:
    "dictAddRaw can_resize d k = Some (d1, r)" "dict_inv d1" "dtype d1 = dtype d"
    "iterators d1 = iterators d"
    "if k \<in> dom (dict_map d) then r = None \<and> dict_map d1 = dict_map d
     else dict_map d1 = (dict_map d)(k \<mapsto> None) \<and> (\<exists>p. r = Some p \<and> valid_ptr d1 k p)" by blast
  show ?thesis
  proof (cases "k \<in> dom (dict_map d)")
    case True
    with r show ?thesis by (auto simp: dictAdd_def)
  next
    case False
    with r obtain p where p: "r = Some p" "valid_ptr d1 k p" "dict_map d1 = (dict_map d)(k \<mapsto> None)"
      by auto
    from dictSetVal_ok [OF r(2) p(2), of v] p False r show ?thesis by (auto simp: dictAdd_def)
  qed
qed

lemma dictFind_map:
  assumes inv: "dict_inv d"
  shows "\<exists>d' r. dictFind d k = Some (d', r) \<and> dict_inv d' \<and> dict_map d' = dict_map d \<and>
           dtype d' = dtype d \<and> iterators d' = iterators d \<and>
           (if k \<in> dom (dict_map d) then \<exists>p. r = Some p \<and> valid_ptr d' k p else r = None)"
proof -
  from dictFind_ok [OF inv, of k] obtain d' r where f: "dictFind d k = Some (d', r)"
    "same_entries d d'"
    "case r of None \<Rightarrow> k \<notin> de_key ` set (entries d) | Some p \<Rightarrow> valid_ptr d' k p" by blast
  have m: "dict_map d' = dict_map d" by (rule same_entries_map [OF inv f(2)])
  have "if k \<in> dom (dict_map d) then \<exists>p. r = Some p \<and> valid_ptr d' k p else r = None"
  proof (cases r)
    case None
    with f(3) show ?thesis unfolding in_dom_dict_map by simp
  next
    case (Some p)
    with f(2,3) have "dict_inv d'" "valid_ptr d' k p" by (auto simp: same_entries_def)
    from valid_ptr_entry [OF this] Some m \<open>valid_ptr d' k p\<close> show ?thesis by auto
  qed
  with f m show ?thesis by (auto simp: same_entries_def)
qed

lemma dictReplace_ok:
  assumes inv: "dict_inv d" and room: "dict_room d"
  shows "\<exists>d'. dictReplace can_resize d k v = Some (d', k \<notin> dom (dict_map d)) \<and> dict_inv d' \<and>
           dict_map d' = (dict_map d)(k \<mapsto> Some v) \<and> dtype d' = dtype d \<and> iterators d' = iterators d"
proof -
  from dictAdd_ok [OF inv room, of can_resize k v] obtain d1 where a:
    "dictAdd can_resize d k v = Some (d1, k \<notin> dom (dict_map d))" "dict_inv d1"
    "dict_map d1 = (if k \<in> dom (dict_map d) then dict_map d else (dict_map d)(k \<mapsto> Some v))"
    "dtype d1 = dtype d" "iterators d1 = iterators d" by blast
  show ?thesis
  proof (cases "k \<in> dom (dict_map d)")
    case False
    with a show ?thesis by (auto simp: dictReplace_def)
  next
    case True
    with a have m1: "dict_map d1 = dict_map d" by simp
    from dictFind_map [OF a(2), of k] True m1 obtain d2 p where f: "dictFind d1 k = Some (d2, Some p)"
      "dict_inv d2" "dict_map d2 = dict_map d" "dtype d2 = dtype d1" "iterators d2 = iterators d1"
      "valid_ptr d2 k p" by auto
    from dictSetVal_ok [OF f(2,6), of v] f a True show ?thesis by (auto simp: dictReplace_def)
  qed
qed

lemma dictReplaceRaw_ok:
  assumes inv: "dict_inv d" and room: "dict_room d"
  shows "\<exists>d' p. dictReplaceRaw can_resize d k = Some (d', Some p) \<and> dict_inv d' \<and> valid_ptr d' k p \<and>
           dtype d' = dtype d \<and> iterators d' = iterators d \<and>
           dict_map d' = (if k \<in> dom (dict_map d) then dict_map d else (dict_map d)(k \<mapsto> None))"
proof -
  from dictFind_map [OF inv, of k] obtain d1 r where f: "dictFind d k = Some (d1, r)" "dict_inv d1"
    "dict_map d1 = dict_map d" "dtype d1 = dtype d" "iterators d1 = iterators d"
    "if k \<in> dom (dict_map d) then \<exists>p. r = Some p \<and> valid_ptr d1 k p else r = None" by blast
  show ?thesis
  proof (cases "k \<in> dom (dict_map d)")
    case True
    with f show ?thesis by (auto simp: dictReplaceRaw_def)
  next
    case False
    have "dict_room d1" using room f(3) by (simp add: dict_room_def)
    from dictAddRaw_ok [OF f(2) this, of can_resize k] False f show ?thesis
      by (auto simp: dictReplaceRaw_def)
  qed
qed

section \<open>Deletion\<close>

lemma unlink_ok:
  assumes inv: "dict_inv d" and live: "live_table d t" and i: "i = bucket (dtype d) (ht d t) k"
    and un: "chain_unlink (=) k (ht_table (ht d t) ! i) = Some rest"
  shows "dict_inv (put_chain d t i rest (used (ht d t) - 1)) \<and>
         dict_map (put_chain d t i rest (used (ht d t) - 1)) = (dict_map d)(k := None) \<and>
         k \<in> dom (dict_map d)"
proof -
  let ?d = "put_chain d t i rest (used (ht d t) - 1)" and ?c = "ht_table (ht d t) ! i"
  note a = live_table_alloc [OF inv live]
  have il: "i < length (ht_table (ht d t))" using bucket_less [OF a] i by simp
  from chain_unlink_Some [OF un] obtain e where e: "de_key e = k" "mset ?c = add_mset e (mset rest)"
    by blast
  then have len: "length ?c = Suc (length rest)" by (metis size_add_mset size_mset)
  have "mset (entries ?d) + add_mset e (mset rest) = mset (entries d) + mset rest"
    using mset_put_chain [OF il, of rest] e(2) by simp
  then have ms: "mset (entries d) = add_mset e (mset (entries ?d))" by simp
  then have "mset (map de_key (entries d)) = mset (k # map de_key (entries ?d))" using e(1) by simp
  then have dist: "distinct (map de_key (entries ?d))"
    using dict_inv_distinct [OF inv] by (metis distinct.simps(2) mset_eq_imp_distinct_iff)
  have "dict_inv ?d"
  proof (rule dict_inv_put_chain [OF inv live il _ _ dist])
    have "set rest \<subseteq> set ?c" using e(2) by (metis set_mset_add_mset_insert set_mset_mset subset_insertI)
    then show "\<forall>e\<in>set rest. bucket (dtype d) (ht d t) (de_key e) = i"
      using in_bucket [OF a il] by blast
    show "used (ht d t) - 1 + length ?c = used (ht d t) + length rest"
      using len nth_le_concat [OF il] ht_alloc_used [OF a] by linarith
    show "t = 0 \<Longrightarrow> ht_table (ht0 d) ! i = [] \<Longrightarrow> rest = []"
      using len by (simp add: ht_def)
  qed
  moreover have "k \<in> dom (dict_map d)"
    unfolding in_dom_dict_map using ms e(1) by (metis image_eqI union_single_eq_member add_mset_add_single set_mset_mset)
  ultimately show ?thesis using dict_map_del [OF ms dict_inv_distinct [OF inv]] e(1) by simp
qed


lemma delete_tables_ok:
  assumes inv: "dict_inv d" and sz: "ht_size (ht0 d) \<noteq> 0"
  shows "\<exists>d'. delete_tables d k [0, 1] = Some (d', k \<in> dom (dict_map d)) \<and> dict_inv d' \<and>
           dict_map d' = (dict_map d)(k := None) \<and> dtype d' = dtype d \<and> iterators d' = iterators d"
proof -
  note l0 = live_table_0 [OF sz]
  note a0 = live_table_alloc [OF inv l0]
  have cmp: "keyCompare (dtype d) = (=)" using inv by (simp add: dict_inv_def)
  show ?thesis
  proof (cases "chain_unlink (=) k (ht_table (ht d 0) ! bucket (dtype d) (ht d 0) k)")
    case (Some rest)
    from unlink_ok [OF inv l0 refl Some] Some bucket_less [OF a0, of k] show ?thesis
      by (auto simp: hash_index cmp Let_def put_chain_def [symmetric])
  next
    case None
    then have n0: "k \<notin> de_key ` set (concat (ht_table (ht d 0)))"
      unfolding chain_unlink_None key_in_table [OF a0] .
    show ?thesis
    proof (cases "dictIsRehashing d")
      case False
      from n0 have "k \<notin> dom (dict_map d)"
        unfolding in_dom_dict_map keys_not_rehashing [OF inv False] .
      with False None inv bucket_less [OF a0, of k] show ?thesis
        by (auto simp: hash_index cmp Let_def fun_upd_idem domIff)
    next
      case True
      note l1 = live_table_1 [OF True]
      note a1 = live_table_alloc [OF inv l1]
      show ?thesis
      proof (cases "chain_unlink (=) k (ht_table (ht d 1) ! bucket (dtype d) (ht d 1) k)")
        case (Some rest)
        from unlink_ok [OF inv l1 refl Some] Some None True bucket_less [OF a0, of k]
          bucket_less [OF a1, of k] show ?thesis
          by (auto simp: hash_index cmp Let_def put_chain_def [symmetric])
      next
        case none1: None
        then have "k \<notin> de_key ` set (concat (ht_table (ht d 1)))"
          unfolding chain_unlink_None key_in_table [OF a1] .
        with n0 have "k \<notin> dom (dict_map d)" unfolding in_dom_dict_map keys_two_tables by blast
        with True None none1 inv bucket_less [OF a0, of k] bucket_less [OF a1, of k] show ?thesis
          by (auto simp: hash_index cmp Let_def fun_upd_idem domIff)
      qed
    qed
  qed
qed

lemma dictGenericDelete_ok:
  assumes inv: "dict_inv d"
  shows "\<exists>d'. dictGenericDelete d k = Some (d', k \<in> dom (dict_map d)) \<and> dict_inv d' \<and>
           dict_map d' = (dict_map d)(k := None) \<and> dtype d' = dtype d \<and> iterators d' = iterators d"
proof (cases "ht_size (ht0 d) = 0")
  case True
  with inv reset_entries [OF inv True] show ?thesis
    by (auto simp: dictGenericDelete_def dict_map_def)
next
  case False
  from rehash_if_rehashing_ok [OF inv] obtain d1 where d1:
    "rehash_if_rehashing d = Some d1" "same_entries d d1" by blast
  then have inv1: "dict_inv d1" and sz: "ht_size (ht0 d1) \<noteq> 0"
    using False by (auto simp: same_entries_def)
  from delete_tables_ok [OF inv1 sz, of k] d1 False same_entries_map [OF inv d1(2)] show ?thesis
    by (auto simp: dictGenericDelete_def same_entries_def)
qed

lemma clear_chain_eq: "clear_chain c freed u = (freed @ c, u - length c)"
  by (induction c arbitrary: freed u) auto

lemma clear_loop_eq: "u = length (concat cs) \<Longrightarrow> clear_loop cs freed u = (freed @ concat cs, 0)"
proof (induction cs arbitrary: freed u)
  case (Cons c cs)
  then show ?case
    by (cases "0 < u") (simp_all add: clear_chain_eq)
qed simp

lemma dictEmpty_ok:
  assumes inv: "dict_inv d"
  shows "\<exists>d'. dictEmpty d = (d', entries d) \<and> dict_inv d' \<and> dict_map d' = Map.empty \<and>
           dictSize d' = 0 \<and> dtype d' = dtype d"
proof -
  have "used (ht0 d) = length (concat (ht_table (ht0 d)))"
    "used (ht1 d) = length (concat (ht_table (ht1 d)))"
    using inv by (auto simp: dict_inv_def rehash_inv_def ht_alloc_used dictReset_def split: if_splits)
  with inv show ?thesis
    by (auto simp: dictEmpty_def dictClear_def clear_loop_eq entries_def dict_inv_def dict_map_def
        dictSize_def dictReset_def dictIsRehashing_def)
qed

lemma dictCreate_ok: "keyCompare T = (=) \<Longrightarrow> dict_inv (dictCreate T) \<and> dict_map (dictCreate T) = Map.empty"
  by (simp add: dictCreate_def dict_inv_def dict_map_def dictIsRehashing_def entries_def dictReset_def)

section \<open>Completion of a rehash\<close>

definition rehash_left :: "('k, 'v) dict \<Rightarrow> nat" where
  "rehash_left d = (if dictIsRehashing d then Suc (nat (int (ht_size (ht0 d)) - rehashidx d)) else 0)"

lemma dictRehash_progress:
  assumes inv: "dict_inv d" and n: "n \<noteq> 0" and small: "n * 10 < 2 ^ 31"
  shows "\<exists>d' more. dictRehash d n = Some (d', more) \<and> same_entries d d' \<and> more = dictIsRehashing d' \<and>
           (more \<longrightarrow> rehash_left d' < rehash_left d)"
proof -
  from dictRehash_ok [OF inv small] obtain d' more where r: "dictRehash d n = Some (d', more)"
    "same_entries d d'" "more = dictIsRehashing d'"
    "dictIsRehashing d \<and> n \<noteq> 0 \<and> more \<longrightarrow> rehashidx d < rehashidx d' \<and> ht_size (ht0 d') = ht_size (ht0 d)"
    by blast
  have "rehash_left d' < rehash_left d" if more
  proof -
    have "dictIsRehashing d" using r(1) that small by (auto simp: dictRehash_def split: if_splits)
    with r that n have "rehashidx d < rehashidx d'" "ht_size (ht0 d') = ht_size (ht0 d)"
      "rehash_inv d'" by (auto simp: same_entries_def dict_inv_def)
    with r(3) that \<open>dictIsRehashing d\<close> show ?thesis by (simp add: rehash_left_def rehash_inv_def)
  qed
  with r show ?thesis by blast
qed

lemma rehash_ms_loop_ok:
  assumes "dict_inv d"
  shows "\<exists>d' r. rehash_ms_loop clock i start ms d n = Some (d', r) \<and> same_entries d d' \<and> n \<le> r"
  using assms
proof (induction "rehash_left d" arbitrary: d i n rule: less_induct)
  case less
  from dictRehash_progress [OF less.prems, of 100] obtain d1 more where d1:
    "dictRehash d 100 = Some (d1, more)" "same_entries d d1"
    "more \<longrightarrow> rehash_left d1 < rehash_left d" by auto
  then have inv1: "dict_inv d1" by (simp add: same_entries_def)
  show ?case
  proof (cases "more \<and> \<not> ms < clock i - start")
    case False
    with d1 show ?thesis by (subst rehash_ms_loop.simps) auto
  next
    case True
    with d1 have "rehash_left d1 < rehash_left d" by simp
    from less.hyps [OF this inv1, of "Suc i" "n + 100"] obtain d' r where
      "rehash_ms_loop clock (Suc i) start ms d1 (n + 100) = Some (d', r)" "same_entries d1 d'" "n + 100 \<le> r"
      by blast
    with d1 True same_entries_trans show ?thesis by (subst rehash_ms_loop.simps) fastforce
  qed
qed

declare split_paired_Ex [simp]

section \<open>The key/value interface\<close>

text \<open>Tables in which every value has been set, as after any sequence of whole operations.\<close>

definition dict_full :: "('k, 'v) dict \<Rightarrow> bool" where
  "dict_full d \<longleftrightarrow> dict_inv d \<and> None \<notin> ran (dict_map d)"

definition dict_abs :: "('k, 'v) dict \<Rightarrow> 'k \<rightharpoonup> 'v" where
  "dict_abs d k = Option.bind (dict_map d k) id"

lemma dict_abs_None: "dict_full d \<Longrightarrow> dict_abs d k = None \<longleftrightarrow> k \<notin> dom (dict_map d)"
  by (cases "dict_map d k") (auto simp: dict_full_def dict_abs_def ran_def)

lemma dom_dict_abs: "dict_full d \<Longrightarrow> dom (dict_abs d) = dom (dict_map d)"
  unfolding set_eq_iff domIff [of _ "dict_abs d"] by (simp add: dict_abs_None)

lemma dict_full_same:
  "dict_full d \<Longrightarrow> same_entries d d' \<Longrightarrow> dict_full d' \<and> dict_abs d' = dict_abs d"
  using same_entries_map [of d d'] by (auto simp: dict_full_def same_entries_def dict_abs_def)

lemma dict_full_put:
  "dict_full d \<Longrightarrow> dict_inv d' \<Longrightarrow> dict_map d' = (dict_map d)(k \<mapsto> Some v) \<Longrightarrow>
   dict_full d' \<and> dict_abs d' = (dict_abs d)(k \<mapsto> v)"
  by (auto simp: dict_full_def dict_abs_def fun_eq_iff ran_def split: if_splits)

lemma dict_full_del:
  "dict_full d \<Longrightarrow> dict_inv d' \<Longrightarrow> dict_map d' = (dict_map d)(k := None) \<Longrightarrow>
   dict_full d' \<and> dict_abs d' = (dict_abs d)(k := None)"
  by (auto simp: dict_full_def dict_abs_def fun_eq_iff ran_def split: if_splits)

interpretation dict_kv: kv_map dict_full dict_abs "2 ^ 30" dictFetchValue "dictReplace can_resize" dictGenericDelete
  for can_resize :: bool
proof
  fix d :: "('k, 'v) dict" and k and v
  assume full: "dict_full d"
  then have inv: "dict_inv d" by (simp add: dict_full_def)
  note dom = dom_dict_abs [OF full] and none = dict_abs_None [OF full]
  show "finite (dom (dict_abs d))" unfolding dom dom_dict_map by simp
  from dictFetchValue_ok [OF inv, of k] obtain d1 where
    "dictFetchValue d k = Some (d1, dict_abs d k)" "same_entries d d1"
    unfolding dict_abs_def by blast
  with dict_full_same [OF full] show "\<exists>d'. dictFetchValue d k = Some (d', dict_abs d k) \<and>
      dict_full d' \<and> dict_abs d' = dict_abs d" by blast
  from dictGenericDelete_ok [OF inv, of k] obtain d2 where
    "dictGenericDelete d k = Some (d2, dict_abs d k \<noteq> None)" "dict_inv d2"
    "dict_map d2 = (dict_map d)(k := None)" unfolding none not_not by blast
  with dict_full_del [OF full] show "\<exists>d'. dictGenericDelete d k = Some (d', dict_abs d k \<noteq> None) \<and>
      dict_full d' \<and> dict_abs d' = (dict_abs d)(k := None)" by blast
  assume "card (dom (dict_abs d)) \<le> 2 ^ 30"
  then have "dict_room d" unfolding dom dict_room_def .
  from dictReplace_ok [OF inv this, of can_resize k v] obtain d3 where
    "dictReplace can_resize d k v = Some (d3, dict_abs d k = None)" "dict_inv d3"
    "dict_map d3 = (dict_map d)(k \<mapsto> Some v)" unfolding none by blast
  with dict_full_put [OF full] show "\<exists>d'. dictReplace can_resize d k v = Some (d', dict_abs d k = None) \<and>
      dict_full d' \<and> dict_abs d' = (dict_abs d)(k \<mapsto> v)" by blast
qed

lemma dictSize_create: "dictSize (dictCreate T) = 0"
  by (simp add: dictSize_def dictCreate_def dictReset_def)

section \<open>Properties of the hash table\<close>

text \<open>
  C1.  The hash table is a finite map.  Any sequence of at most \<open>2 ^ 30\<close> lookups, insert-or-replace
  operations and deletions that starts from a fresh table runs without an out-of-bounds access or a
  failed assertion, returns exactly the replies of the same sequence on a finite map, and leaves a
  well-formed table that stands for the final map, whatever the hash function (collisions, table
  growth and incremental rehashing included).
\<close>

theorem dict_refines_map:
  fixes cs :: "('k, 'v) kv_op list"
  assumes "keyCompare T = (=)" and "length cs \<le> 2 ^ 30"
  shows "\<exists>d'. kv_run dictFetchValue (dictReplace can_resize) dictGenericDelete (dictCreate T) cs =
               Some (d', snd (kv_spec_run Map.empty cs)) \<and>
             dict_full d' \<and> dict_abs d' = fst (kv_spec_run Map.empty cs)"
proof -
  let ?d = "dictCreate T :: ('k, 'v) dict"
  have c: "dict_full ?d" "dict_abs ?d = Map.empty"
    by (auto simp: dict_full_def dict_abs_def dictCreate_ok [OF assms(1)])
  have "card (dom (dict_abs ?d)) + length cs \<le> Suc (2 ^ 30)" using assms(2) c(2) by simp
  from dict_kv.run_refines [OF c(1) this, of can_resize] show ?thesis unfolding c(2) .
qed

theorem dict_refines_map_witness:
  "\<exists>d'. kv_run dictFetchValue (dictReplace True) dictGenericDelete
          (dictCreate \<lparr>hashFunction = \<lambda>_. 7, keyCompare = (=)\<rparr>)
          [KvPut 1 10, KvPut 2 20, KvPut 1 11, KvDel 2, KvGet 2, KvGet (1::nat)] =
        Some (d', [Flag True, Flag True, Flag False, Flag True, Value None, Value (Some (11::nat))]) \<and>
        dict_full d' \<and> dict_abs d' = [1 \<mapsto> 11]"
  using dict_refines_map [of "\<lparr>hashFunction = \<lambda>_. 7, keyCompare = (=)\<rparr>"
      "[KvPut 1 10, KvPut 2 20, KvPut 1 11, KvDel 2, KvGet 2, KvGet (1::nat)]" True]
  by (simp add: fun_upd_twist)

text \<open>
  C9.  Adding a key: \<^verbatim>\<open>dictAdd\<close> fails exactly when the key is present, and then leaves the map
  as it was; otherwise it binds the key to the value.  It never changes another binding, although it may
  rehash, expand the table or start a rehash.
\<close>

theorem dictAdd_correct:
  assumes "dict_inv d" and "dict_room d"
  shows "\<exists>d'. dictAdd can_resize d k v = Some (d', k \<notin> dom (dict_map d)) \<and> dict_inv d' \<and>
           dict_map d' = (if k \<in> dom (dict_map d) then dict_map d else (dict_map d)(k \<mapsto> Some v))"
  using dictAdd_ok [OF assms, of can_resize k v] by blast

theorem dictAdd_correct_witness:
  "\<exists>d'. dictAdd False (dictCreate \<lparr>hashFunction = \<lambda>_. 7, keyCompare = (=)\<rparr>) (3::nat) (30::nat) =
          Some (d', True) \<and> dict_inv d' \<and> dict_map d' = [3 \<mapsto> Some 30]"
  using dictAdd_correct [of "dictCreate \<lparr>hashFunction = \<lambda>_. 7, keyCompare = (=)\<rparr>" False "3::nat" "30::nat"]
  by (simp add: dict_room_def dictCreate_ok)

text \<open>
  C10.  Rehashing for a time slice always returns, whatever the clock does: it keeps the invariant and
  every binding, and it never trips the assertion that the rehash index stays inside the old table.
\<close>

theorem dictRehashMilliseconds_ok:
  assumes "dict_inv d"
  shows "\<exists>d' n. dictRehashMilliseconds clock d ms = Some (d', n) \<and> dict_inv d' \<and>
           dict_map d' = dict_map d \<and> dictSize d' = dictSize d"
proof -
  from rehash_ms_loop_ok [OF assms, of clock 1 "clock 0" ms 0] obtain d' n where
    r: "rehash_ms_loop clock 1 (clock 0) ms d 0 = Some (d', n)" and s: "same_entries d d'" by blast
  then have "dictSize d' = dictSize d"
    using assms by (simp add: same_entries_def dictSize_entries) (metis mset_eq_length)
  then show ?thesis
    using r s same_entries_map [OF assms s]
    by (auto simp: dictRehashMilliseconds_def same_entries_def)
qed

theorem dictRehashMilliseconds_ok_witness:
  "\<exists>d' n. dictRehashMilliseconds int (dictCreate \<lparr>hashFunction = \<lambda>_. 7, keyCompare = (=)\<rparr> :: (nat, nat) dict) 1 =
        Some (d', n) \<and> dict_inv d' \<and> dict_map d' = Map.empty \<and> dictSize d' = 0"
  using dictRehashMilliseconds_ok [of "dictCreate \<lparr>hashFunction = \<lambda>_. 7, keyCompare = (=)\<rparr> :: (nat, nat) dict" int 1]
  by (simp add: dictCreate_ok dictSize_create)

text \<open>
  C40. Table sizes: for any request below \<^verbatim>\<open>LONG_MAX\<close> the size computation terminates without
  wrapping and returns the least power of two that is at least 4 and at least the request.
\<close>

theorem dictNextPower_least:
  assumes "sz < LONG_MAX"
  shows "\<exists>c. dictNextPower sz = Some (2 ^ c) \<and> 2 \<le> c \<and> c \<le> 63 \<and> sz \<le> 2 ^ c \<and>
           (\<forall>b. 2 \<le> b \<and> sz \<le> 2 ^ b \<longrightarrow> c \<le> b)"
proof -
  from dictNextPower_ok [OF assms] obtain c where c: "dictNextPower sz = Some (2 ^ c)" "2 \<le> c"
    "c \<le> 63" "sz \<le> 2 ^ c" "c = 2 \<or> 2 ^ (c - 1) < sz" by blast
  have "c \<le> b" if b: "2 \<le> b" "sz \<le> 2 ^ b" for b
  proof (rule ccontr)
    assume "\<not> c \<le> b"
    then have "b \<le> c - 1" "c \<noteq> 2" using b(1) by auto
    with c(5) have "2 ^ (c - 1) < sz" by simp
    moreover have "(2::nat) ^ b \<le> 2 ^ (c - 1)" using \<open>b \<le> c - 1\<close> by (intro power_increasing) auto
    ultimately show False using b(2) by linarith
  qed
  with c show ?thesis by blast
qed

theorem dictNextPower_least_witness:
  "\<exists>c. dictNextPower 5 = Some (2 ^ c) \<and> 2 \<le> c \<and> c \<le> 63 \<and> 5 \<le> (2::nat) ^ c \<and>
       (\<forall>b. 2 \<le> b \<and> 5 \<le> (2::nat) ^ b \<longrightarrow> c \<le> b)"
  by (rule dictNextPower_least) (simp add: LONG_MAX_def)

end
