(* ===== verification/Dict_Scan.thy ===== *)
theory Dict_Scan
  imports Dict_Correct
begin

text \<open>
  The stateless cursor iteration of \<^verbatim>\<open>dictScan\<close> (\<^verbatim>\<open>redis/redis/src/dict.c\<close>).  The
  callback may do anything, so a step returns the entries handed to it, in order.  The proof orders
  cursors by their reversed bits: a step visits every bucket between the old and the new cursor in that
  order, which does not depend on the table size.
\<close>

section \<open>The reversed cursor\<close>

fun rev_loop :: "nat \<Rightarrow> u64 \<Rightarrow> u64 \<Rightarrow> u64" where
  "rev_loop s mk v =
     (let s = s div 2
      in if 0 < s
         then let mk = mk XOR push_bit s mk;
                  v = (drop_bit s v AND mk) OR (push_bit s v AND NOT mk)
              in rev_loop s mk v
         else v)"

declare rev_loop.simps [simp del]

definition rev_ul :: "u64 \<Rightarrow> u64" where
  "rev_ul v = rev_loop 64 (NOT 0) v"

section \<open>One scan step\<close>

definition mask_word :: "('k, 'v) dictht \<Rightarrow> u64" where
  "mask_word h = word_of_nat (sizemask h)"

partial_function (option) scan_expand ::
  "('k, 'v) dictEntry list list \<Rightarrow> u64 \<Rightarrow> u64 \<Rightarrow> u64 \<Rightarrow> ('k, 'v) dictEntry list \<Rightarrow>
   (u64 \<times> ('k, 'v) dictEntry list) option" where
  "scan_expand tb m0 m1 v out =
     Option.bind (nth_opt tb (unat (v AND m1))) (\<lambda>de.
       let v' = (((v OR m0) + 1) AND NOT m0) OR (v AND m0)
       in if v' AND (m0 XOR m1) \<noteq> 0 then scan_expand tb m0 m1 v' (out @ de)
          else Some (v', out @ de))"

declare scan_expand.simps [code]

definition next_cursor :: "u64 \<Rightarrow> u64 \<Rightarrow> u64" where
  "next_cursor m0 v = rev_ul (rev_ul (v OR NOT m0) + 1)"

definition dictScan ::
  "('k, 'v) dict \<Rightarrow> u64 \<Rightarrow> (u64 \<times> ('k, 'v) dictEntry list) option" where
  "dictScan d v =
     (if dictSize d = 0 then Some (0, [])
      else if \<not> dictIsRehashing d then do {
        let m0 = mask_word (ht0 d);
        de \<leftarrow> nth_opt (ht_table (ht0 d)) (unat (v AND m0));
        Some (next_cursor m0 v, de)
      } else do {
        let (t0, t1) = (if ht_size (ht1 d) < ht_size (ht0 d) then (ht1 d, ht0 d) else (ht0 d, ht1 d));
        let m0 = mask_word t0;
        let m1 = mask_word t1;
        de \<leftarrow> nth_opt (ht_table t0) (unat (v AND m0));
        (v, out) \<leftarrow> scan_expand (ht_table t1) m0 m1 v de;
        Some (next_cursor m0 v, out)
      })"

fun scan_run ::
  "('k, 'v) dict list \<Rightarrow> u64 \<Rightarrow> (u64 \<times> ('k, 'v) dictEntry list) option" where
  "scan_run [] v = Some (v, [])"
| "scan_run (d # ds) v = do {
     (v, out) \<leftarrow> dictScan d v;
     (v, outs) \<leftarrow> scan_run ds v;
     Some (v, out @ outs)
   }"

section \<open>Bit reversal\<close>

definition swap_step :: "nat \<Rightarrow> u64 \<Rightarrow> u64 \<Rightarrow> u64" where
  "swap_step s mk v = (drop_bit s v AND mk) OR (push_bit s v AND NOT mk)"

lemma rev_loop_step:
  "rev_loop s mk v =
     (if 0 < s div 2
      then rev_loop (s div 2) (mk XOR push_bit (s div 2) mk)
             (swap_step (s div 2) (mk XOR push_bit (s div 2) mk) v)
      else v)"
  by (subst rev_loop.simps) (simp add: Let_def swap_step_def)

lemma rev_ul_steps:
  "rev_ul v = swap_step 1 0x5555555555555555 (swap_step 2 0x3333333333333333
     (swap_step 4 0x0F0F0F0F0F0F0F0F (swap_step 8 0x00FF00FF00FF00FF
     (swap_step 16 0x0000FFFF0000FFFF (swap_step 32 0x00000000FFFFFFFF v)))))"
  by (simp add: rev_ul_def rev_loop_step mask_eq_exp_minus_1)

lemma swap_step_bit:
  "i < 64 \<Longrightarrow> bit (swap_step s mk v) i = (if bit mk i then bit v (i + s) else s \<le> i \<and> bit v (i - s))"
  by (auto simp: swap_step_def bit_simps add.commute)

lemma list_all_upt: "list_all P [0..<64] \<Longrightarrow> i < 64 \<Longrightarrow> P i"
  by (simp add: list_all_iff)

text \<open>Each step exchanges neighbouring blocks of \<open>s\<close> bits, which moves bit \<open>i\<close> to \<open>flip s i\<close>.\<close>

definition flip :: "nat \<Rightarrow> nat \<Rightarrow> nat" where
  "flip s i = (if even (i div s) then i + s else i - s)"

lemma swap_step_flip:
  assumes "list_all (\<lambda>i. bit mk i = even (i div s)) [0..<64]" and "i < 64"
  shows "bit (swap_step s mk v) i = bit v (flip s i)"
proof -
  have "bit mk i = even (i div s)" using list_all_upt [OF assms] .
  moreover have "s \<le> i" if "odd (i div s)"
    using that by (metis div_less even_zero not_le)
  ultimately show ?thesis using swap_step_bit [OF assms(2), of s mk v] by (auto simp: flip_def)
qed

lemma flip_less: "list_all (\<lambda>s. list_all (\<lambda>i. flip s i < 64) [0..<64]) [1, 2, 4, 8, 16, 32]"
  by code_simp

lemma flip_chain:
  "map (flip 32) (map (flip 16) (map (flip 8) (map (flip 4) (map (flip 2) (map (flip 1) [0..<64]))))) =
   map ((-) 63) [0..<64]"
  by code_simp

lemma rev_ul_bit: "i < 64 \<Longrightarrow> bit (rev_ul v) i = bit v (63 - i)"
proof -
  assume i: "i < 64"
  have b: "flip s j < 64" if "s \<in> set [1, 2, 4, 8, 16, 32]" "j < 64" for s j
    using flip_less that by (auto simp: list_all_iff)
  have m: "list_all (\<lambda>i. bit (0x5555555555555555 :: u64) i = even (i div 1)) [0..<64]"
    "list_all (\<lambda>i. bit (0x3333333333333333 :: u64) i = even (i div 2)) [0..<64]"
    "list_all (\<lambda>i. bit (0x0F0F0F0F0F0F0F0F :: u64) i = even (i div 4)) [0..<64]"
    "list_all (\<lambda>i. bit (0x00FF00FF00FF00FF :: u64) i = even (i div 8)) [0..<64]"
    "list_all (\<lambda>i. bit (0x0000FFFF0000FFFF :: u64) i = even (i div 16)) [0..<64]"
    "list_all (\<lambda>i. bit (0x00000000FFFFFFFF :: u64) i = even (i div 32)) [0..<64]"
    by code_simp+
  have "bit (rev_ul v) i = bit v (flip 32 (flip 16 (flip 8 (flip 4 (flip 2 (flip 1 i))))))"
    unfolding rev_ul_steps
    by (simp only: m [THEN swap_step_flip] i b list.set insert_iff simp_thms)
  moreover have "flip 32 (flip 16 (flip 8 (flip 4 (flip 2 (flip 1 i))))) = 63 - i"
    using arg_cong [OF flip_chain, of "\<lambda>xs. xs ! i"] i by simp
  ultimately show ?thesis by simp
qed

lemma rev_ul_involution [simp]: "rev_ul (rev_ul v) = v"
  by (rule bit_word_eqI) (simp add: rev_ul_bit)

lemma rev_ul_0 [simp]: "rev_ul 0 = 0"
  by (rule bit_word_eqI) (simp add: rev_ul_bit)

lemma rev_ul_eq_0 [simp]: "rev_ul v = 0 \<longleftrightarrow> v = 0"
  by (metis rev_ul_0 rev_ul_involution)

section \<open>Cursor arithmetic\<close>

lemma mask_step:
  fixes v :: u64
  shows "(((v OR mask k) + 1) AND NOT (mask k)) OR (v AND mask k) = v + 2 ^ k"
proof -
  let ?h = "push_bit k (drop_bit k v)"
  have h: "v AND NOT (mask k) = ?h" by (rule bit_word_eqI) (auto simp: bit_simps)
  have "v OR mask k = ?h OR mask k" by (rule bit_word_eqI) (auto simp: bit_simps)
  also have "\<dots> = ?h + mask k"
    by (rule disjunctive_add_eq_or [symmetric]) (rule bit_word_eqI, auto simp: bit_simps)
  finally have "(v OR mask k) + 1 = push_bit k (drop_bit k v + 1)"
    by (simp add: mask_eq_exp_minus_1 push_bit_add)
  then have "((v OR mask k) + 1) AND NOT (mask k) = push_bit k (drop_bit k v + 1)"
    by simp (rule bit_word_eqI, auto simp: bit_simps)
  moreover have "push_bit k (drop_bit k v + 1) OR (v AND mask k) = push_bit k (drop_bit k v + 1) + (v AND mask k)"
    by (rule disjunctive_add_eq_or [symmetric]) (rule bit_word_eqI, auto simp: bit_simps)
  moreover have "?h + take_bit k v = v" by (rule bits_ident)
  ultimately show ?thesis
    by (simp add: push_bit_add take_bit_eq_mask algebra_simps)
qed

lemma unat_take_bit_mod: "unat (take_bit k (v::u64)) = unat v mod 2 ^ k"
  unfolding unsigned_take_bit_eq by (simp only: take_bit_eq_mod)

lemma xor_zero_iff: "(a::u64) XOR b = 0 \<longleftrightarrow> a = b"
  by (simp add: bit_eq_iff bit_xor_iff)

lemma mid_bits_zero:
  fixes v :: u64
  assumes "k0 \<le> k1"
  shows "v AND (mask k0 XOR mask k1) = 0 \<longleftrightarrow> unat v mod 2 ^ k1 = unat v mod 2 ^ k0"
proof -
  have "v AND (mask k0 XOR mask k1) = take_bit k1 v XOR take_bit k0 v"
    by (rule bit_word_eqI) (use assms in \<open>auto simp: bit_simps\<close>)
  then have "v AND (mask k0 XOR mask k1) = 0 \<longleftrightarrow> take_bit k1 v = take_bit k0 v"
    by (simp add: xor_zero_iff)
  also have "\<dots> \<longleftrightarrow> unat v mod 2 ^ k1 = unat v mod 2 ^ k0"
    by (simp only: word_unat_eq_iff unat_take_bit_mod)
  finally show ?thesis .
qed

lemma index_mod: "unat ((v::u64) AND mask k) = unat v mod 2 ^ k"
  by (simp only: take_bit_eq_mask [symmetric] unat_take_bit_mod)

lemma mid_step:
  fixes n :: nat
  assumes "k0 \<le> k1" "k1 \<le> 31" and a: "a = (n mod 2 ^ k1) div 2 ^ k0"
    and n': "n' = (n + 2 ^ k0) mod 2 ^ 64"
  shows "n' mod 2 ^ k1 = (if Suc a < 2 ^ (k1 - k0) then n mod 2 ^ k1 + 2 ^ k0 else n mod 2 ^ k0)"
    and "n' mod 2 ^ k0 = n mod 2 ^ k0"
    and "a < 2 ^ (k1 - k0)"
    and "n mod 2 ^ k1 = n mod 2 ^ k0 + a * 2 ^ k0"
proof -
  have d1: "(2::nat) ^ k1 dvd 2 ^ 64" and d0: "(2::nat) ^ k0 dvd 2 ^ 64" and d01: "(2::nat) ^ k0 dvd 2 ^ k1"
    by (rule le_imp_power_dvd, use assms(1,2) in linarith)+
  have pw: "(2::nat) ^ k1 = 2 ^ (k1 - k0) * 2 ^ k0"
    using assms(1) by (simp add: power_add [symmetric])
  show low: "n mod 2 ^ k1 = n mod 2 ^ k0 + a * 2 ^ k0"
    using mod_mod_cancel [OF d01, of n] a by (metis add.commute div_mult_mod_eq)
  have "n mod 2 ^ k1 < 2 ^ (k1 - k0) * 2 ^ k0" using pw by (metis mod_less_divisor zero_less_numeral zero_less_power)
  then show alt: "a < 2 ^ (k1 - k0)" using a by (metis less_mult_imp_div_less)
  show "n' mod 2 ^ k0 = n mod 2 ^ k0" using n' mod_mod_cancel [OF d0] by simp
  have "n' mod 2 ^ k1 = (n + 2 ^ k0) mod 2 ^ k1" using n' mod_mod_cancel [OF d1] by simp
  also have "\<dots> = (n mod 2 ^ k0 + Suc a * 2 ^ k0) mod 2 ^ k1"
    by (metis low mod_add_left_eq add.assoc add.commute mult_Suc)
  finally have e: "n' mod 2 ^ k1 = (n mod 2 ^ k0 + Suc a * 2 ^ k0) mod 2 ^ k1" .
  show "n' mod 2 ^ k1 = (if Suc a < 2 ^ (k1 - k0) then n mod 2 ^ k1 + 2 ^ k0 else n mod 2 ^ k0)"
  proof (cases "Suc a < 2 ^ (k1 - k0)")
    case True
    then have "Suc (Suc a) * 2 ^ k0 \<le> 2 ^ (k1 - k0) * 2 ^ k0" by (intro mult_right_mono) auto
    moreover have "n mod 2 ^ k0 < 2 ^ k0" by simp
    ultimately have "n mod 2 ^ k0 + Suc a * 2 ^ k0 < 2 ^ k1" unfolding pw mult_Suc by linarith
    with e True low show ?thesis by simp
  next
    case False
    with alt have "Suc a = 2 ^ (k1 - k0)" by simp
    then have "n' mod 2 ^ k1 = (n mod 2 ^ k0) mod 2 ^ k1" using e pw by simp
    also have "\<dots> = n mod 2 ^ k0" using assms(1)
      by (intro mod_less) (metis low le_add1 le_less_trans mod_less_divisor zero_less_numeral zero_less_power)
    finally show ?thesis using False by simp
  qed
qed
lemma unat_or_mask:
  assumes "n \<le> 64"
  shows "unat ((x::u64) OR mask n) = (unat x div 2 ^ n) * 2 ^ n + (2 ^ n - 1)"
proof -
  have "unat (x OR mask n) = unat x OR mask n"
    by (rule bit_eqI) (use assms in \<open>auto simp: bit_simps\<close>)
  also have "\<dots> = push_bit n (drop_bit n (unat x)) OR mask n"
    by (rule bit_eqI) (auto simp: bit_simps)
  also have "\<dots> = push_bit n (drop_bit n (unat x)) + mask n"
    by (rule disjunctive_add_eq_or [symmetric]) (rule bit_eqI, auto simp: bit_simps)
  finally show ?thesis by (simp add: push_bit_eq_mult drop_bit_eq_div mask_eq_exp_minus_1)
qed

text \<open>
  The order in which cursors are visited: \<open>rank v\<close> is the reversed cursor read as a number.  A step
  with a table of \<open>2 ^ k\<close> buckets moves to the next multiple of \<open>2 ^ (64 - k)\<close>.
\<close>

definition rank :: "u64 \<Rightarrow> nat" where
  "rank v = unat (rev_ul v)"

lemma rank_less: "rank v < 2 ^ 64"
  using unsigned_less [of "rev_ul v"] by (simp add: rank_def)

lemma rank_zero [simp]: "rank 0 = 0"
  by (simp add: rank_def)

lemma rank_0 [simp]: "rank v = 0 \<longleftrightarrow> v = 0"
  by (simp add: rank_def unat_eq_zero)

lemma rank_next:
  assumes "k \<le> 64"
  shows "rank (next_cursor (mask k) v) = ((rank v div 2 ^ (64 - k) + 1) * 2 ^ (64 - k)) mod 2 ^ 64"
proof -
  have "rev_ul (v OR NOT (mask k)) = rev_ul v OR mask (64 - k)"
    by (rule bit_word_eqI) (use assms in \<open>auto simp: rev_ul_bit bit_simps\<close>)
  then have "rank (next_cursor (mask k) v) = unat ((rev_ul v OR mask (64 - k)) + 1)"
    by (simp add: rank_def next_cursor_def)
  also have "\<dots> = (unat (rev_ul v OR mask (64 - k)) + 1) mod 2 ^ 64"
    by (simp add: unat_word_ariths)
  finally show ?thesis
    by (simp add: unat_or_mask rank_def algebra_simps)
qed

lemma unat_drop_bit_div: "unat (drop_bit n (v::u64)) = unat v div 2 ^ n"
  unfolding unat_drop_bit_eq by (simp only: drop_bit_eq_div)

lemma drop_bit_eq_iff_bits:
  fixes a b :: u64
  shows "drop_bit n a = drop_bit n b \<longleftrightarrow> (\<forall>i. n \<le> i \<and> i < 64 \<longrightarrow> bit a i = bit b i)"
proof
  assume eq: "drop_bit n a = drop_bit n b"
  show "\<forall>i. n \<le> i \<and> i < 64 \<longrightarrow> bit a i = bit b i"
  proof (intro allI impI)
    fix i assume "n \<le> i \<and> i < 64"
    then have "i = n + (i - n)" by simp
    with arg_cong [OF eq, of "\<lambda>w. bit w (i - n)"] show "bit a i = bit b i"
      by (simp add: bit_drop_bit_eq)
  qed
next
  assume *: "\<forall>i. n \<le> i \<and> i < 64 \<longrightarrow> bit a i = bit b i"
  show "drop_bit n a = drop_bit n b"
  proof (rule bit_word_eqI)
    fix j
    from * have "n + j < 64 \<Longrightarrow> bit a (n + j) = bit b (n + j)" by simp
    moreover have "\<not> n + j < 64 \<Longrightarrow> \<not> bit a (n + j) \<and> \<not> bit b (n + j)"
      using bit_imp_le_length [of a "n + j"] bit_imp_le_length [of b "n + j"] by auto
    ultimately show "bit (drop_bit n a) j = bit (drop_bit n b) j"
      by (auto simp: bit_drop_bit_eq)
  qed
qed

lemma same_bucket_rank:
  assumes "k \<le> 64"
  shows "unat h mod 2 ^ k = unat v mod 2 ^ k \<longleftrightarrow> rank h div 2 ^ (64 - k) = rank v div 2 ^ (64 - k)"
proof -
  have "unat h mod 2 ^ k = unat v mod 2 ^ k \<longleftrightarrow> take_bit k h = take_bit k v"
    by (simp only: word_unat_eq_iff unat_take_bit_mod)
  also have "\<dots> \<longleftrightarrow> (\<forall>i<k. bit h i = bit v i)"
  proof -
    have "take_bit k h = take_bit k v \<longleftrightarrow> (\<forall>n<64. n < k \<longrightarrow> bit h n = bit v n)"
      by (auto simp: bit_eq_iff bit_take_bit_iff)
    also have "\<dots> \<longleftrightarrow> (\<forall>i<k. bit h i = bit v i)" using assms less_le_trans by blast
    finally show ?thesis .
  qed
  also have "\<dots> \<longleftrightarrow> (\<forall>i. 64 - k \<le> i \<and> i < 64 \<longrightarrow> bit (rev_ul h) i = bit (rev_ul v) i)"
  proof safe
    fix i assume "\<forall>i<k. bit h i = bit v i" and "64 - k \<le> i" "i < 64"
    then have "bit h (63 - i) = bit v (63 - i)" using assms by simp
    then show "bit (rev_ul h) i \<Longrightarrow> bit (rev_ul v) i" "bit (rev_ul v) i \<Longrightarrow> bit (rev_ul h) i"
      using \<open>i < 64\<close> by (simp_all add: rev_ul_bit)
  next
    fix i assume *: "\<forall>i. 64 - k \<le> i \<and> i < 64 \<longrightarrow> bit (rev_ul h) i = bit (rev_ul v) i" and "i < k"
    have "64 - k \<le> 63 - i \<and> 63 - i < 64" using \<open>i < k\<close> assms by linarith
    with * have "bit (rev_ul h) (63 - i) = bit (rev_ul v) (63 - i)" by blast
    then show "bit h i \<Longrightarrow> bit v i" "bit v i \<Longrightarrow> bit h i"
      using \<open>i < k\<close> assms by (simp_all add: rev_ul_bit)
  qed
  also have "\<dots> \<longleftrightarrow> drop_bit (64 - k) (rev_ul h) = drop_bit (64 - k) (rev_ul v)"
    by (rule drop_bit_eq_iff_bits [symmetric])
  also have "\<dots> \<longleftrightarrow> rank h div 2 ^ (64 - k) = rank v div 2 ^ (64 - k)"
    by (simp only: rank_def word_unat_eq_iff unat_drop_bit_div)
  finally show ?thesis .
qed

lemma step_covers:
  assumes k: "k \<le> 64" and le: "rank v \<le> rank h"
    and lt: "next_cursor (mask k) v = 0 \<or> rank h < rank (next_cursor (mask k) v)"
  shows "unat h mod 2 ^ k = unat v mod 2 ^ k"
proof -
  let ?n = "64 - k" and ?q = "rank v div 2 ^ (64 - k)"
  have pw: "(2::nat) ^ 64 = 2 ^ k * 2 ^ ?n" using k by (simp add: power_add [symmetric])
  have "?q < 2 ^ k" using rank_less [of v] unfolding pw by (rule less_mult_imp_div_less)
  then have "(?q + 1) * 2 ^ ?n \<le> 2 ^ k * 2 ^ ?n" by (intro mult_right_mono) auto
  then have top: "(?q + 1) * 2 ^ ?n \<le> 2 ^ 64" unfolding pw .
  have hi: "rank h < (?q + 1) * 2 ^ ?n"
  proof (cases "(?q + 1) * 2 ^ ?n < 2 ^ 64")
    case True
    then have "rank (next_cursor (mask k) v) = (?q + 1) * 2 ^ ?n"
      using rank_next [OF k, of v] by (simp only: mod_less)
    moreover from this have "next_cursor (mask k) v \<noteq> 0" using rank_0 [of "next_cursor (mask k) v"] by auto
    ultimately show ?thesis using lt by simp
  next
    case False
    with top rank_less [of h] show ?thesis by linarith
  qed
  have "?q * 2 ^ ?n \<le> rank h" using le by (metis div_times_less_eq_dividend le_trans)
  with hi have "rank h div 2 ^ ?n = ?q"
    by (intro div_nat_eqI) (simp_all add: mult.commute)
  then show ?thesis using same_bucket_rank [OF k] by simp
qed

section \<open>What one step emits\<close>

lemma upt_conv_Cons_less: "a < m \<Longrightarrow> [a..<m] = a # [Suc a..<m]"
  by (simp add: upt_conv_Cons)

lemma scan_expand_ok:
  fixes v :: u64
  assumes "k0 \<le> k1" "k1 \<le> 31" "length tb = 2 ^ k1" "a = (unat v mod 2 ^ k1) div 2 ^ k0"
  shows "\<exists>v'. scan_expand tb (mask k0) (mask k1) v out =
           Some (v', out @ concat (map (\<lambda>j. tb ! (unat v mod 2 ^ k0 + j * 2 ^ k0)) [a..<2 ^ (k1 - k0)])) \<and>
           unat v' mod 2 ^ k0 = unat v mod 2 ^ k0"
  using assms(4)
proof (induction "2 ^ (k1 - k0) - a" arbitrary: a v out rule: less_induct)
  case less
  let ?v = "v + 2 ^ k0" and ?low = "unat v mod 2 ^ k0" and ?f = "\<lambda>j. tb ! (unat v mod 2 ^ k0 + j * 2 ^ k0)"
  have "unat (word_of_nat (2 ^ k0) :: u64) = 2 ^ k0"
    unfolding unsigned_of_nat using assms(1,2) by simp
  then have "unat (2 ^ k0 :: u64) = 2 ^ k0" by simp
  then have uv: "unat ?v = (unat v + 2 ^ k0) mod 2 ^ 64" by (simp add: unat_word_ariths)
  note ms = mid_step [OF assms(1,2) less.prems uv]
  have il: "unat v mod 2 ^ k1 < length tb" using assms(3) by simp
  have step: "scan_expand tb (mask k0) (mask k1) v out =
      (if ?v AND (mask k0 XOR mask k1) \<noteq> 0
       then scan_expand tb (mask k0) (mask k1) ?v (out @ ?f a) else Some (?v, out @ ?f a))"
    using il ms(4) by (subst scan_expand.simps) (simp add: mask_step index_mod Let_def)
  show ?case
  proof (cases "Suc a < 2 ^ (k1 - k0)")
    case True
    then have mv: "unat ?v mod 2 ^ k1 = ?low + Suc a * 2 ^ k0" using ms(1,4) by simp
    then have "unat ?v mod 2 ^ k1 \<noteq> unat ?v mod 2 ^ k0" using ms(2) by simp
    then have go: "?v AND (mask k0 XOR mask k1) \<noteq> 0" using mid_bits_zero [OF assms(1)] by simp
    have dec: "2 ^ (k1 - k0) - Suc a < 2 ^ (k1 - k0) - a" using True by simp
    have "Suc a = (unat ?v mod 2 ^ k1) div 2 ^ k0"
    proof -
      have "(?low + Suc a * 2 ^ k0) div 2 ^ k0 = Suc a"
        using div_mult_self1 [of "2 ^ k0 :: nat" ?low "Suc a"] by (simp del: mult_Suc)
      then show ?thesis using mv by simp
    qed
    from less.hyps [OF dec this, of "out @ ?f a"] obtain v' where v':
      "scan_expand tb (mask k0) (mask k1) ?v (out @ ?f a) =
         Some (v', (out @ ?f a) @ concat (map (\<lambda>j. tb ! (unat ?v mod 2 ^ k0 + j * 2 ^ k0)) [Suc a..<2 ^ (k1 - k0)]))"
      "unat v' mod 2 ^ k0 = unat ?v mod 2 ^ k0" by blast
    show ?thesis
      unfolding upt_conv_Cons_less [OF ms(3)] step using go v' ms(2) by simp
  next
    case False
    then have "unat ?v mod 2 ^ k1 = unat ?v mod 2 ^ k0" using ms(1,2) by simp
    then have stop: "?v AND (mask k0 XOR mask k1) = 0" using mid_bits_zero [OF assms(1)] by simp
    have "[Suc a..<2 ^ (k1 - k0)] = []" using False by simp
    then show ?thesis
      unfolding upt_conv_Cons_less [OF ms(3)] step using stop ms(2) by simp
  qed
qed

lemma mask_word_eq: "sizemask h = 2 ^ b - 1 \<Longrightarrow> b \<le> 31 \<Longrightarrow> mask_word h = mask b"
  by (simp add: mask_word_def mask_eq_exp_minus_1)

lemma ht_alloc_bits:
  assumes "ht_alloc T h"
  obtains b where "2 \<le> b" "b \<le> 31" "ht_size h = 2 ^ b" "mask_word h = mask b"
    "length (ht_table h) = 2 ^ b" "\<And>k. bucket T h k = unat (hashFunction T k) mod 2 ^ b"
proof -
  from assms obtain b where b: "b \<in> {2..31}" "ht_size h = 2 ^ b" "sizemask h = 2 ^ b - 1"
    "length (ht_table h) = 2 ^ b" by (auto simp: ht_alloc_def)
  moreover have "bucket T h k = unat (hashFunction T k) mod 2 ^ b" for k
    using b(3) and_mask_eq_mod by (simp add: bucket_def)
  ultimately show thesis using that mask_word_eq [OF b(3)] by auto
qed

text \<open>The size of the smaller table in use, which decides how far the cursor moves.\<close>

definition scan_size :: "('k, 'v) dict \<Rightarrow> nat" where
  "scan_size d = (if dictIsRehashing d then min (ht_size (ht0 d)) (ht_size (ht1 d)) else ht_size (ht0 d))"

text \<open>The cursor has no bits that only the larger table uses.\<close>

definition scan_safe :: "('k, 'v) dict \<Rightarrow> u64 \<Rightarrow> bool" where
  "scan_safe d v \<longleftrightarrow> dictIsRehashing d \<longrightarrow> v AND (mask_word (ht0 d) XOR mask_word (ht1 d)) = 0"

lemma next_cursor_cong:
  assumes "unat v mod 2 ^ k = unat w mod 2 ^ k"
  shows "next_cursor (mask k) v = next_cursor (mask k) w"
proof -
  have t: "take_bit k v = take_bit k w"
    using assms by (simp only: word_unat_eq_iff unat_take_bit_mod)
  have "v OR NOT (mask k) = w OR NOT (mask k)"
  proof (rule bit_word_eqI)
    fix n :: nat
    assume "n < LENGTH(64)"
    moreover have "bit (take_bit k v) n = bit (take_bit k w) n" using t by simp
    ultimately show "bit (v OR NOT (mask k)) n = bit (w OR NOT (mask k)) n"
      by (auto simp: bit_simps)
  qed
  then show ?thesis by (simp add: next_cursor_def)
qed


lemma entry_at_bucket:
  assumes a: "ht_alloc T h" and "e \<in> set (concat (ht_table h))" and b: "ht_size h = 2 ^ b"
    and m: "unat (hashFunction T (de_key e)) mod 2 ^ b = i"
  shows "e \<in> set (ht_table h ! i)"
proof -
  obtain b' where "ht_size h = 2 ^ b'" "bucket T h (de_key e) = unat (hashFunction T (de_key e)) mod 2 ^ b'"
    using ht_alloc_bits [OF a] by blast
  with b m have "bucket T h (de_key e) = i" by simp
  with entry_in_bucket [OF a, of e] assms(2) show ?thesis by simp
qed

lemma bucket_entry:
  assumes "ht_alloc T h" "ht_size h = 2 ^ b" "i < 2 ^ b" "e \<in> set (ht_table h ! i)"
  shows "unat (hashFunction T (de_key e)) mod 2 ^ b = i"
proof -
  obtain b' where "ht_size h = 2 ^ b'" "bucket T h (de_key e) = unat (hashFunction T (de_key e)) mod 2 ^ b'"
    using ht_alloc_bits [OF assms(1)] by blast
  moreover have "bucket T h (de_key e) = i" using assms by (auto simp: ht_alloc_def)
  ultimately show ?thesis using assms(2) by simp
qed

text \<open>Different buckets of a table together hold no entry more often than the table does.\<close>

lemma mset_buckets:
  assumes "distinct is" "set is \<subseteq> {..<length xss}"
  shows "mset (concat (map ((!) xss) is)) \<subseteq># mset (concat xss)"
proof -
  have "mset is \<subseteq># mset [0..<length xss]"
    using assms mset_set_set [OF assms(1)] mset_set_set [of "[0..<length xss]"]
      subset_imp_msubset_mset_set [of "set is" "{0..<length xss}"] by (auto simp: lessThan_atLeast0)
  then obtain js where "mset [0..<length xss] = mset is + js" using mset_subset_eq_exists_conv by blast
  moreover have *: "mset (concat (map ((!) xss) ks)) = \<Sum>\<^sub># (image_mset (\<lambda>i. mset (xss ! i)) (mset ks))" for ks
    by (induction ks) simp_all
  moreover have "concat xss = concat (map ((!) xss) [0..<length xss])" by (simp add: map_nth)
  ultimately show ?thesis by (simp only: * image_mset_union sum_mset.union) simp
qed

lemma scan_pair_ok:
  assumes a0: "ht_alloc T h0" and a1: "ht_alloc T h1" and le: "ht_size h0 \<le> ht_size h1"
    and safe: "v AND (mask_word h0 XOR mask_word h1) = 0"
    and de: "de = ht_table h0 ! (unat v mod ht_size h0)"
  shows "\<exists>v' out. scan_expand (ht_table h1) (mask_word h0) (mask_word h1) v de = Some (v', out) \<and>
           next_cursor (mask_word h0) v' = next_cursor (mask_word h0) v \<and>
           (\<forall>e\<in>set (concat (ht_table h0)) \<union> set (concat (ht_table h1)).
              unat (hashFunction T (de_key e)) mod ht_size h0 = unat v mod ht_size h0 \<longrightarrow> e \<in> set out) \<and>
           (\<forall>e\<in>set out. unat (hashFunction T (de_key e)) mod ht_size h0 = unat v mod ht_size h0) \<and>
           mset out \<subseteq># mset (concat (ht_table h0)) + mset (concat (ht_table h1))"
proof -
  obtain k0 where k0: "k0 \<le> 31" "ht_size h0 = 2 ^ k0" "mask_word h0 = mask k0"
    "length (ht_table h0) = 2 ^ k0" using ht_alloc_bits [OF a0] by metis
  obtain k1 where k1: "k1 \<le> 31" "ht_size h1 = 2 ^ k1" "mask_word h1 = mask k1"
    "length (ht_table h1) = 2 ^ k1" using ht_alloc_bits [OF a1] by metis
  have k: "k0 \<le> k1" using le k0(2) k1(2) by simp
  let ?low = "unat v mod 2 ^ k0" and ?js = "[0..<2 ^ (k1 - k0)]"
  have low: "unat v mod 2 ^ k1 = ?low" using safe k0(3) k1(3) mid_bits_zero [OF k] by simp
  have "0 = (unat v mod 2 ^ k1) div 2 ^ k0" unfolding low by simp
  from scan_expand_ok [OF k k1(1,4) this, of de] obtain v' where v':
    "scan_expand (ht_table h1) (mask k0) (mask k1) v de =
       Some (v', de @ concat (map (\<lambda>j. ht_table h1 ! (?low + j * 2 ^ k0)) ?js))"
    "unat v' mod 2 ^ k0 = ?low" by blast
  let ?out = "de @ concat (map (\<lambda>j. ht_table h1 ! (?low + j * 2 ^ k0)) ?js)"
  have "e \<in> set ?out" if e: "e \<in> set (concat (ht_table h0)) \<union> set (concat (ht_table h1))"
    and m: "unat (hashFunction T (de_key e)) mod 2 ^ k0 = ?low" for e
  proof (cases "e \<in> set (concat (ht_table h0))")
    case True
    from entry_at_bucket [OF a0 this k0(2) m] show ?thesis using de k0(2) by simp
  next
    case False
    with e have e1: "e \<in> set (concat (ht_table h1))" by blast
    let ?h = "unat (hashFunction T (de_key e))"
    let ?j = "(?h mod 2 ^ k1) div 2 ^ k0"
    have "?h mod 2 ^ k1 = ?low + ?j * 2 ^ k0" using mid_step(4) [OF k k1(1) refl refl] m by metis
    with entry_at_bucket [OF a1 e1 k1(2) refl] have "e \<in> set (ht_table h1 ! (?low + ?j * 2 ^ k0))" by simp
    moreover have "?j < 2 ^ (k1 - k0)" using mid_step(3) [OF k k1(1) refl refl] .
    ultimately show ?thesis by auto
  qed
  moreover have bound: "?low + j * 2 ^ k0 < 2 ^ k1" if "j < 2 ^ (k1 - k0)" for j
  proof -
    have "Suc j * 2 ^ k0 \<le> 2 ^ (k1 - k0) * 2 ^ k0" using that by (intro mult_right_mono) auto
    also have "\<dots> = 2 ^ k1" using k by (simp add: power_add [symmetric])
    finally have "2 ^ k0 + j * 2 ^ k0 \<le> 2 ^ k1" by simp
    moreover have "?low < 2 ^ k0" by simp
    ultimately show ?thesis by linarith
  qed
  moreover have "unat (hashFunction T (de_key e)) mod 2 ^ k0 = ?low" if e: "e \<in> set ?out" for e
  proof (cases "e \<in> set de")
    case True
    then show ?thesis using bucket_entry [OF a0 k0(2), of ?low e] de k0(2) by simp
  next
    case False
    then obtain j where j: "j < 2 ^ (k1 - k0)" "e \<in> set (ht_table h1 ! (?low + j * 2 ^ k0))" using e by auto
    have "unat (hashFunction T (de_key e)) mod 2 ^ k1 = ?low + j * 2 ^ k0"
      by (rule bucket_entry [OF a1 k1(2) bound [OF j(1)] j(2)])
    then have "unat (hashFunction T (de_key e)) mod 2 ^ k1 mod 2 ^ k0 = ?low" by simp
    then show ?thesis using mod_mod_cancel [of "2 ^ k0 :: nat" "2 ^ k1"] k by (simp add: le_imp_power_dvd)
  qed
  moreover have "mset ?out \<subseteq># mset (concat (ht_table h0)) + mset (concat (ht_table h1))"
  proof -
    have "mset de \<subseteq># mset (concat (ht_table h0))"
      using mset_buckets [of "[?low]" "ht_table h0"] de k0(2,4) by simp
    moreover have "mset (concat (map ((!) (ht_table h1)) (map (\<lambda>j. ?low + j * 2 ^ k0) ?js))) \<subseteq># mset (concat (ht_table h1))"
      using bound k1(4) by (intro mset_buckets) (auto simp: distinct_map inj_on_def)
    ultimately show ?thesis unfolding mset_append by (intro subset_mset.add_mono) (simp_all add: comp_def)
  qed
  ultimately show ?thesis using v' next_cursor_cong [OF v'(2)] k0 k1
    by (intro exI [of _ v'] exI [of _ ?out]) auto
qed

lemma dictScan_ok:
  assumes inv: "dict_inv d" and ne: "dictSize d \<noteq> 0" and safe: "scan_safe d v"
  shows "\<exists>k out. scan_size d = 2 ^ k \<and> k \<le> 31 \<and> dictScan d v = Some (next_cursor (mask k) v, out) \<and>
           (\<forall>e\<in>set (entries d). unat (hashFunction (dtype d) (de_key e)) mod 2 ^ k = unat v mod 2 ^ k \<longrightarrow>
              e \<in> set out) \<and>
           (\<forall>e\<in>set out. unat (hashFunction (dtype d) (de_key e)) mod 2 ^ k = unat v mod 2 ^ k) \<and>
           mset out \<subseteq># mset (entries d)"
proof (cases "dictIsRehashing d")
  case False
  with inv ne have a0: "ht_alloc (dtype d) (ht0 d)"
    by (auto simp: dict_inv_def dictSize_def dictReset_def)
  then obtain k where k: "k \<le> 31" "ht_size (ht0 d) = 2 ^ k" "mask_word (ht0 d) = mask k"
    "length (ht_table (ht0 d)) = 2 ^ k" using ht_alloc_bits by metis
  have "dictScan d v = Some (next_cursor (mask k) v, ht_table (ht0 d) ! (unat v mod 2 ^ k))"
    using False ne k by (simp add: dictScan_def Let_def index_mod)
  moreover have "\<forall>e\<in>set (entries d). unat (hashFunction (dtype d) (de_key e)) mod 2 ^ k = unat v mod 2 ^ k \<longrightarrow>
      e \<in> set (ht_table (ht0 d) ! (unat v mod 2 ^ k))"
    using entry_at_bucket [OF a0 _ k(2)] keys_not_rehashing [OF inv False] by (simp add: ht_def)
  moreover have "\<forall>e\<in>set (ht_table (ht0 d) ! (unat v mod 2 ^ k)). unat (hashFunction (dtype d) (de_key e)) mod 2 ^ k = unat v mod 2 ^ k"
    using bucket_entry [OF a0 k(2), of "unat v mod 2 ^ k"] by simp
  moreover have "mset (ht_table (ht0 d) ! (unat v mod 2 ^ k)) \<subseteq># mset (entries d)"
    using mset_buckets [of "[unat v mod 2 ^ k]" "ht_table (ht0 d)"] k(4)
    by (auto simp: entries_def intro: subset_mset.add_increasing2)
  ultimately show ?thesis using k False
    by (intro exI [of _ k] exI [of _ "ht_table (ht0 d) ! (unat v mod 2 ^ k)"]) (simp add: scan_size_def)
next
  case True
  with inv have a: "ht_alloc (dtype d) (ht0 d)" "ht_alloc (dtype d) (ht1 d)"
    by (auto simp: dict_inv_def rehash_inv_def)
  define p where "p = (if ht_size (ht1 d) < ht_size (ht0 d) then (ht1 d, ht0 d) else (ht0 d, ht1 d))"
  obtain t0 t1 where t: "p = (t0, t1)" by (cases p)
  have at: "ht_alloc (dtype d) t0" "ht_alloc (dtype d) t1" "ht_size t0 \<le> ht_size t1"
    using a t by (auto simp: p_def split: if_splits)
  have ent: "mset (entries d) = mset (concat (ht_table t0)) + mset (concat (ht_table t1))"
    using t by (auto simp: p_def entries_def split: if_splits)
  then have set_ent: "set (entries d) = set (concat (ht_table t0)) \<union> set (concat (ht_table t1))"
    by (metis set_mset_mset set_mset_union)
  have sz: "scan_size d = ht_size t0" using True t by (auto simp: p_def scan_size_def split: if_splits)
  have sf: "v AND (mask_word t0 XOR mask_word t1) = 0"
    using safe True t by (auto simp: scan_safe_def p_def xor.commute split: if_splits)
  obtain k where k: "k \<le> 31" "ht_size t0 = 2 ^ k" "mask_word t0 = mask k"
    "length (ht_table t0) = 2 ^ k" using ht_alloc_bits [OF at(1)] by metis
  from scan_pair_ok [OF at sf refl] obtain v' out where r:
    "scan_expand (ht_table t1) (mask_word t0) (mask_word t1) v (ht_table t0 ! (unat v mod ht_size t0)) = Some (v', out)"
    "next_cursor (mask_word t0) v' = next_cursor (mask_word t0) v"
    "\<forall>e\<in>set (concat (ht_table t0)) \<union> set (concat (ht_table t1)).
       unat (hashFunction (dtype d) (de_key e)) mod ht_size t0 = unat v mod ht_size t0 \<longrightarrow> e \<in> set out"
    "\<forall>e\<in>set out. unat (hashFunction (dtype d) (de_key e)) mod ht_size t0 = unat v mod ht_size t0"
    "mset out \<subseteq># mset (concat (ht_table t0)) + mset (concat (ht_table t1))" by blast
  have "dictScan d v = Some (next_cursor (mask k) v, out)"
    using True ne r(1,2) k t by (simp add: dictScan_def p_def [symmetric] Let_def index_mod)
  with r(3-5) k sz show ?thesis unfolding ent set_ent by (intro exI [of _ k] exI [of _ out]) auto
qed


section \<open>A whole scan\<close>

lemma next_cursor_small:
  assumes "k \<le> 64"
  shows "unat (next_cursor (mask k) v) < 2 ^ k"
proof -
  let ?w = "next_cursor (mask k) v"
  have "(2::nat) ^ (64 - k) dvd 2 ^ 64" by (rule le_imp_power_dvd) simp
  then have "2 ^ (64 - k) dvd rank ?w" unfolding rank_next [OF assms]
    by (metis dvd_mod dvd_triv_right)
  then have z: "take_bit (64 - k) (rev_ul ?w) = 0"
    by (simp only: word_unat_eq_iff unat_take_bit_mod rank_def unsigned_0 dvd_eq_mod_eq_0)
  have "take_bit k ?w = ?w"
  proof (rule bit_word_eqI)
    fix n :: nat
    assume n: "n < LENGTH(64)"
    have "\<not> bit ?w n" if "k \<le> n"
      using arg_cong [OF z, of "\<lambda>x. bit x (63 - n)"] that n by (simp add: bit_simps rev_ul_bit)
    then show "bit (take_bit k ?w) n = bit ?w n" by (auto simp: bit_simps not_less [symmetric])
  qed
  then have "unat ?w = unat ?w mod 2 ^ k" using unat_take_bit_mod [of k ?w] by simp
  then show ?thesis by (metis mod_less_divisor zero_less_numeral zero_less_power)
qed

lemma small_cursor_safe:
  assumes inv: "dict_inv d" and lt: "unat v < scan_size d"
  shows "scan_safe d v"
proof (cases "dictIsRehashing d")
  case True
  with inv have a: "ht_alloc (dtype d) (ht0 d)" "ht_alloc (dtype d) (ht1 d)"
    by (auto simp: dict_inv_def rehash_inv_def)
  obtain k0 where k0: "ht_size (ht0 d) = 2 ^ k0" "mask_word (ht0 d) = mask k0"
    using ht_alloc_bits [OF a(1)] by metis
  obtain k1 where k1: "ht_size (ht1 d) = 2 ^ k1" "mask_word (ht1 d) = mask k1"
    using ht_alloc_bits [OF a(2)] by metis
  from lt True k0 k1 have "unat v < 2 ^ k0" "unat v < 2 ^ k1" by (auto simp: scan_size_def)
  then have "v AND (mask k0 XOR mask k1) = 0"
    using mid_bits_zero [of k0 k1 v] mid_bits_zero [of k1 k0 v]
    by (cases "k0 \<le> k1") (auto simp: xor.commute)
  then show ?thesis by (simp add: scan_safe_def k0 k1)
qed (simp add: scan_safe_def)

lemma scan_size_pos: "dict_inv d \<Longrightarrow> dictSize d \<noteq> 0 \<Longrightarrow> 0 < scan_size d"
  using ht_alloc_nonempty [of "dtype d" "ht0 d"] ht_alloc_nonempty [of "dtype d" "ht1 d"]
  by (auto simp: scan_size_def dict_inv_def rehash_inv_def dictSize_def dictReset_def split: if_splits)

lemma present_size: "dict_inv d \<Longrightarrow> k \<in> dom (dict_map d) \<Longrightarrow> dictSize d \<noteq> 0"
  by (auto simp: dictSize_entries in_dom_dict_map)

lemma unat_ucast_u32: "unat (ucast (x::u32) :: u64) = unat x"
  by (rule bit_eqI) (auto simp: bit_simps dest: bit_imp_le_length)

lemma scan_run_covers:
  assumes "ds \<noteq> []" and "\<forall>d\<in>set ds. dict_inv d \<and> dtype d = T \<and> k \<in> dom (dict_map d)"
    and "sorted (map scan_size ds)" and "unat v < scan_size (hd ds)"
    and "scan_run ds v = Some (0, out)" and "rank v \<le> rank (ucast (hashFunction T k))"
  shows "k \<in> de_key ` set out"
  using assms
proof (induction ds arbitrary: v out)
  case (Cons d ds)
  let ?h = "ucast (hashFunction T k) :: u64"
  from Cons.prems have inv: "dict_inv d" and T: "dtype d = T" and pres: "k \<in> dom (dict_map d)"
    and lt: "unat v < scan_size d" by auto
  from dictScan_ok [OF inv present_size [OF inv pres] small_cursor_safe [OF inv lt]]
  obtain b out1 where s: "scan_size d = 2 ^ b" "b \<le> 31" "dictScan d v = Some (next_cursor (mask b) v, out1)"
    "\<forall>e\<in>set (entries d). unat (hashFunction T (de_key e)) mod 2 ^ b = unat v mod 2 ^ b \<longrightarrow> e \<in> set out1"
    unfolding T by blast
  let ?w = "next_cursor (mask b) v"
  from Cons.prems(5) s(3) obtain out2 where o: "scan_run ds ?w = Some (0, out2)" "out = out1 @ out2"
    by (auto simp: bind_eq_Some_conv)
  show ?case
  proof (cases "?w = 0 \<or> rank ?h < rank ?w")
    case True
    then have "unat ?h mod 2 ^ b = unat v mod 2 ^ b"
      using step_covers [of b v ?h] s(2) Cons.prems(6) by simp
    then have m: "unat (hashFunction T k) mod 2 ^ b = unat v mod 2 ^ b" unfolding unat_ucast_u32 .
    from pres obtain e where "e \<in> set (entries d)" "de_key e = k" unfolding in_dom_dict_map by auto
    with s(4) m o(2) show ?thesis by auto
  next
    case False
    then have ne: "ds \<noteq> []" using o(1) by auto
    then have "scan_size d \<le> scan_size (hd ds)" using Cons.prems(3) by (cases ds) auto
    then have "unat ?w < scan_size (hd ds)" using next_cursor_small [of b v] s(1,2) by simp
    from Cons.IH [OF ne _ _ this o(1)] Cons.prems False o(2) show ?thesis by auto
  qed
qed simp


text \<open>
  From a cursor whose rank is the \<open>i\<close>-th multiple, \<open>j\<close> calls hand out entries of the next \<open>j\<close> buckets, each
  at most once.
\<close>

definition bucket_rank :: "'k dictType \<Rightarrow> nat \<Rightarrow> ('k, 'v) dictEntry \<Rightarrow> nat" where
  "bucket_rank T k e = rank (ucast (hashFunction T (de_key e))) div 2 ^ (64 - k)"

lemma distinct_mset_subset:
  assumes "mset xs \<subseteq># mset ys" "distinct (map f ys)"
  shows "distinct (map f xs) \<and> set xs \<subseteq> set ys"
proof -
  obtain zs where "mset ys = mset (xs @ zs)"
    using assms(1) by (metis ex_mset mset_append mset_subset_eq_exists_conv)
  then have "mset (map f ys) = mset (map f (xs @ zs))" "set ys = set (xs @ zs)" by (simp, metis set_mset_mset)
  then show ?thesis using assms(2) mset_eq_imp_distinct_iff [of "map f ys" "map f (xs @ zs)"] by auto
qed

lemma scan_run_static:
  assumes inv: "dict_inv d" and ne: "dictSize d \<noteq> 0" and k: "scan_size d = 2 ^ k" "k \<le> 31"
    and "unat v < 2 ^ k" and "rank v = i * 2 ^ (64 - k)" and "i + j \<le> 2 ^ k"
  shows "\<exists>w out. scan_run (replicate j d) v = Some (w, out) \<and> set out \<subseteq> set (entries d) \<and> distinct (map de_key out) \<and>
           (\<forall>e\<in>set out. i \<le> bucket_rank (dtype d) k e) \<and> rank w = ((i + j) * 2 ^ (64 - k)) mod 2 ^ 64"
  using assms(5-)
proof (induction j arbitrary: v i)
  case 0
  with rank_less [of v] show ?case by simp
next
  case (Suc j)
  have "scan_safe d v" using small_cursor_safe [OF inv] Suc.prems k by simp
  from dictScan_ok [OF inv ne this] k obtain out1 where s:
    "dictScan d v = Some (next_cursor (mask k) v, out1)" "mset out1 \<subseteq># mset (entries d)"
    "\<forall>e\<in>set out1. unat (hashFunction (dtype d) (de_key e)) mod 2 ^ k = unat v mod 2 ^ k" by auto
  have o1: "distinct (map de_key out1)" "set out1 \<subseteq> set (entries d)"
    using distinct_mset_subset [OF s(2)] inv by (auto simp: dict_inv_def)
  let ?w = "next_cursor (mask k) v"
  have w: "unat ?w < 2 ^ k" using next_cursor_small k(2) by simp
  have i: "rank v div 2 ^ (64 - k) = i" using Suc.prems(2) by simp
  have "unat (ucast (hashFunction (dtype d) (de_key e)) :: u64) mod 2 ^ k = unat v mod 2 ^ k" if "e \<in> set out1" for e
    using s(3) that unfolding unat_ucast_u32 by blast
  then have b1: "\<forall>e\<in>set out1. bucket_rank (dtype d) k e = i"
    using same_bucket_rank [of k] k(2) i unfolding bucket_rank_def by auto
  have pw: "(2::nat) ^ 64 = 2 ^ k * 2 ^ (64 - k)" using k(2) by (simp add: power_add [symmetric])
  have r: "rank ?w = ((i + 1) * 2 ^ (64 - k)) mod 2 ^ 64" using rank_next [of k v] k(2) i by simp
  show ?case
  proof (cases "j = 0")
    case True
    then show ?thesis using s(1) o1 b1 r by simp
  next
    case False
    then have "i + 1 < 2 ^ k" using Suc.prems(3) by simp
    then have r': "rank ?w = (i + 1) * 2 ^ (64 - k)" unfolding r pw mod_mult_mult2 by simp
    from Suc.IH [OF w r'] Suc.prems(3) obtain w' out2 where t: "scan_run (replicate j d) ?w = Some (w', out2)"
      "set out2 \<subseteq> set (entries d)" "distinct (map de_key out2)" "\<forall>e\<in>set out2. i + 1 \<le> bucket_rank (dtype d) k e"
      "rank w' = ((i + 1 + j) * 2 ^ (64 - k)) mod 2 ^ 64" by auto
    have "de_key e \<noteq> de_key e'" if "e \<in> set out1" "e' \<in> set out2" for e e'
      using b1 t(4) that unfolding bucket_rank_def by fastforce
    then have "de_key ` set out1 \<inter> de_key ` set out2 = {}" by blast
    then show ?thesis using s(1) t o1 b1 by (auto dest: bspec)
  qed
qed

lemma scan_size_power: "dict_inv d \<Longrightarrow> dictSize d \<noteq> 0 \<Longrightarrow> \<exists>k\<le>31. scan_size d = 2 ^ k"
  using dictScan_ok [of d 0] small_cursor_safe [of d 0] scan_size_pos [of d] by auto

lemma scan_run_complete:
  assumes "ds \<noteq> []" and "\<forall>d\<in>set ds. dict_inv d \<and> dtype d = T \<and> k \<in> dom (dict_map d)"
    and "sorted (map scan_size ds)" and "scan_run ds 0 = Some (0, out)"
  shows "k \<in> de_key ` set out"
proof -
  have "dict_inv (hd ds)" "k \<in> dom (dict_map (hd ds))" using assms(1,2) by auto
  then have "unat (0::u64) < scan_size (hd ds)"
    using scan_size_pos [of "hd ds"] present_size [of "hd ds" k] by simp
  moreover have "rank 0 \<le> rank (ucast (hashFunction T k))" by simp
  ultimately show ?thesis by (rule scan_run_covers [OF assms(1-3) _ assms(4)])
qed

lemma scan_unmodified:
  assumes inv: "dict_inv d" and ne: "dictSize d \<noteq> 0"
  shows "\<exists>out. scan_run (replicate (scan_size d) d) 0 = Some (0, out) \<and>
           mset out = mset (entries d) \<and> de_key ` set out = dom (dict_map d)"
proof -
  obtain k where k: "k \<le> 31" "scan_size d = 2 ^ k" using scan_size_power [OF inv ne] by blast
  have "rank 0 = 0 * 2 ^ (64 - k)" by simp
  from scan_run_static [OF inv ne k(2,1) _ this, of "2 ^ k"] obtain w out where r:
    "scan_run (replicate (2 ^ k) d) 0 = Some (w, out)" "set out \<subseteq> set (entries d)" "distinct (map de_key out)"
    "rank w = (2 ^ k * 2 ^ (64 - k)) mod 2 ^ 64" by auto
  have "(2::nat) ^ k * 2 ^ (64 - k) = 2 ^ 64" using k(1) by (simp add: power_add [symmetric])
  with r(4) have "w = 0" using rank_0 [of w] by simp
  have dom: "de_key ` set out = dom (dict_map d)"
  proof
    show "dom (dict_map d) \<subseteq> de_key ` set out"
    proof
      fix key assume "key \<in> dom (dict_map d)"
      then show "key \<in> de_key ` set out"
        using r(1) \<open>w = 0\<close> inv
        by (intro scan_run_complete [of "replicate (2 ^ k) d" "dtype d"]) (auto simp: sorted_replicate)
    qed
  qed (use r(2) in \<open>auto simp: dom_dict_map\<close>)
  have ent: "distinct (map de_key (entries d))" using inv by (simp add: dict_inv_def)
  have "set (entries d) \<subseteq> set out"
  proof
    fix e assume e: "e \<in> set (entries d)"
    then have "de_key e \<in> de_key ` set out" using dom by (auto simp: dom_dict_map)
    then obtain e' where "e' \<in> set out" "de_key e' = de_key e" by auto
    then show "e \<in> set out" using e r(2) ent by (metis distinct_map inj_onD subsetD)
  qed
  then have "mset out = mset (entries d)"
    using r(2,3) ent by (metis distinct_map set_eq_iff_mset_eq_distinct subset_antisym)
  then show ?thesis using r(1) \<open>w = 0\<close> k(2) dom by auto
qed

lemma scan_not_finished:
  assumes inv: "dict_inv d" and ne: "dictSize d \<noteq> 0" and j: "0 < j" "j < scan_size d"
  shows "\<exists>w out. scan_run (replicate j d) 0 = Some (w, out) \<and> w \<noteq> 0"
proof -
  obtain k where k: "k \<le> 31" "scan_size d = 2 ^ k" using scan_size_power [OF inv ne] by blast
  have "rank 0 = 0 * 2 ^ (64 - k)" by simp
  from scan_run_static [OF inv ne k(2,1) _ this, of j] j k(2) obtain w out where r:
    "scan_run (replicate j d) 0 = Some (w, out)" "rank w = (j * 2 ^ (64 - k)) mod 2 ^ 64" by auto
  have "(2::nat) ^ 64 = 2 ^ k * 2 ^ (64 - k)" using k(1) by (simp add: power_add [symmetric])
  then have "rank w = j * 2 ^ (64 - k)" using r(2) j(2) k(2) by (simp only: mod_mult_mult2 mod_less)
  then have "w \<noteq> 0" using j(1) by auto
  then show ?thesis using r(1) by blast
qed

section \<open>A table that shrinks while it is scanned\<close>

text \<open>
  A table of 16 buckets with one entry, in bucket 6, and the state after \<^verbatim>\<open>dictResize\<close> has
  started to shrink it to 4 buckets.
\<close>

definition demo_dict :: "(u32, nat) dict" where
  "demo_dict = \<lparr>dtype = \<lparr>hashFunction = id, keyCompare = (=)\<rparr>,
     ht0 = \<lparr>ht_table = (replicate 16 [])[6 := [\<lparr>de_key = 6, de_val = Some 0\<rparr>]],
            ht_size = 16, sizemask = 15, used = 1\<rparr>,
     ht1 = dictReset, rehashidx = -1, iterators = 0\<rparr>"

definition demo_shrinking :: "(u32, nat) dict" where
  "demo_shrinking = demo_dict\<lparr>ht1 := \<lparr>ht_table = replicate 4 [], ht_size = 4, sizemask = 3, used = 0\<rparr>,
     rehashidx := 0\<rparr>"

lemma demo_resize: "dictResize True demo_dict = Some (demo_shrinking, True)"
  by (simp add: dictResize_def dictExpand_def dictNextPower_def next_power_loop.simps LONG_MAX_def
      DICT_HT_INITIAL_SIZE_def demo_shrinking_def demo_dict_def dictIsRehashing_def Let_def)

lemma demo_concat: "concat ((replicate 16 [])[6 := [e]]) = [e]"
  by (simp add: numeral_eq_Suc)

lemma demo_entries: "entries demo_dict = [\<lparr>de_key = 6, de_val = Some 0\<rparr>]"
  "entries demo_shrinking = [\<lparr>de_key = 6, de_val = Some 0\<rparr>]"
  by (simp_all add: entries_def demo_dict_def demo_shrinking_def dictReset_def demo_concat)

lemma demo_map: "dict_map demo_dict = [6 \<mapsto> Some 0]" "dict_map demo_shrinking = [6 \<mapsto> Some 0]"
  by (simp_all add: dict_map_def demo_entries binding_def)

lemma demo_inv: "dict_inv demo_dict"
proof -
  have "ht_alloc (dtype demo_dict) (ht0 demo_dict)"
    unfolding ht_alloc_def
    by (rule bexI [of _ 4]) (simp_all add: demo_dict_def bucket_def nth_list_update demo_concat)
  then show ?thesis
    by (simp add: dict_inv_def demo_entries) (simp add: demo_dict_def dictIsRehashing_def)
qed

lemma demo_scan_calls:
  "dictScan demo_dict 0 = Some (8, [])" "dictScan demo_dict 8 = Some (4, [])"
  "dictScan demo_dict 4 = Some (12, [])" "dictScan demo_dict 12 = Some (2, [])"
  "dictScan demo_dict 2 = Some (10, [])"
  by code_simp+

lemma demo_scan_calls_shrinking:
  "dictScan demo_shrinking 10 = Some (1, [])" "dictScan demo_shrinking 1 = Some (3, [])"
  "dictScan demo_shrinking 3 = Some (0, [])"
  by code_simp+

section \<open>Properties of the scan\<close>

text \<open>
  C7.  A scan of a dictionary whose smaller table never shrinks between calls returns every key that
  is present throughout: whatever the states \<open>ds\<close> of the dictionary at the successive calls, if the
  cursor starts at 0 and comes back to 0, then every key present in all of them was handed to the
  callback.  The states may differ arbitrarily otherwise (other keys come and go, rehashing advances,
  starts or finishes, the table grows).
\<close>

theorem dictScan_complete:
  assumes "ds \<noteq> []" and "\<forall>d\<in>set ds. dict_inv d \<and> dtype d = T \<and> k \<in> dom (dict_map d)"
    and "sorted (map scan_size ds)" and "scan_run ds 0 = Some (0, out)"
  shows "k \<in> de_key ` set out"
  using assms by (rule scan_run_complete)

theorem dictScan_complete_witness:
  "\<exists>out. scan_run (replicate 16 demo_dict) 0 = Some (0, out) \<and> 6 \<in> de_key ` set out"
proof -
  have "dictSize demo_dict \<noteq> 0" "scan_size demo_dict = 16"
    by (simp_all add: demo_dict_def dictSize_def dictReset_def scan_size_def dictIsRehashing_def)
  with scan_unmodified [OF demo_inv] obtain out where
    r: "scan_run (replicate 16 demo_dict) 0 = Some (0, out)" by auto
  have "6 \<in> de_key ` set out"
    by (rule dictScan_complete [OF _ _ _ r, of "dtype demo_dict"]) (auto simp: demo_inv demo_map)
  with r show ?thesis by blast
qed

text \<open>
  C8.  Scanning a dictionary that is not modified takes exactly as many calls as the smaller table has
  buckets: before that many calls the cursor is not zero, then it is.  Over the whole scan every entry
  of the dictionary is handed to the callback exactly once, and nothing else is.
\<close>

theorem dictScan_static:
  assumes "dict_inv d" and "dictSize d \<noteq> 0"
  shows "(\<exists>out. scan_run (replicate (scan_size d) d) 0 = Some (0, out) \<and>
           mset out = mset (entries d) \<and> de_key ` set out = dom (dict_map d)) \<and>
         (\<forall>j. 0 < j \<and> j < scan_size d \<longrightarrow> (\<exists>w out. scan_run (replicate j d) 0 = Some (w, out) \<and> w \<noteq> 0))"
proof (intro conjI allI impI)
  fix j assume "0 < j \<and> j < scan_size d"
  then show "\<exists>w out. scan_run (replicate j d) 0 = Some (w, out) \<and> w \<noteq> 0" using scan_not_finished [OF assms, of j] by simp
qed (rule scan_unmodified [OF assms])

theorem dictScan_static_witness:
  "\<exists>out. scan_run (replicate (scan_size demo_dict) demo_dict) 0 = Some (0, out) \<and>
        mset out = {#\<lparr>de_key = 6, de_val = Some 0\<rparr>#}"
proof -
  have "dictSize demo_dict \<noteq> 0" by (simp add: demo_dict_def dictSize_def)
  from conjunct1 [OF dictScan_static [OF demo_inv this]] show ?thesis unfolding demo_entries by auto
qed

text \<open>
  The hypothesis of the completeness property that the smaller table does not shrink is needed: while a
  table is being shrunk by a factor of four or more, the expansion loop starts from the cursor bits of the larger
  table and skips the lower expansions.  Here a key is in the table from the first to the last call of a
  complete scan, the table is only resized between two calls, and the callback never sees the key.
\<close>

lemma dictScan_misses_key_on_shrink:
  "dict_inv demo_dict \<and> dictResize True demo_dict = Some (demo_shrinking, True) \<and>
   dict_map demo_dict 6 = Some (Some 0) \<and> dict_map demo_shrinking = dict_map demo_dict \<and>
   scan_run (replicate 5 demo_dict @ replicate 3 demo_shrinking) 0 = Some (0, [])"
  by (simp add: demo_inv demo_resize demo_map demo_scan_calls demo_scan_calls_shrinking numeral_eq_Suc)

end
