(* ===== verification/Bytes.thy ===== *)
theory Bytes
  imports Prelude
begin

text \<open>
  Integers as byte strings.  A buffer is a list of bytes; \<open>le_int\<close> is the unsigned value a
  little-endian machine reads from it and \<open>le_bytes\<close> the bytes such a machine stores.  The byte
  reversals of \<^verbatim>\<open>redis/redis/src/endianconv.c\<close> work on the bytes in place.
\<close>

section \<open>Little-endian codec\<close>

fun le_int :: "u8 list \<Rightarrow> int" where
  "le_int [] = 0"
| "le_int (b # bs) = uint b + 256 * le_int bs"

fun le_bytes :: "nat \<Rightarrow> int \<Rightarrow> u8 list" where
  "le_bytes 0 x = []"
| "le_bytes (Suc n) x = word_of_int x # le_bytes n (x div 256)"

lemma length_le_bytes [simp]: "length (le_bytes n x) = n"
  by (induction n arbitrary: x) auto

lemma uint_byte_bounds: "0 \<le> uint (b :: u8)" "uint (b :: u8) < 256"
  using uint_bounded [of b] by simp_all

lemma le_int_bounds: "0 \<le> le_int bs \<and> le_int bs < 256 ^ length bs"
proof (induction bs)
  case (Cons b bs)
  with uint_byte_bounds [of b] show ?case by auto
qed simp

lemma le_bytes_le_int [simp]: "le_bytes (length bs) (le_int bs) = bs"
proof (induction bs)
  case (Cons b bs)
  have "(uint b + 256 * le_int bs) div 256 = le_int bs"
    using uint_byte_bounds [of b] by simp
  moreover have "(word_of_int (uint b + 256 * le_int bs) :: u8) = b"
  proof -
    have "(word_of_int (256 * le_int bs) :: u8) = 256 * word_of_int (le_int bs)" by simp
    also have "(256 :: u8) = 0" by simp
    finally have "(word_of_int (256 * le_int bs) :: u8) = 0" by simp
    then show ?thesis by (simp del: of_int_mult)
  qed
  ultimately show ?case using Cons by simp
qed simp

lemma uint_word_byte: "uint (word_of_int x :: u8) = x mod 256"
  by (simp add: unsigned_of_int take_bit_eq_mod)

lemma le_int_le_bytes: "le_int (le_bytes n x) = x mod 256 ^ n"
proof (induction n arbitrary: x)
  case (Suc n)
  have "x mod (256 * 256 ^ n) = 256 * (x div 256 mod 256 ^ n) + x mod 256"
    by (rule zmod_zmult2_eq) simp
  with Suc show ?case by (simp add: uint_word_byte)
qed simp

lemma le_bytes_mod: "le_bytes n (x mod 256 ^ n) = le_bytes n x"
  using le_bytes_le_int [of "le_bytes n x"] by (simp add: le_int_le_bytes)

lemma le_int_inject: "length xs = length ys \<Longrightarrow> le_int xs = le_int ys \<longleftrightarrow> xs = ys"
  by (metis le_bytes_le_int)

lemma le_int_append: "le_int (xs @ ys) = le_int xs + 256 ^ length xs * le_int ys"
  by (induction xs) (auto simp: algebra_simps)

lemma le_int_take: "k \<le> length bs \<Longrightarrow> le_int (take k bs) = le_int bs mod 256 ^ k"
proof -
  assume "k \<le> length bs"
  then have "le_int bs = le_int (take k bs) + 256 ^ k * le_int (drop k bs)"
    using le_int_append [of "take k bs" "drop k bs"] by simp
  moreover have "0 \<le> le_int (take k bs)" "le_int (take k bs) < 256 ^ k"
    using le_int_bounds [of "take k bs"] \<open>k \<le> length bs\<close> by auto
  ultimately show ?thesis by simp
qed

text \<open>The C library's \<^verbatim>\<open>tolower\<close> and \<^verbatim>\<open>isdigit\<close> in the C locale.\<close>

definition tolower :: "u8 \<Rightarrow> u8" where
  "tolower c = (if 65 \<le> c \<and> c \<le> 90 then c + 32 else c)"

definition isdigit :: "u8 \<Rightarrow> bool" where
  "isdigit c \<longleftrightarrow> 48 \<le> c \<and> c \<le> 57"

section \<open>Buffers\<close>

text \<open>Reading and writing a block of bytes, and moving one; a block outside the buffer is \<^term>\<open>None\<close>.\<close>

definition rd_mem :: "u8 list \<Rightarrow> nat \<Rightarrow> nat \<Rightarrow> u8 list option" where
  "rd_mem m off n = (if off + n \<le> length m then Some (take n (drop off m)) else None)"

definition wr_mem :: "u8 list \<Rightarrow> nat \<Rightarrow> u8 list \<Rightarrow> u8 list option" where
  "wr_mem m off bs =
     (if off + length bs \<le> length m then Some (take off m @ bs @ drop (off + length bs) m) else None)"

definition memmove :: "u8 list \<Rightarrow> nat \<Rightarrow> nat \<Rightarrow> nat \<Rightarrow> u8 list option" where
  "memmove m dst src n = do { bs \<leftarrow> rd_mem m src n; wr_mem m dst bs }"

text \<open>\<^verbatim>\<open>memcmp\<close>: the difference at the first differing byte.\<close>

fun memcmp :: "u8 list \<Rightarrow> u8 list \<Rightarrow> int" where
  "memcmp (a # as) (b # bs) = (if a = b then memcmp as bs else uint a - uint b)"
| "memcmp _ _ = 0"

text \<open>
  \<^verbatim>\<open>zrealloc\<close> keeps the common prefix; the bytes it adds are whatever the allocator returns, here
  the values of \<open>junk\<close>.
\<close>

definition realloc :: "(nat \<Rightarrow> u8) \<Rightarrow> u8 list \<Rightarrow> nat \<Rightarrow> u8 list" where
  "realloc junk m n = take n m @ map junk [length m..<n]"

lemma rd_mem_Some [simp, checked]: "off + n \<le> length m \<Longrightarrow> rd_mem m off n = Some (take n (drop off m))"
  by (simp add: rd_mem_def)

lemma wr_mem_Some [simp, checked]: "off + length bs \<le> length m \<Longrightarrow>
  wr_mem m off bs = Some (take off m @ bs @ drop (off + length bs) m)"
  by (simp add: wr_mem_def)

lemma length_realloc [simp]: "length (realloc junk m n) = n"
  by (simp add: realloc_def)

lemma take_realloc: "k \<le> length m \<Longrightarrow> k \<le> n \<Longrightarrow> take k (realloc junk m n) = take k m"
  by (simp add: realloc_def min_def)

text \<open>A written block is read back; a disjoint block is not affected.\<close>

lemma take_drop_write_same:
  "off + length bs \<le> length m \<Longrightarrow>
   take (length bs) (drop off (take off m @ bs @ drop (off + length bs) m)) = bs"
  by simp

lemma take_drop_write_other:
  assumes "off + length bs \<le> length m" and "p + n \<le> off \<or> off + length bs \<le> p"
  shows "take n (drop p (take off m @ bs @ drop (off + length bs) m)) = take n (drop p m)"
  using assms(2)
proof
  assume "p + n \<le> off"
  then show ?thesis using assms(1) by (simp add: take_drop min_def)
next
  assume p: "off + length bs \<le> p"
  then have "drop p (take off m @ bs @ drop (off + length bs) m) = drop p m"
    using assms(1) by (simp add: min_def)
  then show ?thesis by simp
qed

section \<open>Signed integers in a buffer\<close>

text \<open>The two's complement value of a block of bytes.\<close>

definition sdec :: "u8 list \<Rightarrow> int" where
  "sdec bs = (let v = le_int bs; m = 256 ^ length bs in if m \<le> 2 * v then v - m else v)"

lemma sdec_bounds: "bs \<noteq> [] \<Longrightarrow> - (256 ^ length bs) \<le> 2 * sdec bs \<and> 2 * sdec bs < 256 ^ length bs"
  using le_int_bounds [of bs] by (auto simp: sdec_def Let_def)

lemma sdec_le_bytes:
  assumes "- (256 ^ n) \<le> 2 * v" and "2 * v < 256 ^ n"
  shows "sdec (le_bytes n v) = v"
proof (cases "0 \<le> v")
  case True
  then have "v mod 256 ^ n = v" using assms by simp
  then show ?thesis using assms by (simp add: sdec_def le_int_le_bytes Let_def)
next
  case False
  then have "v mod 256 ^ n = v + 256 ^ n"
    using assms by (intro int_mod_pos_eq [of v "256 ^ n" "-1"]) auto
  then show ?thesis using assms by (simp add: sdec_def le_int_le_bytes Let_def)
qed

section \<open>Byte reversal (endianconv.c)\<close>

definition swap_bytes :: "nat \<Rightarrow> nat \<Rightarrow> u8 list \<Rightarrow> u8 list option" where
  "swap_bytes i j x = do {
     t \<leftarrow> nth_opt x i;
     y \<leftarrow> nth_opt x j;
     x \<leftarrow> upd_opt x i y;
     upd_opt x j t
   }"

definition memrev16 :: "u8 list \<Rightarrow> u8 list option" where
  "memrev16 x = swap_bytes 0 1 x"

definition memrev32 :: "u8 list \<Rightarrow> u8 list option" where
  "memrev32 x = do { x \<leftarrow> swap_bytes 0 3 x; swap_bytes 1 2 x }"

definition memrev64 :: "u8 list \<Rightarrow> u8 list option" where
  "memrev64 x = do {
     x \<leftarrow> swap_bytes 0 7 x;
     x \<leftarrow> swap_bytes 1 6 x;
     x \<leftarrow> swap_bytes 2 5 x;
     swap_bytes 3 4 x
   }"

definition intrev16 :: "u16 \<Rightarrow> u16 option" where
  "intrev16 v = map_option (word_of_int \<circ> le_int) (memrev16 (le_bytes 2 (uint v)))"

definition intrev32 :: "u32 \<Rightarrow> u32 option" where
  "intrev32 v = map_option (word_of_int \<circ> le_int) (memrev32 (le_bytes 4 (uint v)))"

definition intrev64 :: "u64 \<Rightarrow> u64 option" where
  "intrev64 v = map_option (word_of_int \<circ> le_int) (memrev64 (le_bytes 8 (uint v)))"

lemma swap_bytes_Some [simp]:
  "i < length x \<Longrightarrow> j < length x \<Longrightarrow> swap_bytes i j x = Some (x[i := x ! j, j := x ! i])"
  by (simp add: swap_bytes_def)

lemma memrev16_rev: "memrev16 ([a, b] @ xs) = Some ([b, a] @ xs)"
  by (simp add: memrev16_def)

lemma memrev32_rev: "memrev32 ([a, b, c, d] @ xs) = Some ([d, c, b, a] @ xs)"
  by (simp add: memrev32_def)

lemma memrev64_rev:
  "memrev64 ([a, b, c, d, e, f, g, h] @ xs) = Some ([h, g, f, e, d, c, b, a] @ xs)"
  by (simp add: memrev64_def)

lemma list_of_length:
  "length xs = 2 \<Longrightarrow> \<exists>a b. xs = [a, b]"
  "length xs = 4 \<Longrightarrow> \<exists>a b c d. xs = [a, b, c, d]"
  "length xs = 8 \<Longrightarrow> \<exists>a b c d e f g h. xs = [a, b, c, d, e, f, g, h]"
  by (auto simp: numeral_eq_Suc length_Suc_conv)

lemma memrev_eq_rev:
  "length xs = 2 \<Longrightarrow> memrev16 xs = Some (rev xs)"
  "length xs = 4 \<Longrightarrow> memrev32 xs = Some (rev xs)"
  "length xs = 8 \<Longrightarrow> memrev64 xs = Some (rev xs)"
  using list_of_length(1) [of xs] memrev16_rev [of _ _ "[]"] apply fastforce
  using list_of_length(2) [of xs] memrev32_rev [of _ _ _ _ "[]"] apply fastforce
  using list_of_length(3) [of xs] memrev64_rev [of _ _ _ _ _ _ _ _ "[]"] by fastforce

lemma intrev_eq:
  "intrev16 v = Some (word_of_int (le_int (rev (le_bytes 2 (uint v)))))"
  "intrev32 w = Some (word_of_int (le_int (rev (le_bytes 4 (uint w)))))"
  "intrev64 x = Some (word_of_int (le_int (rev (le_bytes 8 (uint x)))))"
  by (simp_all add: intrev16_def intrev32_def intrev64_def memrev_eq_rev)

lemma le_bytes_word:
  assumes "length bs = n" and "LENGTH('a::len) = 8 * n"
  shows "le_bytes n (uint (word_of_int (le_int bs) :: 'a word)) = bs"
proof -
  have "(256 :: int) ^ n = 2 ^ LENGTH('a)" using assms(2) by (simp add: power_mult)
  then have "uint (word_of_int (le_int bs) :: 'a word) = le_int bs"
    using le_int_bounds [of bs] assms(1) by (simp add: unsigned_of_int take_bit_int_eq_self)
  then show ?thesis using le_bytes_le_int [of bs] assms(1) by simp
qed

lemma word_le_bytes:
  assumes "LENGTH('a::len) = 8 * n"
  shows "word_of_int (le_int (le_bytes n (uint (x :: 'a word)))) = x"
proof -
  have "(256 :: int) ^ n = 2 ^ LENGTH('a)" using assms by (simp add: power_mult)
  then show ?thesis by (simp add: le_int_le_bytes)
qed

lemma intrev_involution:
  "Option.bind (intrev16 v) intrev16 = Some v"
  "Option.bind (intrev32 w) intrev32 = Some w"
  "Option.bind (intrev64 x) intrev64 = Some x"
  by (simp_all add: intrev_eq le_bytes_word word_le_bytes)

end
