(* ===== verification/Hashing.thy ===== *)
theory Hashing
  imports Bytes
begin

text \<open>
  The hash functions of the stores: the integer mix, MurmurHash2 and the case-insensitive hash of
  \<^verbatim>\<open>redis/redis/src/dict.c\<close>, and MurmurHash3 of \<^verbatim>\<open>memcached/memcached/murmur3_hash.c\<close>.
  A key is the list of its bytes, read little-endian four at a time.  \<open>block_hash\<close> is
  the contract both Murmur functions meet: each step of the loop is injective in the state and in
  the block.
\<close>

section \<open>Injective word operations\<close>

lemma odd_mult_inject:
  fixes x y c d :: "'a::len word"
  assumes "c * d = 1" and "x * c = y * c"
  shows "x = y"
proof -
  have "x * (c * d) = y * (c * d)" using assms(2) by (simp add: mult.assoc [symmetric])
  then show ?thesis using assms(1) by simp
qed

lemma xor_shift_inject:
  fixes x y :: "'a::len word"
  assumes "x XOR drop_bit n x = y XOR drop_bit n y" and "0 < n"
  shows "x = y"
proof -
  let ?z = "x XOR y"
  have "?z XOR drop_bit n ?z = (x XOR drop_bit n x) XOR (y XOR drop_bit n y)"
    by (simp add: drop_bit_xor xor.assoc xor.left_commute)
  with assms(1) have "?z XOR drop_bit n ?z = drop_bit n ?z XOR drop_bit n ?z" by simp
  then have z: "drop_bit n ?z = ?z" by (simp only: xor_inject)
  have "\<not> bit ?z m" for m
  proof (induction "LENGTH('a) - m" arbitrary: m rule: less_induct)
    case less
    show ?case
    proof (cases "m < LENGTH('a)")
      case True
      then have "\<not> bit ?z (n + m)" using less [of "n + m"] assms(2) by simp
      then show ?thesis using z by (metis bit_drop_bit_eq comp_apply)
    next
      case False
      then show ?thesis using bit_imp_le_length by blast
    qed
  qed
  then have "?z = y XOR y" by (simp add: bit_eq_iff)
  then show ?thesis by (simp only: xor_inject)
qed

section \<open>The integer mix of dict.c\<close>

definition dictIntHashFunction :: "u32 \<Rightarrow> u32" where
  "dictIntHashFunction key =
    (let key = key + NOT (push_bit 15 key);
         key = key XOR drop_bit 10 key;
         key = key + push_bit 3 key;
         key = key XOR drop_bit 6 key;
         key = key + NOT (push_bit 11 key);
         key = key XOR drop_bit 16 key
     in key)"

lemma add_not_shift_inject:
  fixes x y d :: u32
  assumes "x + NOT (push_bit n x) = y + NOT (push_bit n y)" and "(1 - 2 ^ n) * d = 1"
  shows "x = y"
proof (rule odd_mult_inject [OF assms(2)])
  have "z + NOT (push_bit n z) = z * (1 - 2 ^ n) - 1" for z :: u32
    by (simp add: not_eq_complement push_bit_eq_mult algebra_simps)
  with assms(1) show "x * (1 - 2 ^ n) = y * (1 - 2 ^ n)" by simp
qed

lemma add_shift_inject:
  fixes x y d :: u32
  assumes "x + push_bit n x = y + push_bit n y" and "(1 + 2 ^ n) * d = 1"
  shows "x = y"
  by (rule odd_mult_inject [OF assms(2)]) (use assms(1) in \<open>simp add: push_bit_eq_mult algebra_simps\<close>)

lemma dictIntHashFunction_inject:
  assumes "dictIntHashFunction x = dictIntHashFunction y"
  shows "x = y"
proof -
  have 1: "(1 - 2 ^ 15) * 0x40008001 = (1 :: u32)" by simp
  have 2: "(1 + 2 ^ 3) * 954437177 = (1 :: u32)" by simp
  have 3: "(1 - 2 ^ 11) * 0x00400801 = (1 :: u32)" by simp
  from assms show ?thesis
    unfolding dictIntHashFunction_def Let_def
    apply -
    apply (drule xor_shift_inject, simp)
    apply (drule add_not_shift_inject [OF _ 3])
    apply (drule xor_shift_inject, simp)
    apply (drule add_shift_inject [OF _ 2])
    apply (drule xor_shift_inject, simp)
    by (drule add_not_shift_inject [OF _ 1])
qed

section \<open>Hashing by blocks of four bytes\<close>

definition le32 :: "u8 list \<Rightarrow> u32" where
  "le32 bs = word_of_int (le_int bs)"

text \<open>
  The loop over whole blocks, with the block step as an argument: it returns the state and the
  remaining zero to three bytes.
\<close>

fun hash_blocks :: "(u32 \<Rightarrow> u32 \<Rightarrow> u32) \<Rightarrow> u32 \<Rightarrow> u8 list \<Rightarrow> u32 \<times> u8 list" where
  "hash_blocks step h (a # b # c # d # rest) = hash_blocks step (step h (le32 [a, b, c, d])) rest"
| "hash_blocks step h rest = (h, rest)"

text \<open>Two keys of one length that differ inside a single aligned group of four bytes only.\<close>

definition differ_in_block :: "u8 list \<Rightarrow> u8 list \<Rightarrow> bool" where
  "differ_in_block xs ys \<longleftrightarrow> length xs = length ys \<and> xs \<noteq> ys \<and>
     (\<exists>i\<le>length xs. \<forall>j<length xs. j div 4 \<noteq> i \<longrightarrow> xs ! j = ys ! j)"

lemma le_int_less_32: "length zs \<le> 4 \<Longrightarrow> le_int zs < 2 ^ 32"
proof -
  assume "length zs \<le> 4"
  then have "(256 :: int) ^ length zs \<le> 256 ^ 4" by (rule power_increasing) simp
  then show ?thesis using le_int_bounds [of zs] by simp
qed

lemma uint_le32: "length zs \<le> 4 \<Longrightarrow> uint (le32 zs) = le_int zs"
  using le_int_less_32 [of zs] le_int_bounds [of zs]
  by (simp add: le32_def unsigned_of_int take_bit_int_eq_self)

lemma le32_inject:
  "length xs = length ys \<Longrightarrow> length ys \<le> 4 \<Longrightarrow> le32 xs = le32 ys \<longleftrightarrow> xs = ys"
  using uint_le32 [of xs] uint_le32 [of ys] le_int_inject [of xs ys] by auto

lemma list4_induct [case_names short block]:
  assumes "\<And>xs. length xs < 4 \<Longrightarrow> P xs"
    and "\<And>a b c d xs. P xs \<Longrightarrow> P (a # b # c # d # xs)"
  shows "P xs"
proof (induction xs rule: length_induct)
  case (1 xs)
  show ?case
  proof (cases "length xs < 4")
    case False
    then obtain a b c d ys where "xs = a # b # c # d # ys"
      by (auto simp: not_less numeral_eq_Suc Suc_le_length_iff)
    then show ?thesis using 1 assms(2) by simp
  qed (rule assms(1))
qed

lemma hash_blocks_short: "length xs < 4 \<Longrightarrow> hash_blocks step h xs = (h, xs)"
  by (cases "(step, h, xs)" rule: hash_blocks.cases) auto

locale block_hash =
  fixes step :: "u32 \<Rightarrow> u32 \<Rightarrow> u32" and fin :: "u32 \<Rightarrow> u8 list \<Rightarrow> u32"
  assumes inj_state: "step h k = step h' k \<Longrightarrow> h = h'"
    and inj_block: "step h k = step h k' \<Longrightarrow> k = k'"
    and inj_fin_state: "fin h t = fin h' t \<Longrightarrow> h = h'"
    and inj_fin_tail: "length t = length t' \<Longrightarrow> length t' < 4 \<Longrightarrow> fin h t = fin h t' \<Longrightarrow> t = t'"
begin

lemma blocks_state:
  "snd (hash_blocks step h xs) = snd (hash_blocks step h' xs) \<and>
   (fst (hash_blocks step h xs) = fst (hash_blocks step h' xs) \<longrightarrow> h = h')"
proof (induction xs arbitrary: h h' rule: list4_induct)
  case (short xs)
  then show ?case by (simp add: hash_blocks_short)
next
  case (block a b c d xs)
  let ?k = "le32 [a, b, c, d]"
  show ?case using block [of "step h ?k" "step h' ?k"] inj_state [of h ?k h'] by auto
qed

lemma blocks_rest: "length xs = length ys \<Longrightarrow>
  length (snd (hash_blocks step h xs)) = length (snd (hash_blocks step h' ys)) \<and>
  length (snd (hash_blocks step h' ys)) < 4"
proof (induction xs arbitrary: ys h h' rule: list4_induct)
  case (short xs)
  then show ?case by (simp add: hash_blocks_short)
next
  case (block a b c d xs)
  then obtain a' b' c' d' ys' where "ys = a' # b' # c' # d' # ys'" "length ys' = length xs"
    by (auto simp: length_Suc_conv Suc_length_conv)
  with block.IH show ?case by simp
qed

lemma blocks_differ:
  "length xs = length ys \<Longrightarrow> xs \<noteq> ys \<Longrightarrow> \<forall>j<length xs. j div 4 \<noteq> i \<longrightarrow> xs ! j = ys ! j \<Longrightarrow>
   (fst (hash_blocks step h xs) = fst (hash_blocks step h ys)) \<longleftrightarrow>
   (snd (hash_blocks step h xs) \<noteq> snd (hash_blocks step h ys))"
proof (induction xs arbitrary: ys h i rule: list4_induct)
  case (short xs)
  then show ?case by (simp add: hash_blocks_short)
next
  case (block a b c d xs)
  from block.prems(1) obtain a' b' c' d' ys'
    where ys: "ys = a' # b' # c' # d' # ys'" "length xs = length ys'"
    by (auto simp: length_Suc_conv Suc_length_conv)
  let ?x = "[a, b, c, d]" and ?y = "[a', b', c', d']"
  have eq: "?x ! j = ?y ! j" if "j < 4" "i \<noteq> 0" for j
    using block.prems(3) [rule_format, of j] that ys(1) nth_append [of ?x xs j] nth_append [of ?y ys' j]
    by simp
  have rest: "xs ! j = ys' ! j" if "j < length xs" "Suc (j div 4) \<noteq> i" for j
    using block.prems(3) [rule_format, of "4 + j"] that ys(1)
      nth_append_length_plus [of ?x xs j] nth_append_length_plus [of ?y ys' j] by simp
  show ?case
  proof (cases "?x = ?y")
    case True
    with block.prems(2) ys(1) have "xs \<noteq> ys'" by simp
    moreover have "i \<noteq> 0"
    proof
      assume "i = 0"
      with rest have "xs = ys'" using ys(2) by (intro nth_equalityI) auto
      with \<open>xs \<noteq> ys'\<close> show False by simp
    qed
    ultimately show ?thesis
      using block.IH [of ys' "i - 1" "step h (le32 ?x)"] True ys rest by auto
  next
    case False
    then have "i = 0" using eq nth_equalityI [of ?x ?y] by force
    with rest have "xs = ys'" using ys(2) by (intro nth_equalityI) auto
    moreover have "step h (le32 ?x) \<noteq> step h (le32 ?y)"
      using False inj_block le32_inject [of ?x ?y] by auto
    ultimately show ?thesis
      using blocks_state [of "step h (le32 ?x)" xs "step h (le32 ?y)"] ys(1) by auto
  qed
qed

theorem differ_detected:
  assumes "differ_in_block xs ys"
  shows "(case hash_blocks step h xs of (h, t) \<Rightarrow> fin h t) \<noteq>
    (case hash_blocks step h ys of (h, t) \<Rightarrow> fin h t)"
proof -
  from assms obtain i where i: "length xs = length ys" "xs \<noteq> ys"
    "\<forall>j<length xs. j div 4 \<noteq> i \<longrightarrow> xs ! j = ys ! j"
    by (auto simp: differ_in_block_def)
  then show ?thesis
    using blocks_differ [OF i, of h] blocks_rest [OF i(1), of h h]
    by (auto simp: split_beta dest: inj_fin_state inj_fin_tail)
qed

end

section \<open>MurmurHash2 and the case-insensitive hash of dict.c\<close>

definition mm2_m :: u32 where "mm2_m = 0x5bd1e995"

definition mm2_step :: "u32 \<Rightarrow> u32 \<Rightarrow> u32" where
  "mm2_step h k =
    (let k = k * mm2_m;
         k = k XOR drop_bit 24 k;
         k = k * mm2_m
     in (h * mm2_m) XOR k)"

definition mm2_tail :: "u32 \<Rightarrow> u8 list \<Rightarrow> u32" where
  "mm2_tail h data = (case data of
     [d0, d1, d2] \<Rightarrow> (((h XOR push_bit 16 (ucast d2)) XOR push_bit 8 (ucast d1)) XOR ucast d0) * mm2_m
   | [d0, d1] \<Rightarrow> ((h XOR push_bit 8 (ucast d1)) XOR ucast d0) * mm2_m
   | [d0] \<Rightarrow> (h XOR ucast d0) * mm2_m
   | _ \<Rightarrow> h)"

definition mm2_final :: "u32 \<Rightarrow> u8 list \<Rightarrow> u32" where
  "mm2_final h data =
    (let h = mm2_tail h data;
         h = h XOR drop_bit 13 h;
         h = h * mm2_m
     in h XOR drop_bit 15 h)"

definition dictGenHashFunction :: "u32 \<Rightarrow> u8 list \<Rightarrow> u32" where
  "dictGenHashFunction seed key =
    (case hash_blocks mm2_step (seed XOR word_of_nat (length key)) key of
       (h, rest) \<Rightarrow> mm2_final h rest)"

fun case_hash_loop :: "u32 \<Rightarrow> u8 list \<Rightarrow> u32" where
  "case_hash_loop h [] = h"
| "case_hash_loop h (c # cs) = case_hash_loop ((push_bit 5 h + h) + ucast (tolower c)) cs"

definition dictGenCaseHashFunction :: "u32 \<Rightarrow> u8 list \<Rightarrow> u32" where
  "dictGenCaseHashFunction seed buf = case_hash_loop seed buf"

lemma mm2_mult_inject: "x * mm2_m = y * mm2_m \<Longrightarrow> x = y"
proof -
  have "mm2_m * 0xe59b19bd = 1" by (simp add: mm2_m_def)
  then show "x * mm2_m = y * mm2_m \<Longrightarrow> x = y" by (rule odd_mult_inject)
qed

lemma bit_ucast_byte: "bit (ucast (a :: u8) :: u32) m \<Longrightarrow> m < 8"
  using bit_imp_le_length [of a m] by (auto simp: bit_simps)

lemma le32_xor:
  "le32 [a] = ucast a"
  "le32 [a, b] = push_bit 8 (ucast b) XOR ucast a"
  "le32 [a, b, c] = (push_bit 16 (ucast c) XOR push_bit 8 (ucast b)) XOR ucast a"
proof -
  show "le32 [a] = ucast a" by (simp add: le32_def)
  have two: "push_bit 8 (ucast y) + ucast x = (push_bit 8 (ucast y) XOR ucast x :: u32)" for x y :: u8
    by (rule shift_add_xor) (rule bit_ucast_byte)
  then show "le32 [a, b] = push_bit 8 (ucast b) XOR ucast a"
    by (simp add: le32_def push_bit_eq_mult algebra_simps)
  have "bit (push_bit 8 (ucast b) XOR ucast a :: u32) m \<Longrightarrow> m < 16" for m
    using bit_ucast_byte [of a m] bit_ucast_byte [of b "m - 8"] by (auto simp: bit_xor_iff bit_push_bit_iff)
  then have "push_bit 16 (ucast c) + (push_bit 8 (ucast b) XOR ucast a) =
      (push_bit 16 (ucast c) XOR (push_bit 8 (ucast b) XOR ucast a) :: u32)"
    by (rule shift_add_xor)
  moreover have "le32 [a, b, c] = push_bit 16 (ucast c) + (push_bit 8 (ucast b) + ucast a)"
    by (simp add: le32_def push_bit_eq_mult algebra_simps)
  ultimately show "le32 [a, b, c] = (push_bit 16 (ucast c) XOR push_bit 8 (ucast b)) XOR ucast a"
    unfolding two xor.assoc by simp
qed

lemma mm2_tail_eq:
  "length data < 4 \<Longrightarrow> mm2_tail h data = (if data = [] then h else (h XOR le32 data) * mm2_m)"
  by (auto simp: mm2_tail_def le32_xor xor.assoc split: list.splits)

interpretation mm2: block_hash mm2_step mm2_final
proof
  fix h h' k k' :: u32 and t t' :: "u8 list"
  show "h = h'" if "mm2_step h k = mm2_step h' k"
    using that mm2_mult_inject [of h h'] unfolding mm2_step_def Let_def by (simp only: xor_inject)
  show "k = k'" if "mm2_step h k = mm2_step h k'"
    using that unfolding mm2_step_def Let_def xor_inject'
    by (blast dest: mm2_mult_inject xor_shift_inject [OF _ zero_less_numeral])
  have fin: "mm2_tail h t = mm2_tail h' t'" if "mm2_final h t = mm2_final h' t'" for h h' t t'
    using that unfolding mm2_final_def Let_def
    by (blast dest: mm2_mult_inject xor_shift_inject [OF _ zero_less_numeral])
  show "h = h'" if "mm2_final h t = mm2_final h' t"
    using fin [OF that] by (auto simp: mm2_tail_def xor_inject dest!: mm2_mult_inject split: list.splits)
  show "t = t'" if "length t = length t'" "length t' < 4" "mm2_final h t = mm2_final h t'"
    using fin [OF that(3)] that(1,2) le32_inject [of t t']
    by (auto simp: mm2_tail_eq xor_inject' dest!: mm2_mult_inject split: if_splits)
qed

section \<open>MurmurHash3 of memcached\<close>

definition rotl32 :: "u32 \<Rightarrow> nat \<Rightarrow> u32" where
  "rotl32 x r = push_bit r x OR drop_bit (32 - r) x"

definition fmix32 :: "u32 \<Rightarrow> u32" where
  "fmix32 h =
    (let h = h XOR drop_bit 16 h;
         h = h * 0x85ebca6b;
         h = h XOR drop_bit 13 h;
         h = h * 0xc2b2ae35
     in h XOR drop_bit 16 h)"

definition mm3_scramble :: "u32 \<Rightarrow> u32" where
  "mm3_scramble k1 = rotl32 (k1 * 0xcc9e2d51) 15 * 0x1b873593"

definition mm3_step :: "u32 \<Rightarrow> u32 \<Rightarrow> u32" where
  "mm3_step h1 k1 = rotl32 (h1 XOR mm3_scramble k1) 13 * 5 + 0xe6546b64"

definition mm3_tail :: "u32 \<Rightarrow> u8 list \<Rightarrow> u32" where
  "mm3_tail h1 tail = (case tail of
     [t0, t1, t2] \<Rightarrow>
       h1 XOR mm3_scramble (((0 XOR push_bit 16 (ucast t2)) XOR push_bit 8 (ucast t1)) XOR ucast t0)
   | [t0, t1] \<Rightarrow> h1 XOR mm3_scramble ((0 XOR push_bit 8 (ucast t1)) XOR ucast t0)
   | [t0] \<Rightarrow> h1 XOR mm3_scramble (0 XOR ucast t0)
   | _ \<Rightarrow> h1)"

definition mm3_final :: "nat \<Rightarrow> u32 \<Rightarrow> u8 list \<Rightarrow> u32" where
  "mm3_final len h1 tail = fmix32 (mm3_tail h1 tail XOR word_of_nat len)"

definition MurmurHash3_x86_32 :: "u8 list \<Rightarrow> u32" where
  "MurmurHash3_x86_32 key =
    (case hash_blocks mm3_step 0 key of (h1, tail) \<Rightarrow> mm3_final (length key) h1 tail)"

lemma rotl32_inject:
  assumes "rotl32 x r = rotl32 y r" and "0 < r" and "r < 32"
  shows "x = y"
proof (rule bit_eqI)
  fix n
  assume "possible_bit TYPE(u32) n"
  then have n: "n < 32" by (simp add: possible_bit_def)
  have "bit (rotl32 z r) ((n + r) mod 32) = bit z n" for z
  proof (cases "n + r < 32")
    case True
    then show ?thesis using assms(2,3) n
      by (auto simp: rotl32_def bit_simps dest: bit_imp_le_length)
  next
    case False
    then have "(n + r) mod 32 = n + r - 32" using n assms(3) by (simp add: mod_if)
    with False show ?thesis using assms(2,3) n
      by (auto simp: rotl32_def bit_simps dest: bit_imp_le_length)
  qed
  then show "bit x n = bit y n" using assms(1) by metis
qed

lemma fmix32_inject: "fmix32 x = fmix32 y \<Longrightarrow> x = y"
proof -
  have 1: "0x85ebca6b * 0xa5cb9243 = (1 :: u32)" by simp
  have 2: "0xc2b2ae35 * 0x7ed1b41d = (1 :: u32)" by simp
  show "fmix32 x = fmix32 y \<Longrightarrow> x = y"
    unfolding fmix32_def Let_def
    by (blast dest: xor_shift_inject [OF _ zero_less_numeral] odd_mult_inject [OF 1] odd_mult_inject [OF 2])
qed

lemma mm3_scramble_inject: "mm3_scramble x = mm3_scramble y \<Longrightarrow> x = y"
proof -
  have 1: "0xcc9e2d51 * 0xdee13bb1 = (1 :: u32)" by simp
  have 2: "0x1b873593 * 0x56ed309b = (1 :: u32)" by simp
  show "mm3_scramble x = mm3_scramble y \<Longrightarrow> x = y"
    unfolding mm3_scramble_def
    by (drule odd_mult_inject [OF 2], drule rotl32_inject) (simp, simp, erule odd_mult_inject [OF 1])
qed

lemma mm3_tail_eq:
  "length data < 4 \<Longrightarrow> mm3_tail h data = (if data = [] then h else h XOR mm3_scramble (le32 data))"
  by (auto simp: mm3_tail_def le32_xor split: list.splits)

interpretation mm3: block_hash mm3_step "mm3_final len" for len
proof
  fix h h' k k' :: u32 and t t' :: "u8 list"
  have 5: "5 * 0xcccccccd = (1 :: u32)" by simp
  have rot: "h = h'" if "rotl32 h 13 * 5 + 0xe6546b64 = rotl32 h' 13 * 5 + 0xe6546b64" for h h'
    using that odd_mult_inject [OF 5, of "rotl32 h 13" "rotl32 h' 13"] rotl32_inject [of h 13 h'] by simp
  show "h = h'" if "mm3_step h k = mm3_step h' k"
    using rot [OF that [unfolded mm3_step_def]] by (simp add: xor_inject)
  show "k = k'" if "mm3_step h k = mm3_step h k'"
    using rot [OF that [unfolded mm3_step_def]] mm3_scramble_inject by (simp add: xor_inject')
  have fin: "mm3_tail h t = mm3_tail h' t'" if "mm3_final len h t = mm3_final len h' t'" for h h' t t'
    using that unfolding mm3_final_def by (auto dest!: fmix32_inject simp: xor_inject)
  show "h = h'" if "mm3_final len h t = mm3_final len h' t"
    using fin [OF that] by (auto simp: mm3_tail_def xor_inject split: list.splits)
  show "t = t'" if "length t = length t'" "length t' < 4" "mm3_final len h t = mm3_final len h t'"
    using fin [OF that(3)] that(1,2) le32_inject [of t t']
    by (cases t; cases t') (auto simp: mm3_tail_eq xor_inject' dest!: mm3_scramble_inject)
qed

section \<open>Properties\<close>

text \<open>
  Thomas Wang's mix, which the redis dict types use for integer keys, is a permutation of the 32-bit
  integers: no two integer keys have the same hash.
\<close>

theorem dictIntHashFunction_bij: "bij dictIntHashFunction"
proof -
  have "inj dictIntHashFunction" using dictIntHashFunction_inject by (rule injI)
  then show ?thesis using finite_UNIV_inj_surj [OF finite, of dictIntHashFunction] by (simp add: bij_def)
qed

text \<open>
  C31. MurmurHash2 of the dictionaries tells apart any two keys of one length that differ inside one
  aligned group of four bytes, the trailing one to three bytes being such a group.
\<close>

theorem dictGenHashFunction_block:
  assumes "differ_in_block xs ys"
  shows "dictGenHashFunction seed xs \<noteq> dictGenHashFunction seed ys"
  using mm2.differ_detected [OF assms] assms
  by (simp add: dictGenHashFunction_def differ_in_block_def)

theorem dictGenHashFunction_block_witness:
  "dictGenHashFunction 5381 [1, 2, 3, 4, 5, 6] \<noteq> dictGenHashFunction 5381 [1, 2, 3, 4, 7, 6]"
proof (rule dictGenHashFunction_block)
  show "differ_in_block [1, 2, 3, 4, 5, 6] [1, 2, 3, 4, 7, 6]"
    by (auto simp: differ_in_block_def less_Suc_eq intro!: exI [of _ 1])
qed

text \<open>
  MurmurHash3 of memcached has the same guarantee.
\<close>

theorem MurmurHash3_block:
  assumes "differ_in_block xs ys"
  shows "MurmurHash3_x86_32 xs \<noteq> MurmurHash3_x86_32 ys"
  using mm3.differ_detected [OF assms] assms
  by (simp add: MurmurHash3_x86_32_def differ_in_block_def)

theorem MurmurHash3_block_witness:
  "MurmurHash3_x86_32 [1, 2, 3, 4, 5] \<noteq> MurmurHash3_x86_32 [1, 2, 9, 8, 5]"
proof (rule MurmurHash3_block)
  show "differ_in_block [1, 2, 3, 4, 5] [1, 2, 9, 8, 5]"
    by (auto simp: differ_in_block_def less_Suc_eq intro!: exI [of _ 0])
qed

end
