(* ===== verification/Jenkins.thy ===== *)
theory Jenkins
  imports Hashing
begin

text \<open>
  Bob Jenkins' \<^verbatim>\<open>lookup3\<close> hash of \<^verbatim>\<open>memcached/memcached/jenkins_hash.c\<close>, in its
  little-endian build.  The code reads the key in 32-bit, 16-bit or 8-bit units according to the
  alignment of its address, and the 32-bit variant reads past the end of the key and masks
  the excess.  Memory is a function from addresses to bytes, so these reads are explicit.
\<close>

section \<open>The mixing macros\<close>

definition jrot :: "u32 \<Rightarrow> nat \<Rightarrow> u32" where
  "jrot x k = push_bit k x XOR drop_bit (32 - k) x"

type_synonym jstate = "u32 \<times> u32 \<times> u32"

definition jmix :: "jstate \<Rightarrow> jstate" where
  "jmix s = (case s of (a, b, c) \<Rightarrow>
    let a = a - c; a = a XOR jrot c 4; c = c + b;
        b = b - a; b = b XOR jrot a 6; a = a + c;
        c = c - b; c = c XOR jrot b 8; b = b + a;
        a = a - c; a = a XOR jrot c 16; c = c + b;
        b = b - a; b = b XOR jrot a 19; a = a + c;
        c = c - b; c = c XOR jrot b 4; b = b + a
    in (a, b, c))"

definition jfinal :: "jstate \<Rightarrow> jstate" where
  "jfinal s = (case s of (a, b, c) \<Rightarrow>
    let c = c XOR b; c = c - jrot b 14;
        a = a XOR c; a = a - jrot c 11;
        b = b XOR a; b = b - jrot a 25;
        c = c XOR b; c = c - jrot b 16;
        a = a XOR c; a = a - jrot c 4;
        b = b XOR a; b = b - jrot a 14;
        c = c XOR b; c = c - jrot b 24
    in (a, b, c))"

section \<open>Reading the key\<close>

definition rd32 :: "(nat \<Rightarrow> u8) \<Rightarrow> nat \<Rightarrow> u32" where
  "rd32 mem p = le32 [mem p, mem (p + 1), mem (p + 2), mem (p + 3)]"

definition rd16 :: "(nat \<Rightarrow> u8) \<Rightarrow> nat \<Rightarrow> u32" where
  "rd16 mem p = le32 [mem p, mem (p + 1)]"

definition rd8 :: "(nat \<Rightarrow> u8) \<Rightarrow> nat \<Rightarrow> u32" where
  "rd8 mem p = ucast (mem p)"

text \<open>The loop over blocks of twelve bytes, by the way a block is added to the state.\<close>

function blocks12 ::
  "(nat \<Rightarrow> jstate \<Rightarrow> jstate) \<Rightarrow> nat \<Rightarrow> nat \<Rightarrow> jstate \<Rightarrow> nat \<times> nat \<times> jstate" where
  "blocks12 add k len s =
     (if 12 < len then blocks12 add (k + 12) (len - 12) (jmix (add k s)) else (k, len, s))"
  by pat_completeness auto
termination by (relation "measure (\<lambda>(add, k, len, s). len)") auto

declare blocks12.simps [simp del]

definition add32 :: "(nat \<Rightarrow> u8) \<Rightarrow> nat \<Rightarrow> jstate \<Rightarrow> jstate" where
  "add32 mem k s = (case s of (a, b, c) \<Rightarrow>
     (a + rd32 mem k, b + rd32 mem (k + 4), c + rd32 mem (k + 8)))"

definition tail32 :: "(nat \<Rightarrow> u8) \<Rightarrow> nat \<Rightarrow> nat \<Rightarrow> jstate \<Rightarrow> jstate" where
  "tail32 mem k n s = (case s of (a, b, c) \<Rightarrow>
     let k0 = rd32 mem k; k1 = rd32 mem (k + 4); k2 = rd32 mem (k + 8) in
     if n = 12 then (a + k0, b + k1, c + k2)
     else if n = 11 then (a + k0, b + k1, c + (k2 AND 0xffffff))
     else if n = 10 then (a + k0, b + k1, c + (k2 AND 0xffff))
     else if n = 9 then (a + k0, b + k1, c + (k2 AND 0xff))
     else if n = 8 then (a + k0, b + k1, c)
     else if n = 7 then (a + k0, b + (k1 AND 0xffffff), c)
     else if n = 6 then (a + k0, b + (k1 AND 0xffff), c)
     else if n = 5 then (a + k0, b + (k1 AND 0xff), c)
     else if n = 4 then (a + k0, b, c)
     else if n = 3 then (a + (k0 AND 0xffffff), b, c)
     else if n = 2 then (a + (k0 AND 0xffff), b, c)
     else if n = 1 then (a + (k0 AND 0xff), b, c)
     else (a, b, c))"

definition add16 :: "(nat \<Rightarrow> u8) \<Rightarrow> nat \<Rightarrow> jstate \<Rightarrow> jstate" where
  "add16 mem k s = (case s of (a, b, c) \<Rightarrow>
     (a + (rd16 mem k + push_bit 16 (rd16 mem (k + 2))),
      b + (rd16 mem (k + 4) + push_bit 16 (rd16 mem (k + 6))),
      c + (rd16 mem (k + 8) + push_bit 16 (rd16 mem (k + 10)))))"

definition tail16 :: "(nat \<Rightarrow> u8) \<Rightarrow> nat \<Rightarrow> nat \<Rightarrow> jstate \<Rightarrow> jstate" where
  "tail16 mem k n s = (case s of (a, b, c) \<Rightarrow>
     let k0 = rd16 mem k + push_bit 16 (rd16 mem (k + 2));
         k1 = rd16 mem (k + 4) + push_bit 16 (rd16 mem (k + 6)) in
     if n = 12 then (a + k0, b + k1, c + (rd16 mem (k + 8) + push_bit 16 (rd16 mem (k + 10))))
     else if n = 11 then (a + k0, b + k1, c + push_bit 16 (rd8 mem (k + 10)) + rd16 mem (k + 8))
     else if n = 10 then (a + k0, b + k1, c + rd16 mem (k + 8))
     else if n = 9 then (a + k0, b + k1, c + rd8 mem (k + 8))
     else if n = 8 then (a + k0, b + k1, c)
     else if n = 7 then (a + k0, b + push_bit 16 (rd8 mem (k + 6)) + rd16 mem (k + 4), c)
     else if n = 6 then (a + k0, b + rd16 mem (k + 4), c)
     else if n = 5 then (a + k0, b + rd8 mem (k + 4), c)
     else if n = 4 then (a + k0, b, c)
     else if n = 3 then (a + push_bit 16 (rd8 mem (k + 2)) + rd16 mem k, b, c)
     else if n = 2 then (a + rd16 mem k, b, c)
     else if n = 1 then (a + rd8 mem k, b, c)
     else (a, b, c))"

definition add8 :: "(nat \<Rightarrow> u8) \<Rightarrow> nat \<Rightarrow> jstate \<Rightarrow> jstate" where
  "add8 mem k s = (case s of (a, b, c) \<Rightarrow>
    let a = a + rd8 mem k;
        a = a + push_bit 8 (rd8 mem (k + 1));
        a = a + push_bit 16 (rd8 mem (k + 2));
        a = a + push_bit 24 (rd8 mem (k + 3));
        b = b + rd8 mem (k + 4);
        b = b + push_bit 8 (rd8 mem (k + 5));
        b = b + push_bit 16 (rd8 mem (k + 6));
        b = b + push_bit 24 (rd8 mem (k + 7));
        c = c + rd8 mem (k + 8);
        c = c + push_bit 8 (rd8 mem (k + 9));
        c = c + push_bit 16 (rd8 mem (k + 10));
        c = c + push_bit 24 (rd8 mem (k + 11))
    in (a, b, c))"

definition tail8 :: "(nat \<Rightarrow> u8) \<Rightarrow> nat \<Rightarrow> nat \<Rightarrow> jstate \<Rightarrow> jstate" where
  "tail8 mem k n s = (case s of (a, b, c) \<Rightarrow>
    let c = (if 12 \<le> n then c + push_bit 24 (rd8 mem (k + 11)) else c);
        c = (if 11 \<le> n then c + push_bit 16 (rd8 mem (k + 10)) else c);
        c = (if 10 \<le> n then c + push_bit 8 (rd8 mem (k + 9)) else c);
        c = (if 9 \<le> n then c + rd8 mem (k + 8) else c);
        b = (if 8 \<le> n then b + push_bit 24 (rd8 mem (k + 7)) else b);
        b = (if 7 \<le> n then b + push_bit 16 (rd8 mem (k + 6)) else b);
        b = (if 6 \<le> n then b + push_bit 8 (rd8 mem (k + 5)) else b);
        b = (if 5 \<le> n then b + rd8 mem (k + 4) else b);
        a = (if 4 \<le> n then a + push_bit 24 (rd8 mem (k + 3)) else a);
        a = (if 3 \<le> n then a + push_bit 16 (rd8 mem (k + 2)) else a);
        a = (if 2 \<le> n then a + push_bit 8 (rd8 mem (k + 1)) else a);
        a = (if 1 \<le> n then a + rd8 mem k else a)
    in (a, b, c))"

definition jenkins_path ::
  "(nat \<Rightarrow> jstate \<Rightarrow> jstate) \<Rightarrow> (nat \<Rightarrow> nat \<Rightarrow> jstate \<Rightarrow> jstate) \<Rightarrow> nat \<Rightarrow> nat \<Rightarrow> u32" where
  "jenkins_path add tail key len =
    (let i = 0xdeadbeef + word_of_nat len in
     case blocks12 add key len (i, i, i) of (k, n, s) \<Rightarrow>
       if n = 0 then snd (snd s) else snd (snd (jfinal (tail k n s))))"

definition jenkins_hash :: "(nat \<Rightarrow> u8) \<Rightarrow> nat \<Rightarrow> nat \<Rightarrow> u32" where
  "jenkins_hash mem key len =
    (if key AND 3 = 0 then jenkins_path (add32 mem) (tail32 mem) key len
     else if key AND 1 = 0 then jenkins_path (add16 mem) (tail16 mem) key len
     else jenkins_path (add8 mem) (tail8 mem) key len)"

section \<open>The three ways of reading agree\<close>

lemma le32_sum:
  "le32 [a, b] = ucast a + push_bit 8 (ucast b)"
  "le32 [a, b, c] = ucast a + push_bit 8 (ucast b) + push_bit 16 (ucast c)"
  "le32 [a, b, c, d] = ucast a + push_bit 8 (ucast b) + push_bit 16 (ucast c) + push_bit 24 (ucast d)"
  by (simp_all add: le32_def push_bit_eq_mult algebra_simps)

lemma le32_mask:
  assumes "k \<le> length bs" and "length bs \<le> 4"
  shows "le32 bs AND mask (8 * k) = le32 (take k bs)"
proof -
  have "uint (le32 bs AND mask (8 * k)) = take_bit (8 * k) (le_int bs)"
    by (simp only: take_bit_eq_mask [symmetric] unsigned_take_bit_eq uint_le32 [OF assms(2)])
  also have "\<dots> = le_int bs mod 256 ^ k"
    by (simp add: take_bit_eq_mod power_mult)
  also have "\<dots> = uint (le32 (take k bs))"
    using assms by (simp add: uint_le32 le_int_take)
  finally show ?thesis by (rule unsigned_word_eqI)
qed

lemma rd32_mask:
  "rd32 mem k AND 0xff = rd8 mem k"
  "rd32 mem k AND 0xffff = rd8 mem k + push_bit 8 (rd8 mem (k + 1))"
  "rd32 mem k AND 0xffffff = rd8 mem k + push_bit 8 (rd8 mem (k + 1)) + push_bit 16 (rd8 mem (k + 2))"
  using le32_mask [of 1 "[mem k, mem (k + 1), mem (k + 2), mem (k + 3)]"]
    le32_mask [of 2 "[mem k, mem (k + 1), mem (k + 2), mem (k + 3)]"]
    le32_mask [of 3 "[mem k, mem (k + 1), mem (k + 2), mem (k + 3)]"]
  by (simp_all add: rd32_def rd8_def mask_eq_exp_minus_1 le32_sum le32_xor(1) numeral_eq_Suc)

lemma rd_sum:
  "rd16 mem k = rd8 mem k + push_bit 8 (rd8 mem (k + 1))"
  "rd32 mem k = rd8 mem k + push_bit 8 (rd8 mem (k + 1)) + push_bit 16 (rd8 mem (k + 2)) +
     push_bit 24 (rd8 mem (k + 3))"
  by (simp_all add: rd16_def rd32_def rd8_def le32_sum)

lemma add32_eq: "add32 mem = add8 mem"
  by (simp add: fun_eq_iff add32_def add8_def rd_sum algebra_simps)

lemma add16_eq: "add16 mem = add8 mem"
  by (simp add: fun_eq_iff add16_def add8_def rd_sum push_bit_add algebra_simps eval_nat_numeral)

lemma tail32_eq: "n \<noteq> 0 \<Longrightarrow> n \<le> 12 \<Longrightarrow> tail32 mem k n s = tail8 mem k n s"
  by (auto simp: tail32_def tail8_def Let_def rd32_mask split: prod.split) (simp_all add: rd_sum algebra_simps)

lemma tail16_eq: "n \<noteq> 0 \<Longrightarrow> n \<le> 12 \<Longrightarrow> tail16 mem k n s = tail8 mem k n s"
  by (auto simp: tail16_def tail8_def Let_def split: prod.split) (simp_all add: rd_sum push_bit_add algebra_simps eval_nat_numeral)

lemma blocks12_len: "blocks12 add k len s = (k', n, s') \<Longrightarrow> n \<le> 12"
proof (induction add k len s rule: blocks12.induct)
  case (1 add k len s)
  then show ?case by (cases "12 < len") (auto simp: blocks12.simps [of add k len s])
qed

lemma jenkins_path_cong:
  assumes "\<And>k n s. n \<noteq> 0 \<Longrightarrow> n \<le> 12 \<Longrightarrow> tail k n s = tail' k n s"
  shows "jenkins_path add tail key len = jenkins_path add tail' key len"
  using assms blocks12_len by (auto simp: jenkins_path_def Let_def split: prod.split)

lemma jenkins_hash_bytes: "jenkins_hash mem key len = jenkins_path (add8 mem) (tail8 mem) key len"
  unfolding jenkins_hash_def add32_eq add16_eq
  using jenkins_path_cong [OF tail32_eq] jenkins_path_cong [OF tail16_eq] by simp

section \<open>The hash depends on the key only\<close>

lemma add8_cong:
  assumes "\<And>i. i < 12 \<Longrightarrow> mem (k + i) = mem' (k' + i)"
  shows "add8 mem k s = add8 mem' k' s"
  using assms [of 0] assms [of 1] assms [of 2] assms
  by (simp add: add8_def rd8_def)

lemma tail8_cong:
  assumes "\<And>i. i < n \<Longrightarrow> mem (k + i) = mem' (k' + i)"
  shows "tail8 mem k n s = tail8 mem' k' n s"
  using assms [of 0] assms [of 1] assms [of 2] assms
  by (simp add: tail8_def rd8_def cong: if_cong)

lemma blocks12_cong:
  "(\<And>i. i < len \<Longrightarrow> mem (k + i) = mem' (k' + i)) \<Longrightarrow>
   \<exists>p p' n s'. blocks12 (add8 mem) k len s = (p, n, s') \<and> blocks12 (add8 mem') k' len s = (p', n, s') \<and>
     (\<forall>i<n. mem (p + i) = mem' (p' + i))"
proof (induction len arbitrary: k k' s rule: less_induct)
  case (less len)
  show ?case
  proof (cases "12 < len")
    case True
    have "mem (k + 12 + i) = mem' (k' + 12 + i)" if "i < len - 12" for i
      using less.prems [of "12 + i"] that by (simp add: add.assoc)
    then show ?thesis
      using less.IH [of "len - 12" "k + 12" "k' + 12" "jmix (add8 mem' k' s)"] True
        add8_cong [of mem k mem' k' s] less.prems
      by (simp add: blocks12.simps [of _ k] blocks12.simps [of _ k'])
  next
    case False
    then show ?thesis using less.prems by (simp add: blocks12.simps)
  qed
qed

section \<open>The mixing step is reversible\<close>

text \<open>\<^const>\<open>jmix\<close> is one round applied six times to rotated triples.\<close>

definition jround :: "nat \<Rightarrow> jstate \<Rightarrow> jstate" where
  "jround k s = (case s of (a, b, c) \<Rightarrow> ((a - c) XOR jrot c k, b, c + b))"

definition jcyc :: "jstate \<Rightarrow> jstate" where
  "jcyc s = (case s of (a, b, c) \<Rightarrow> (b, c, a))"

lemma jmix_rounds:
  "jmix = jcyc \<circ> jround 4 \<circ> jcyc \<circ> jround 19 \<circ> jcyc \<circ> jround 16 \<circ>
     jcyc \<circ> jround 8 \<circ> jcyc \<circ> jround 6 \<circ> jcyc \<circ> jround 4"
  by (simp add: fun_eq_iff jmix_def jround_def jcyc_def Let_def)

lemma inj_jround: "inj (jround k)"
  by (rule injI) (auto simp: jround_def xor_inject split: prod.splits)

lemma inj_jcyc: "inj jcyc"
  by (rule injI) (auto simp: jcyc_def split: prod.splits)

section \<open>Properties\<close>

text \<open>
  C30. The Jenkins hash is a function of the bytes of the key: it does not depend on the alignment of
  the key, which selects one of three reading strategies, nor on the bytes after the key, although the
  aligned strategy reads them.
\<close>

theorem jenkins_hash_key_only:
  assumes "\<And>i. i < len \<Longrightarrow> mem (key + i) = mem' (key' + i)"
  shows "jenkins_hash mem key len = jenkins_hash mem' key' len"
proof -
  obtain i :: u32 where i: "i = 0xdeadbeef + word_of_nat len" by simp
  obtain p p' n s' where "blocks12 (add8 mem) key len (i, i, i) = (p, n, s')"
    "blocks12 (add8 mem') key' len (i, i, i) = (p', n, s')" "\<forall>i<n. mem (p + i) = mem' (p' + i)"
    using blocks12_cong [of len mem key mem' key' "(i, i, i)"] assms by blast
  then show ?thesis
    using tail8_cong [of n mem p mem' p' s']
    by (simp add: jenkins_hash_bytes jenkins_path_def Let_def i)
qed

text \<open>
  The mixing step is reversible, so no information in the state is lost between blocks.
\<close>

theorem jmix_inj: "inj jmix"
  unfolding jmix_rounds by (intro inj_compose inj_jround inj_jcyc)


theorem jenkins_hash_key_only_witness:
  "jenkins_hash (\<lambda>a. word_of_nat (a - 4)) 4 5 = jenkins_hash (\<lambda>a. word_of_nat (a - 7)) 7 5"
  by (rule jenkins_hash_key_only) simp

end
