(* ===== verification/Crc.thy ===== *)
theory Crc
  imports Bytes
begin

text \<open>
  The checksums of redis: the table-driven CRC-16 of \<^verbatim>\<open>crc16.c\<close> with the key-to-slot map of
  \<^verbatim>\<open>cluster.c\<close>, and the table-driven CRC-64 of \<^verbatim>\<open>crc64.c\<close> that protects RDB files.
  Both are proved equal to the bit-by-bit division by the generator polynomial the comments name, and
  CRC-64 is proved to detect every corruption within eight consecutive bytes.
\<close>

section \<open>The tables\<close>

definition crc16tab :: "u16 list" where
  "crc16tab =
    [0x0000, 0x1021, 0x2042, 0x3063, 0x4084, 0x50a5, 0x60c6, 0x70e7, 0x8108, 0x9129,
     0xa14a, 0xb16b, 0xc18c, 0xd1ad, 0xe1ce, 0xf1ef, 0x1231, 0x0210, 0x3273, 0x2252,
     0x52b5, 0x4294, 0x72f7, 0x62d6, 0x9339, 0x8318, 0xb37b, 0xa35a, 0xd3bd, 0xc39c,
     0xf3ff, 0xe3de, 0x2462, 0x3443, 0x0420, 0x1401, 0x64e6, 0x74c7, 0x44a4, 0x5485,
     0xa56a, 0xb54b, 0x8528, 0x9509, 0xe5ee, 0xf5cf, 0xc5ac, 0xd58d, 0x3653, 0x2672,
     0x1611, 0x0630, 0x76d7, 0x66f6, 0x5695, 0x46b4, 0xb75b, 0xa77a, 0x9719, 0x8738,
     0xf7df, 0xe7fe, 0xd79d, 0xc7bc, 0x48c4, 0x58e5, 0x6886, 0x78a7, 0x0840, 0x1861,
     0x2802, 0x3823, 0xc9cc, 0xd9ed, 0xe98e, 0xf9af, 0x8948, 0x9969, 0xa90a, 0xb92b,
     0x5af5, 0x4ad4, 0x7ab7, 0x6a96, 0x1a71, 0x0a50, 0x3a33, 0x2a12, 0xdbfd, 0xcbdc,
     0xfbbf, 0xeb9e, 0x9b79, 0x8b58, 0xbb3b, 0xab1a, 0x6ca6, 0x7c87, 0x4ce4, 0x5cc5,
     0x2c22, 0x3c03, 0x0c60, 0x1c41, 0xedae, 0xfd8f, 0xcdec, 0xddcd, 0xad2a, 0xbd0b,
     0x8d68, 0x9d49, 0x7e97, 0x6eb6, 0x5ed5, 0x4ef4, 0x3e13, 0x2e32, 0x1e51, 0x0e70,
     0xff9f, 0xefbe, 0xdfdd, 0xcffc, 0xbf1b, 0xaf3a, 0x9f59, 0x8f78, 0x9188, 0x81a9,
     0xb1ca, 0xa1eb, 0xd10c, 0xc12d, 0xf14e, 0xe16f, 0x1080, 0x00a1, 0x30c2, 0x20e3,
     0x5004, 0x4025, 0x7046, 0x6067, 0x83b9, 0x9398, 0xa3fb, 0xb3da, 0xc33d, 0xd31c,
     0xe37f, 0xf35e, 0x02b1, 0x1290, 0x22f3, 0x32d2, 0x4235, 0x5214, 0x6277, 0x7256,
     0xb5ea, 0xa5cb, 0x95a8, 0x8589, 0xf56e, 0xe54f, 0xd52c, 0xc50d, 0x34e2, 0x24c3,
     0x14a0, 0x0481, 0x7466, 0x6447, 0x5424, 0x4405, 0xa7db, 0xb7fa, 0x8799, 0x97b8,
     0xe75f, 0xf77e, 0xc71d, 0xd73c, 0x26d3, 0x36f2, 0x0691, 0x16b0, 0x6657, 0x7676,
     0x4615, 0x5634, 0xd94c, 0xc96d, 0xf90e, 0xe92f, 0x99c8, 0x89e9, 0xb98a, 0xa9ab,
     0x5844, 0x4865, 0x7806, 0x6827, 0x18c0, 0x08e1, 0x3882, 0x28a3, 0xcb7d, 0xdb5c,
     0xeb3f, 0xfb1e, 0x8bf9, 0x9bd8, 0xabbb, 0xbb9a, 0x4a75, 0x5a54, 0x6a37, 0x7a16,
     0x0af1, 0x1ad0, 0x2ab3, 0x3a92, 0xfd2e, 0xed0f, 0xdd6c, 0xcd4d, 0xbdaa, 0xad8b,
     0x9de8, 0x8dc9, 0x7c26, 0x6c07, 0x5c64, 0x4c45, 0x3ca2, 0x2c83, 0x1ce0, 0x0cc1,
     0xef1f, 0xff3e, 0xcf5d, 0xdf7c, 0xaf9b, 0xbfba, 0x8fd9, 0x9ff8, 0x6e17, 0x7e36,
     0x4e55, 0x5e74, 0x2e93, 0x3eb2, 0x0ed1, 0x1ef0]"

definition crc64_tab :: "u64 list" where
  "crc64_tab =
    [0x0000000000000000, 0x7ad870c830358979, 0xf5b0e190606b12f2, 0x8f689158505e9b8b,
     0xc038e5739841b68f, 0xbae095bba8743ff6, 0x358804e3f82aa47d, 0x4f50742bc81f2d04,
     0xab28ecb46814fe75, 0xd1f09c7c5821770c, 0x5e980d24087fec87, 0x24407dec384a65fe,
     0x6b1009c7f05548fa, 0x11c8790fc060c183, 0x9ea0e857903e5a08, 0xe478989fa00bd371,
     0x7d08ff3b88be6f81, 0x07d08ff3b88be6f8, 0x88b81eabe8d57d73, 0xf2606e63d8e0f40a,
     0xbd301a4810ffd90e, 0xc7e86a8020ca5077, 0x4880fbd87094cbfc, 0x32588b1040a14285,
     0xd620138fe0aa91f4, 0xacf86347d09f188d, 0x2390f21f80c18306, 0x594882d7b0f40a7f,
     0x1618f6fc78eb277b, 0x6cc0863448deae02, 0xe3a8176c18803589, 0x997067a428b5bcf0,
     0xfa11fe77117cdf02, 0x80c98ebf2149567b, 0x0fa11fe77117cdf0, 0x75796f2f41224489,
     0x3a291b04893d698d, 0x40f16bccb908e0f4, 0xcf99fa94e9567b7f, 0xb5418a5cd963f206,
     0x513912c379682177, 0x2be1620b495da80e, 0xa489f35319033385, 0xde51839b2936bafc,
     0x9101f7b0e12997f8, 0xebd98778d11c1e81, 0x64b116208142850a, 0x1e6966e8b1770c73,
     0x8719014c99c2b083, 0xfdc17184a9f739fa, 0x72a9e0dcf9a9a271, 0x08719014c99c2b08,
     0x4721e43f0183060c, 0x3df994f731b68f75, 0xb29105af61e814fe, 0xc849756751dd9d87,
     0x2c31edf8f1d64ef6, 0x56e99d30c1e3c78f, 0xd9810c6891bd5c04, 0xa3597ca0a188d57d,
     0xec09088b6997f879, 0x96d1784359a27100, 0x19b9e91b09fcea8b, 0x636199d339c963f2,
     0xdf7adabd7a6e2d6f, 0xa5a2aa754a5ba416, 0x2aca3b2d1a053f9d, 0x50124be52a30b6e4,
     0x1f423fcee22f9be0, 0x659a4f06d21a1299, 0xeaf2de5e82448912, 0x902aae96b271006b,
     0x74523609127ad31a, 0x0e8a46c1224f5a63, 0x81e2d7997211c1e8, 0xfb3aa75142244891,
     0xb46ad37a8a3b6595, 0xceb2a3b2ba0eecec, 0x41da32eaea507767, 0x3b024222da65fe1e,
     0xa2722586f2d042ee, 0xd8aa554ec2e5cb97, 0x57c2c41692bb501c, 0x2d1ab4dea28ed965,
     0x624ac0f56a91f461, 0x1892b03d5aa47d18, 0x97fa21650afae693, 0xed2251ad3acf6fea,
     0x095ac9329ac4bc9b, 0x7382b9faaaf135e2, 0xfcea28a2faafae69, 0x8632586aca9a2710,
     0xc9622c4102850a14, 0xb3ba5c8932b0836d, 0x3cd2cdd162ee18e6, 0x460abd1952db919f,
     0x256b24ca6b12f26d, 0x5fb354025b277b14, 0xd0dbc55a0b79e09f, 0xaa03b5923b4c69e6,
     0xe553c1b9f35344e2, 0x9f8bb171c366cd9b, 0x10e3202993385610, 0x6a3b50e1a30ddf69,
     0x8e43c87e03060c18, 0xf49bb8b633338561, 0x7bf329ee636d1eea, 0x012b592653589793,
     0x4e7b2d0d9b47ba97, 0x34a35dc5ab7233ee, 0xbbcbcc9dfb2ca865, 0xc113bc55cb19211c,
     0x5863dbf1e3ac9dec, 0x22bbab39d3991495, 0xadd33a6183c78f1e, 0xd70b4aa9b3f20667,
     0x985b3e827bed2b63, 0xe2834e4a4bd8a21a, 0x6debdf121b863991, 0x1733afda2bb3b0e8,
     0xf34b37458bb86399, 0x8993478dbb8deae0, 0x06fbd6d5ebd3716b, 0x7c23a61ddbe6f812,
     0x3373d23613f9d516, 0x49aba2fe23cc5c6f, 0xc6c333a67392c7e4, 0xbc1b436e43a74e9d,
     0x95ac9329ac4bc9b5, 0xef74e3e19c7e40cc, 0x601c72b9cc20db47, 0x1ac40271fc15523e,
     0x5594765a340a7f3a, 0x2f4c0692043ff643, 0xa02497ca54616dc8, 0xdafce7026454e4b1,
     0x3e847f9dc45f37c0, 0x445c0f55f46abeb9, 0xcb349e0da4342532, 0xb1eceec59401ac4b,
     0xfebc9aee5c1e814f, 0x8464ea266c2b0836, 0x0b0c7b7e3c7593bd, 0x71d40bb60c401ac4,
     0xe8a46c1224f5a634, 0x927c1cda14c02f4d, 0x1d148d82449eb4c6, 0x67ccfd4a74ab3dbf,
     0x289c8961bcb410bb, 0x5244f9a98c8199c2, 0xdd2c68f1dcdf0249, 0xa7f41839ecea8b30,
     0x438c80a64ce15841, 0x3954f06e7cd4d138, 0xb63c61362c8a4ab3, 0xcce411fe1cbfc3ca,
     0x83b465d5d4a0eece, 0xf96c151de49567b7, 0x76048445b4cbfc3c, 0x0cdcf48d84fe7545,
     0x6fbd6d5ebd3716b7, 0x15651d968d029fce, 0x9a0d8ccedd5c0445, 0xe0d5fc06ed698d3c,
     0xaf85882d2576a038, 0xd55df8e515432941, 0x5a3569bd451db2ca, 0x20ed197575283bb3,
     0xc49581ead523e8c2, 0xbe4df122e51661bb, 0x3125607ab548fa30, 0x4bfd10b2857d7349,
     0x04ad64994d625e4d, 0x7e7514517d57d734, 0xf11d85092d094cbf, 0x8bc5f5c11d3cc5c6,
     0x12b5926535897936, 0x686de2ad05bcf04f, 0xe70573f555e26bc4, 0x9ddd033d65d7e2bd,
     0xd28d7716adc8cfb9, 0xa85507de9dfd46c0, 0x273d9686cda3dd4b, 0x5de5e64efd965432,
     0xb99d7ed15d9d8743, 0xc3450e196da80e3a, 0x4c2d9f413df695b1, 0x36f5ef890dc31cc8,
     0x79a59ba2c5dc31cc, 0x037deb6af5e9b8b5, 0x8c157a32a5b7233e, 0xf6cd0afa9582aa47,
     0x4ad64994d625e4da, 0x300e395ce6106da3, 0xbf66a804b64ef628, 0xc5bed8cc867b7f51,
     0x8aeeace74e645255, 0xf036dc2f7e51db2c, 0x7f5e4d772e0f40a7, 0x05863dbf1e3ac9de,
     0xe1fea520be311aaf, 0x9b26d5e88e0493d6, 0x144e44b0de5a085d, 0x6e963478ee6f8124,
     0x21c640532670ac20, 0x5b1e309b16452559, 0xd476a1c3461bbed2, 0xaeaed10b762e37ab,
     0x37deb6af5e9b8b5b, 0x4d06c6676eae0222, 0xc26e573f3ef099a9, 0xb8b627f70ec510d0,
     0xf7e653dcc6da3dd4, 0x8d3e2314f6efb4ad, 0x0256b24ca6b12f26, 0x788ec2849684a65f,
     0x9cf65a1b368f752e, 0xe62e2ad306bafc57, 0x6946bb8b56e467dc, 0x139ecb4366d1eea5,
     0x5ccebf68aecec3a1, 0x2616cfa09efb4ad8, 0xa97e5ef8cea5d153, 0xd3a62e30fe90582a,
     0xb0c7b7e3c7593bd8, 0xca1fc72bf76cb2a1, 0x45775673a732292a, 0x3faf26bb9707a053,
     0x70ff52905f188d57, 0x0a2722586f2d042e, 0x854fb3003f739fa5, 0xff97c3c80f4616dc,
     0x1bef5b57af4dc5ad, 0x61372b9f9f784cd4, 0xee5fbac7cf26d75f, 0x9487ca0fff135e26,
     0xdbd7be24370c7322, 0xa10fceec0739fa5b, 0x2e675fb4576761d0, 0x54bf2f7c6752e8a9,
     0xcdcf48d84fe75459, 0xb71738107fd2dd20, 0x387fa9482f8c46ab, 0x42a7d9801fb9cfd2,
     0x0df7adabd7a6e2d6, 0x772fdd63e7936baf, 0xf8474c3bb7cdf024, 0x829f3cf387f8795d,
     0x66e7a46c27f3aa2c, 0x1c3fd4a417c62355, 0x935745fc4798b8de, 0xe98f353477ad31a7,
     0xa6df411fbfb21ca3, 0xdc0731d78f8795da, 0x536fa08fdfd90e51, 0x29b7d047efec8728]"

section \<open>The checksum loops\<close>

fun crc16_loop :: "u16 \<Rightarrow> u8 list \<Rightarrow> u16 option" where
  "crc16_loop crc [] = Some crc"
| "crc16_loop crc (b # buf) = do {
     t \<leftarrow> nth_opt crc16tab (unat ((drop_bit 8 crc XOR ucast b) AND 0x00FF));
     crc16_loop (push_bit 8 crc XOR t) buf
   }"

definition crc16 :: "u8 list \<Rightarrow> u16 option" where
  "crc16 buf = crc16_loop 0 buf"

fun crc64 :: "u64 \<Rightarrow> u8 list \<Rightarrow> u64 option" where
  "crc64 crc [] = Some crc"
| "crc64 crc (b # s) = do {
     t \<leftarrow> nth_opt crc64_tab (unat (ucast crc XOR b :: u8));
     crc64 (t XOR drop_bit 8 crc) s
   }"

section \<open>Reference: division bit by bit\<close>

definition crc16_shift :: "u16 \<Rightarrow> u16" where
  "crc16_shift c = (if bit c 15 then push_bit 1 c XOR 0x1021 else push_bit 1 c)"

definition crc64_shift :: "u64 \<Rightarrow> u64" where
  "crc64_shift c = (if bit c 0 then drop_bit 1 c XOR 0x95ac9329ac4bc9b5 else drop_bit 1 c)"

fun crc16_bits :: "u16 \<Rightarrow> u8 list \<Rightarrow> u16" where
  "crc16_bits c [] = c"
| "crc16_bits c (b # bs) = crc16_bits ((crc16_shift ^^ 8) (c XOR push_bit 8 (ucast b))) bs"

fun crc64_bits :: "u64 \<Rightarrow> u8 list \<Rightarrow> u64" where
  "crc64_bits c [] = c"
| "crc64_bits c (b # bs) = crc64_bits ((crc64_shift ^^ 8) (c XOR ucast b)) bs"

section \<open>Tables of linear functions\<close>

text \<open>The table of a linear function is determined by its values at the powers of two.\<close>

definition xor_double :: "'a::len word list \<Rightarrow> 'a word \<Rightarrow> 'a word list" where
  "xor_double t b = t @ map ((XOR) b) t"

lemma crc16tab_xor:
  "crc16tab = foldl xor_double [0] [0x1021, 0x2042, 0x4084, 0x8108, 0x1231, 0x2462, 0x48c4, 0x9188]"
  by (simp add: crc16tab_def xor_double_def)

lemma crc64_tab_xor:
  "crc64_tab = foldl xor_double [0] [0x7ad870c830358979, 0xf5b0e190606b12f2, 0xc038e5739841b68f,
    0xab28ecb46814fe75, 0x7d08ff3b88be6f81, 0xfa11fe77117cdf02, 0xdf7adabd7a6e2d6f, 0x95ac9329ac4bc9b5]"
  by (simp add: crc64_tab_def xor_double_def)

lemma foldl_xor_double:
  fixes T :: "'a::len word \<Rightarrow> 'b::len word"
  assumes lin: "\<And>x y. T (x XOR y) = T x XOR T y"
  shows "k \<le> LENGTH('a) \<Longrightarrow>
    foldl xor_double [0] (map (\<lambda>j. T (2 ^ j)) [0..<k]) = map (\<lambda>i. T (word_of_nat i)) [0..<2 ^ k]"
proof (induction k)
  case 0
  have "T 0 = 0" using lin [of 0 0] by simp
  then show ?case by simp
next
  case (Suc k)
  have "T (word_of_nat (2 ^ k + i)) = T (2 ^ k) XOR T (word_of_nat i)" if "i < 2 ^ k" for i
  proof -
    have "m < k" if "bit (word_of_nat i :: 'a word) m" for m
    proof (rule ccontr)
      assume "\<not> m < k"
      with \<open>i < 2 ^ k\<close> have "i < 2 ^ m" by (meson leI less_le_trans one_le_numeral power_increasing)
      then have "\<not> bit i m" by (simp add: bit_iff_odd)
      with that show False by (simp add: bit_simps)
    qed
    then have "push_bit k 1 + (word_of_nat i :: 'a word) = push_bit k 1 XOR word_of_nat i"
      by (rule shift_add_xor)
    then show ?thesis using lin [of "2 ^ k"] by (simp add: push_bit_of_1)
  qed
  then have "map (\<lambda>i. T (word_of_nat i)) [2 ^ k..<2 ^ Suc k] =
      map (\<lambda>i. T (2 ^ k) XOR T (word_of_nat i)) [0..<2 ^ k]"
    by (intro nth_equalityI) auto
  moreover have "[0..<2 ^ Suc k] = [0..<2 ^ k] @ [2 ^ k..<2 ^ Suc k]"
    using upt_add_eq_append [of 0 "2 ^ k" "2 ^ k"] by (simp add: mult_2)
  ultimately show ?case using Suc by (simp add: xor_double_def comp_def)
qed

lemma funpow_8: "(f ^^ 8) x = f (f (f (f (f (f (f (f x)))))))"
  by (simp add: numeral_eq_Suc)

section \<open>CRC-16\<close>

lemma crc16_shift_xor: "crc16_shift (x XOR y) = crc16_shift x XOR crc16_shift y"
  by (rule bit_eqI) (auto simp: crc16_shift_def bit_simps)

lemma crc16_shifts_xor: "(crc16_shift ^^ n) (x XOR y) = (crc16_shift ^^ n) x XOR (crc16_shift ^^ n) y"
  by (induction n) (auto simp: crc16_shift_xor)

lemma crc16_shifts_low:
  "n \<le> 16 \<Longrightarrow> (\<And>m. 16 - n \<le> m \<Longrightarrow> \<not> bit x m) \<Longrightarrow> (crc16_shift ^^ n) x = push_bit n x"
proof (induction n)
  case (Suc n)
  then have "(crc16_shift ^^ n) x = push_bit n x" by simp
  moreover have "\<not> bit (push_bit n x) 15"
    using Suc.prems(2) [of "15 - n"] Suc.prems(1) by (auto simp: bit_simps)
  ultimately show ?case by (simp add: crc16_shift_def [of "push_bit n x"])
qed simp

definition crc16_T :: "u8 \<Rightarrow> u16" where
  "crc16_T i = (crc16_shift ^^ 8) (push_bit 8 (ucast i))"

lemma crc16_T_xor: "crc16_T (x XOR y) = crc16_T x XOR crc16_T y"
  by (simp add: crc16_T_def unsigned_xor_eq push_bit_xor crc16_shifts_xor)

lemma crc16_basis:
  "(crc16_shift ^^ 8) 256 = 0x1021"
  "(crc16_shift ^^ 8) 512 = 0x2042"
  "(crc16_shift ^^ 8) 1024 = 0x4084"
  "(crc16_shift ^^ 8) 2048 = 0x8108"
  "(crc16_shift ^^ 8) 4096 = 0x1231"
  "(crc16_shift ^^ 8) 8192 = 0x2462"
  "(crc16_shift ^^ 8) 16384 = 0x48c4"
  "(crc16_shift ^^ 8) 32768 = 0x9188"
  by (simp_all add: funpow_8 crc16_shift_def)

lemma crc16tab_T: "crc16tab = map (\<lambda>i. crc16_T (word_of_nat i)) [0..<2 ^ 8]"
proof -
  have basis: "[0x1021, 0x2042, 0x4084, 0x8108, 0x1231, 0x2462, 0x48c4, 0x9188] =
      map (\<lambda>j. crc16_T (2 ^ j)) [0..<8]"
    by (simp add: crc16_T_def crc16_basis upt_rec)
  show ?thesis
    unfolding crc16tab_xor basis by (rule foldl_xor_double [OF crc16_T_xor]) simp
qed

lemma crc16_step:
  "push_bit 8 crc XOR crc16_T (ucast (drop_bit 8 crc XOR ucast b)) =
   (crc16_shift ^^ 8) (crc XOR push_bit 8 (ucast b))"
proof -
  have "crc XOR push_bit 8 (ucast b) =
      take_bit 8 crc XOR push_bit 8 (ucast (ucast (drop_bit 8 crc XOR ucast b :: u16) :: u8))"
    by (rule bit_eqI) (auto simp: bit_simps)
  moreover have "(crc16_shift ^^ 8) (take_bit 8 crc) = push_bit 8 crc"
  proof -
    have "(crc16_shift ^^ 8) (take_bit 8 crc) = push_bit 8 (take_bit 8 crc)"
      by (rule crc16_shifts_low) (auto simp: bit_simps)
    also have "\<dots> = push_bit 8 crc" by (rule bit_eqI) (auto simp: bit_simps)
    finally show ?thesis .
  qed
  ultimately show ?thesis by (simp add: crc16_shifts_xor crc16_T_def)
qed

lemma unat_and_255: "unat (x AND 0x00FF :: u16) = unat (ucast x :: u8)"
proof -
  have "x AND 0xFF = take_bit 8 x" by (simp add: take_bit_eq_mask mask_eq_exp_minus_1)
  then show ?thesis by (simp add: unsigned_take_bit_eq unsigned_ucast_eq)
qed

lemma crc16_loop_bits: "crc16_loop crc buf = Some (crc16_bits crc buf)"
proof (induction buf arbitrary: crc)
  case (Cons b buf)
  have "nth_opt crc16tab (unat (y :: u8)) = Some (crc16_T y)" for y
  proof -
    have "unat y < 2 ^ LENGTH(8)" by (rule unsigned_less)
    then show ?thesis by (simp add: crc16tab_T nth_opt_def)
  qed
  then show ?case using Cons by (simp add: unat_and_255 crc16_step)
qed simp

section \<open>CRC-64\<close>

lemma crc64_shift_xor: "crc64_shift (x XOR y) = crc64_shift x XOR crc64_shift y"
  by (rule bit_eqI) (auto simp: crc64_shift_def bit_simps)

lemma crc64_shifts_xor: "(crc64_shift ^^ n) (x XOR y) = (crc64_shift ^^ n) x XOR (crc64_shift ^^ n) y"
  by (induction n) (auto simp: crc64_shift_xor)

lemma crc64_shifts_high:
  "(\<And>m. m < n \<Longrightarrow> \<not> bit x m) \<Longrightarrow> (crc64_shift ^^ n) x = drop_bit n x"
proof (induction n)
  case (Suc n)
  then have "(crc64_shift ^^ n) x = drop_bit n x" by simp
  moreover have "\<not> bit (drop_bit n x) 0" using Suc.prems [of n] by (simp add: bit_simps)
  ultimately show ?case by (simp add: crc64_shift_def [of "drop_bit n x"])
qed simp

definition crc64_T :: "u8 \<Rightarrow> u64" where
  "crc64_T i = (crc64_shift ^^ 8) (ucast i)"

lemma crc64_T_xor: "crc64_T (x XOR y) = crc64_T x XOR crc64_T y"
  by (simp add: crc64_T_def unsigned_xor_eq crc64_shifts_xor)

lemma crc64_basis:
  "(crc64_shift ^^ 8) 1 = 0x7ad870c830358979"
  "(crc64_shift ^^ 8) 2 = 0xf5b0e190606b12f2"
  "(crc64_shift ^^ 8) 4 = 0xc038e5739841b68f"
  "(crc64_shift ^^ 8) 8 = 0xab28ecb46814fe75"
  "(crc64_shift ^^ 8) 16 = 0x7d08ff3b88be6f81"
  "(crc64_shift ^^ 8) 32 = 0xfa11fe77117cdf02"
  "(crc64_shift ^^ 8) 64 = 0xdf7adabd7a6e2d6f"
  "(crc64_shift ^^ 8) 128 = 0x95ac9329ac4bc9b5"
  by (simp_all add: funpow_8 crc64_shift_def)

lemma crc64_tab_T: "crc64_tab = map (\<lambda>i. crc64_T (word_of_nat i)) [0..<2 ^ 8]"
proof -
  have basis: "[0x7ad870c830358979, 0xf5b0e190606b12f2, 0xc038e5739841b68f,
    0xab28ecb46814fe75, 0x7d08ff3b88be6f81, 0xfa11fe77117cdf02, 0xdf7adabd7a6e2d6f, 0x95ac9329ac4bc9b5] =
      map (\<lambda>j. crc64_T (2 ^ j)) [0..<8]"
    by (simp add: crc64_T_def crc64_basis upt_rec)
  show ?thesis
    unfolding crc64_tab_xor basis by (rule foldl_xor_double [OF crc64_T_xor]) simp
qed

lemma crc64_step:
  "crc64_T (ucast crc XOR b) XOR drop_bit 8 crc = (crc64_shift ^^ 8) (crc XOR ucast b)"
proof -
  have "crc XOR ucast b = ucast (ucast crc XOR b) XOR push_bit 8 (drop_bit 8 crc)"
    by (rule bit_eqI) (auto simp: bit_simps)
  moreover have "(crc64_shift ^^ 8) (push_bit 8 (drop_bit 8 crc)) = drop_bit 8 crc"
  proof -
    have "(crc64_shift ^^ 8) (push_bit 8 (drop_bit 8 crc)) = drop_bit 8 (push_bit 8 (drop_bit 8 crc))"
      by (rule crc64_shifts_high) (auto simp: bit_simps)
    also have "\<dots> = drop_bit 8 crc"
      by (rule bit_eqI) (auto simp: bit_simps dest: bit_imp_le_length)
    finally show ?thesis .
  qed
  ultimately show ?thesis by (simp add: crc64_shifts_xor crc64_T_def)
qed

lemma crc64_bits_eq: "crc64 crc s = Some (crc64_bits crc s)"
proof (induction s arbitrary: crc)
  case (Cons b s)
  have "nth_opt crc64_tab (unat (y :: u8)) = Some (crc64_T y)" for y
  proof -
    have "unat y < 2 ^ LENGTH(8)" by (rule unsigned_less)
    then show ?thesis by (simp add: crc64_tab_T nth_opt_def)
  qed
  then show ?case using Cons by (simp add: crc64_step)
qed simp

section \<open>Corruption within eight bytes\<close>

lemma bit_crc64_shift_63: "bit (crc64_shift c) 63 \<longleftrightarrow> bit c 0"
  by (auto simp: crc64_shift_def bit_simps dest: bit_imp_le_length)

lemma crc64_shift_inject:
  assumes "crc64_shift c = crc64_shift d"
  shows "c = d"
proof -
  have 0: "bit c 0 \<longleftrightarrow> bit d 0" using bit_crc64_shift_63 [of c] bit_crc64_shift_63 [of d] assms by simp
  with assms have "drop_bit 1 c = drop_bit 1 d"
    unfolding crc64_shift_def by (cases "bit d 0") (simp_all only: xor_inject if_True if_False)
  then have "bit c (Suc n) \<longleftrightarrow> bit d (Suc n)" for n
    by (metis bit_drop_bit_eq comp_apply plus_1_eq_Suc)
  then show ?thesis using 0 by (intro bit_eqI) (case_tac n, simp_all)
qed

lemma crc64_shifts_inject: "(crc64_shift ^^ n) c = (crc64_shift ^^ n) d \<Longrightarrow> c = d"
  by (induction n) (auto dest: crc64_shift_inject)

lemma crc64_bits_append: "crc64_bits c (xs @ ys) = crc64_bits (crc64_bits c xs) ys"
  by (induction xs arbitrary: c) auto

lemma crc64_bits_state: "crc64_bits c bs = crc64_bits d bs \<Longrightarrow> c = d"
proof (induction bs arbitrary: c d)
  case (Cons b bs)
  from Cons.IH [of "(crc64_shift ^^ 8) (c XOR ucast b)" "(crc64_shift ^^ 8) (d XOR ucast b)"] Cons.prems
  have "c XOR ucast b = d XOR ucast b" by (auto dest: crc64_shifts_inject)
  then show ?case by (simp only: xor_inject)
qed simp

definition le64 :: "u8 list \<Rightarrow> u64" where
  "le64 bs = word_of_int (le_int bs)"

lemma uint_le64: "length bs \<le> 8 \<Longrightarrow> uint (le64 bs) = le_int bs"
proof -
  assume "length bs \<le> 8"
  then have "(256 :: int) ^ length bs \<le> 256 ^ 8" by (rule power_increasing) simp
  then have "le_int bs < 2 ^ 64" using le_int_bounds [of bs] by simp
  then show ?thesis using le_int_bounds [of bs]
    by (simp add: le64_def unsigned_of_int take_bit_int_eq_self)
qed

lemma le64_Cons: "le64 (b # bs) = push_bit 8 (le64 bs) XOR ucast b"
proof -
  have "push_bit 8 (le64 bs) + ucast b = push_bit 8 (le64 bs) XOR ucast b"
    by (rule shift_add_xor) (auto simp: bit_simps dest: bit_imp_le_length)
  then show ?thesis by (simp add: le64_def push_bit_eq_mult algebra_simps)
qed

lemma le64_small: "length bs \<le> 7 \<Longrightarrow> drop_bit 8 (push_bit 8 (le64 bs)) = le64 bs"
proof -
  assume b: "length bs \<le> 7"
  then have "(256 :: int) ^ length bs \<le> 256 ^ 7" by (rule power_increasing) simp
  then have "uint (le64 bs) < 2 ^ 56" using le_int_bounds [of bs] uint_le64 [of bs] b by simp
  then have "uint (le64 bs) div 2 ^ m = 0" if "56 \<le> m" for m
    using power_increasing [OF that, of "2 :: int"] by simp
  then have "\<not> bit (uint (le64 bs)) m" if "56 \<le> m" for m
    using that by (simp add: bit_iff_odd)
  then have "\<not> bit (le64 bs) m" if "56 \<le> m" for m
    using that by (auto simp: bit_simps dest: bit_imp_le_length)
  then have "bit (le64 bs) m \<Longrightarrow> m < 56" for m by (meson not_le)
  then show ?thesis by (intro bit_eqI) (force simp: bit_simps)
qed

lemma crc64_bits_block:
  "length bs \<le> 8 \<Longrightarrow> crc64_bits c bs = ((crc64_shift ^^ 8) ^^ length bs) (c XOR le64 bs)"
proof (induction bs arbitrary: c)
  case Nil
  then show ?case by (simp add: le64_def)
next
  case (Cons b bs)
  have "(crc64_shift ^^ 8) (push_bit 8 (le64 bs)) = drop_bit 8 (push_bit 8 (le64 bs))"
    by (rule crc64_shifts_high) (auto simp: bit_simps)
  then have "(crc64_shift ^^ 8) (c XOR le64 (b # bs)) = (crc64_shift ^^ 8) (c XOR ucast b) XOR le64 bs"
    using Cons.prems by (simp add: le64_Cons crc64_shifts_xor le64_small ac_simps)
  with Cons show ?case by (simp add: funpow_swap1)
qed

lemma crc64_bits_inject:
  assumes "crc64_bits c xs = crc64_bits c ys" and "length xs = length ys" and "length ys \<le> 8"
  shows "xs = ys"
proof -
  have "((crc64_shift ^^ 8) ^^ n) c = ((crc64_shift ^^ 8) ^^ n) d \<Longrightarrow> c = d" for n c d
    by (simp add: funpow_mult crc64_shifts_inject)
  with assms have "c XOR le64 xs = c XOR le64 ys" by (auto simp: crc64_bits_block)
  then have "le64 xs = le64 ys" by (simp only: xor_inject')
  then show ?thesis using assms uint_le64 [of xs] uint_le64 [of ys] le_int_inject [of xs ys] by simp
qed

section \<open>Hash slots (cluster.c)\<close>

fun find_byte :: "u8 \<Rightarrow> nat \<Rightarrow> u8 list \<Rightarrow> nat" where
  "find_byte c i [] = i"
| "find_byte c i (x # xs) = (if x = c then i else find_byte c (Suc i) xs)"

definition keyHashSlot :: "u8 list \<Rightarrow> u16 option" where
  "keyHashSlot key =
    (let keylen = length key;
         s = find_byte 123 0 key in
     if s = keylen then map_option (\<lambda>c. c AND 0x3FFF) (crc16 key)
     else let e = find_byte 125 (s + 1) (drop (s + 1) key) in
       if e = keylen \<or> e = s + 1 then map_option (\<lambda>c. c AND 0x3FFF) (crc16 key)
       else map_option (\<lambda>c. c AND 0x3FFF) (crc16 (take (e - s - 1) (drop (s + 1) key))))"

lemma find_byte_append: "c \<notin> set xs \<Longrightarrow> find_byte c i (xs @ c # ys) = i + length xs"
  by (induction xs arbitrary: i) auto

section \<open>Properties\<close>

text \<open>
  C28. The table-driven CRC-16 is the remainder of the division by the CCITT polynomial that the header of
  the file specifies, computed bit by bit, most significant bit first.
\<close>

theorem crc16_correct: "crc16 buf = Some (crc16_bits 0 buf)"
  by (simp add: crc16_def crc16_loop_bits)

text \<open>
  C27. The table-driven CRC-64 is the bit-by-bit division by the reflected Jones polynomial.
\<close>

theorem crc64_correct: "crc64 crc s = Some (crc64_bits crc s)"
  by (rule crc64_bits_eq)

text \<open>
  C26. CRC-64 detects every corruption that is confined to eight consecutive bytes of the data.
\<close>

theorem crc64_detects_burst:
  assumes "length xs = length ys" and "length ys \<le> 8" and "xs \<noteq> ys"
  shows "crc64 crc (p @ xs @ s) \<noteq> crc64 crc (p @ ys @ s)"
  using assms crc64_bits_inject [of "crc64_bits crc p" xs ys]
    crc64_bits_state [of "crc64_bits (crc64_bits crc p) xs" s "crc64_bits (crc64_bits crc p) ys"]
  by (auto simp: crc64_bits_eq crc64_bits_append)

theorem crc64_detects_burst_witness:
  "crc64 0 ([1, 2] @ [3, 4, 5] @ [6]) \<noteq> crc64 0 ([1, 2] @ [3, 7, 9] @ [6])"
  by (rule crc64_detects_burst) simp_all

text \<open>
  C29. Hash tags.  Every key has a slot below 16384, and a key that contains a non-empty tag in braces (the
  first opening brace up to the next closing one) has the slot of the tag alone, so that keys with
  one tag share a slot.
\<close>

theorem keyHashSlot_tag:
  assumes "123 \<notin> set pre" and "125 \<notin> set tag" and "tag \<noteq> []"
  shows "(\<exists>slot. keyHashSlot key = Some slot \<and> slot < 16384) \<and>
    keyHashSlot (pre @ [123] @ tag @ [125] @ post) = map_option (\<lambda>c. c AND 0x3FFF) (crc16 tag)"
proof
  have "c AND 0x3FFF < (16384 :: u16)" for c
    using word_and_le1 [of c "0x3FFF"] by (rule le_less_trans) simp
  then show "\<exists>slot. keyHashSlot key = Some slot \<and> slot < 16384"
    by (auto simp: keyHashSlot_def Let_def crc16_def crc16_loop_bits)
  show "keyHashSlot (pre @ [123] @ tag @ [125] @ post) = map_option (\<lambda>c. c AND 0x3FFF) (crc16 tag)"
    using assms by (simp add: keyHashSlot_def Let_def find_byte_append)
qed

theorem keyHashSlot_tag_witness:
  "(\<exists>slot. keyHashSlot [97] = Some slot \<and> slot < 16384) \<and>
   keyHashSlot ([97] @ [123] @ [98, 99] @ [125] @ [100]) = map_option (\<lambda>c. c AND 0x3FFF) (crc16 [98, 99])"
  by (rule keyHashSlot_tag) simp_all

end
