(* ===== verification/Util_Num.thy ===== *)
theory Util_Num
  imports Bytes
begin

text \<open>
  Conversions between integers and decimal strings of \<^verbatim>\<open>redis/redis/src/util.c\<close>:
  \<^verbatim>\<open>digits10\<close>, \<^verbatim>\<open>sdigits10\<close>, \<^verbatim>\<open>ll2string\<close>, \<^verbatim>\<open>string2ll\<close> and
  \<^verbatim>\<open>string2l\<close>.  The routines are proved against the textbook decimal numeral
  \<open>numeral_of\<close>: printing stores it, and parsing accepts exactly the numerals of 64-bit
  integers.

  A \<^verbatim>\<open>long long\<close> is an integer between \<open>LLONG_MIN\<close> and \<open>LLONG_MAX\<close>; negating one outside that
  range is \<^term>\<open>None\<close>.  The \<^verbatim>\<open>unsigned long long\<close> that the parser accumulates is a 64-bit word,
  which wraps around; the printer only divides its value, which stays an integer between 0 and
  \<open>ULLONG_MAX\<close>.
\<close>

definition LLONG_MAX :: int where "LLONG_MAX = 9223372036854775807"
definition LLONG_MIN :: int where "LLONG_MIN = -9223372036854775808"
definition ULLONG_MAX :: int where "ULLONG_MAX = 18446744073709551615"

section \<open>Printing\<close>

function digits10 :: "int \<Rightarrow> nat" where
  "digits10 v =
    (if v < 10 then 1
     else if v < 100 then 2
     else if v < 1000 then 3
     else if v < 1000000000000 then
       (if v < 100000000 then
          (if v < 1000000 then
             (if v < 10000 then 4 else 5 + of_bool (100000 \<le> v))
           else 7 + of_bool (10000000 \<le> v))
        else if v < 10000000000 then 9 + of_bool (1000000000 \<le> v)
        else 11 + of_bool (100000000000 \<le> v))
     else 12 + digits10 (v div 1000000000000))"
  by pat_completeness auto
termination by (relation "measure nat") auto

declare digits10.simps [simp del]

definition neg_ll :: "int \<Rightarrow> int option" where
  "neg_ll v = (if LLONG_MIN \<le> - v \<and> - v \<le> LLONG_MAX then Some (- v) else None)"

definition abs_ll :: "int \<Rightarrow> int option" where
  "abs_ll v = (if v \<noteq> LLONG_MIN then neg_ll v else Some (LLONG_MAX + 1))"

definition sdigits10 :: "int \<Rightarrow> nat option" where
  "sdigits10 v = (if v < 0 then do { uv \<leftarrow> abs_ll v; Some (digits10 uv + 1) } else Some (digits10 v))"

definition digits :: "u8 list" where
  "digits = map of_char (
     ''0001020304050607080910111213141516171819'' @
     ''2021222324252627282930313233343536373839'' @
     ''4041424344454647484950515253545556575859'' @
     ''6061626364656667686970717273747576777879'' @
     ''8081828384858687888990919293949596979899'')"

text \<open>The two bytes of a number below 100 are copied from the table to \<open>next - 1\<close> and \<open>next\<close>.\<close>

definition put_pair :: "u8 list \<Rightarrow> int \<Rightarrow> nat \<Rightarrow> u8 list option" where
  "put_pair dst i next = do {
     hi \<leftarrow> nth_opt digits (nat i + 1);
     dst \<leftarrow> upd_opt dst next hi;
     assert_opt (1 \<le> next);
     lo \<leftarrow> nth_opt digits (nat i);
     upd_opt dst (next - 1) lo
   }"

function ll2string_loop :: "u8 list \<Rightarrow> int \<Rightarrow> nat \<Rightarrow> (u8 list \<times> int \<times> nat) option" where
  "ll2string_loop dst v next =
    (if 100 \<le> v then do {
       dst \<leftarrow> put_pair dst ((v mod 100) * 2) next;
       assert_opt (2 \<le> next);
       ll2string_loop dst (v div 100) (next - 2)
     } else Some (dst, v, next))"
  by pat_completeness auto
termination by (relation "measure (\<lambda>(dst, v, next). nat v)") auto

declare ll2string_loop.simps [simp del]

text \<open>The loop and the final digits together write the numeral so that it ends at \<open>next\<close>.\<close>

definition emit :: "u8 list \<Rightarrow> int \<Rightarrow> nat \<Rightarrow> u8 list option" where
  "emit dst v next = do {
     (dst, v, next) \<leftarrow> ll2string_loop dst v next;
     if v < 10 then upd_opt dst next (48 + word_of_int v) else put_pair dst (v * 2) next
   }"

definition ll2string :: "u8 list \<Rightarrow> nat \<Rightarrow> int \<Rightarrow> (u8 list \<times> nat) option" where
  "ll2string dst dstlen svalue = do {
     let negative = svalue < 0;
     v \<leftarrow> (if negative then abs_ll svalue else Some svalue);
     let len = digits10 v + of_bool negative;
     if dstlen \<le> len then Some (dst, 0)
     else do {
       dst \<leftarrow> upd_opt dst len 0;
       dst \<leftarrow> emit dst v (len - 1);
       dst \<leftarrow> (if negative then upd_opt dst 0 45 else Some dst);
       Some (dst, len)
     }
   }"

section \<open>Parsing\<close>

fun string2ll_loop :: "u64 \<Rightarrow> u8 list \<Rightarrow> (u64 \<times> u8 list) option" where
  "string2ll_loop v [] = Some (v, [])"
| "string2ll_loop v (c # p) =
    (if isdigit c then
       (if word_of_int ULLONG_MAX div 10 < v then None
        else if word_of_int ULLONG_MAX - ucast (c - 48) < v * 10 then None
        else string2ll_loop (v * 10 + ucast (c - 48)) p)
     else Some (v, c # p))"

text \<open>
  \<^term>\<open>None\<close> is the result 0 of the code, \<^term>\<open>Some v\<close> the result 1 with value \<open>v\<close>.  Storing the
  accumulator, or its negation, in the signed result keeps the bits.
\<close>

definition string2ll :: "u8 list \<Rightarrow> int option" where
  "string2ll s =
    (if s = [] then None
     else if s = [48] then Some 0
     else
       let negative = (hd s = 45); p = (if negative then tl s else s) in
       if p = [] then None
       else if 49 \<le> hd p \<and> hd p \<le> 57 then
         (case string2ll_loop (ucast (hd p - 48)) (tl p) of
            None \<Rightarrow> None
          | Some (v, rest) \<Rightarrow>
              if rest \<noteq> [] then None
              else if negative then
                (if word_of_int (- (LLONG_MIN + 1)) + 1 < v then None else Some (sint (- v)))
              else if word_of_int LLONG_MAX < v then None else Some (sint v))
       else None)"

definition LONG_MIN :: int where "LONG_MIN = -9223372036854775808"

definition string2l :: "u8 list \<Rightarrow> int option" where
  "string2l s = (case string2ll s of
     None \<Rightarrow> None
   | Some v \<Rightarrow> if v < LONG_MIN \<or> LLONG_MAX < v then None else Some v)"

section \<open>Memory amounts\<close>

text \<open>
  The C library's \<^verbatim>\<open>strtoll\<close> on a string of an optional minus sign and digits: the value, cut off
  at the limits, and the unread rest.  Nothing is converted when there is no digit.
\<close>

definition strtoll :: "u8 list \<Rightarrow> int \<times> u8 list" where
  "strtoll s =
    (let neg = (s \<noteq> [] \<and> hd s = 45);
         p = (if neg then tl s else s);
         ds = takeWhile isdigit p;
         n = foldl (\<lambda>v c. 10 * v + (uint c - 48)) 0 ds;
         v = (if neg then - n else n) in
     if ds = [] then (0, s)
     else (if v < LLONG_MIN then LLONG_MIN else if LLONG_MAX < v then LLONG_MAX else v,
           drop (length ds) p))"

definition strcasecmp_eq :: "u8 list \<Rightarrow> string \<Rightarrow> bool" where
  "strcasecmp_eq s t \<longleftrightarrow> map tolower s = map (tolower \<circ> of_char) t"

text \<open>
  The result is the returned value and the error flag; \<^term>\<open>None\<close> is the overflow of the signed
  product.  The argument is a C string, so it holds no zero byte.
\<close>

definition memtoll :: "u8 list \<Rightarrow> (int \<times> bool) option" where
  "memtoll p =
    (let u = dropWhile isdigit (if p \<noteq> [] \<and> hd p = 45 then tl p else p);
         unit = (if u = [] \<or> strcasecmp_eq u ''b'' then Some 1
                 else if strcasecmp_eq u ''k'' then Some 1000
                 else if strcasecmp_eq u ''kb'' then Some 1024
                 else if strcasecmp_eq u ''m'' then Some (1000 * 1000)
                 else if strcasecmp_eq u ''mb'' then Some (1024 * 1024)
                 else if strcasecmp_eq u ''g'' then Some (1000 * 1000 * 1000)
                 else if strcasecmp_eq u ''gb'' then Some (1024 * 1024 * 1024)
                 else None);
         len = length p - length u in
     case unit of
       None \<Rightarrow> Some (0, True)
     | Some mul \<Rightarrow>
         if 128 \<le> len then Some (0, True)
         else case strtoll (take len p) of (val, endptr) \<Rightarrow>
           if endptr \<noteq> [] then Some (0, True)
           else if LLONG_MIN \<le> val * mul \<and> val * mul \<le> LLONG_MAX then Some (val * mul, False)
           else None)"

section \<open>Decimal numerals\<close>

function dec :: "int \<Rightarrow> u8 list" where
  "dec v = (if v < 10 then [48 + word_of_int v] else dec (v div 10) @ [48 + word_of_int (v mod 10)])"
  by pat_completeness auto
termination by (relation "measure nat") auto

declare dec.simps [simp del]

definition numeral_of :: "int \<Rightarrow> u8 list" where
  "numeral_of v = (if v < 0 then 45 # dec (- v) else dec v)"

definition dig :: "u8 \<Rightarrow> int" where "dig c = uint c - 48"

definition dec_val :: "int \<Rightarrow> u8 list \<Rightarrow> int" where
  "dec_val a ds = foldl (\<lambda>v c. 10 * v + dig c) a ds"

lemma dec_less_10: "v < 10 \<Longrightarrow> dec v = [48 + word_of_int v]"
  by (simp add: dec.simps)

lemma dec_ge_10: "10 \<le> v \<Longrightarrow> dec v = dec (v div 10) @ [48 + word_of_int (v mod 10)]"
  by (simp add: dec.simps)

lemma uint_digit: "0 \<le> d \<Longrightarrow> d < 10 \<Longrightarrow> uint (48 + word_of_int d :: u8) = 48 + d"
  by (simp add: uint_word_ariths unsigned_of_int take_bit_eq_mod)

lemma isdigit_uint: "isdigit c \<longleftrightarrow> 48 \<le> uint c \<and> uint c \<le> 57"
  by (simp add: isdigit_def word_le_def)

lemma dig_bounds: "isdigit c \<Longrightarrow> 0 \<le> dig c \<and> dig c < 10"
  by (simp add: isdigit_uint dig_def)

lemma digit_dig: "isdigit c \<Longrightarrow> 48 + word_of_int (dig c) = c"
  by (simp add: dig_def)

lemma dig_digit: "0 \<le> d \<Longrightarrow> d < 10 \<Longrightarrow> dig (48 + word_of_int d) = d \<and> isdigit (48 + word_of_int d)"
  by (simp add: dig_def isdigit_uint uint_digit)

lemma dec_val_dec: "0 \<le> v \<Longrightarrow> dec_val 0 (dec v) = v"
proof (induction v rule: dec.induct)
  case (1 v)
  then show ?case
    by (cases "v < 10") (simp_all add: dec_less_10 dec_ge_10 dec_val_def dig_digit)
qed

lemma dec_digits: "0 \<le> v \<Longrightarrow> (\<forall>c\<in>set (dec v). isdigit c) \<and> dec v \<noteq> []"
proof (induction v rule: dec.induct)
  case (1 v)
  then show ?case by (cases "v < 10") (simp_all add: dec_less_10 dec_ge_10 dig_digit)
qed

lemma dec_hd: "0 < v \<Longrightarrow> 0 < dig (hd (dec v))"
proof (induction v rule: dec.induct)
  case (1 v)
  then show ?case
    using dec_digits [of "v div 10"] by (cases "v < 10") (simp_all add: dec_less_10 dec_ge_10 dig_digit)
qed

lemma dec_val_snoc: "dec_val a (ds @ [c]) = 10 * dec_val a ds + dig c"
  by (simp add: dec_val_def)

lemma dec_val_Cons: "dec_val a (c # ds) = dec_val (10 * a + dig c) ds"
  by (simp add: dec_val_def)

lemma dec_val_ge: "0 \<le> a \<Longrightarrow> \<forall>c\<in>set ds. isdigit c \<Longrightarrow> a \<le> dec_val a ds"
proof (induction ds arbitrary: a)
  case (Cons c ds)
  then have "0 \<le> dig c" using dig_bounds by simp
  moreover have "10 * a + dig c \<le> dec_val (10 * a + dig c) ds" if "0 \<le> dig c"
    using Cons that by simp
  ultimately show ?case using Cons.prems(1) by (simp add: dec_val_Cons)
qed (simp add: dec_val_def)

lemma dec_dec_val:
  "ds \<noteq> [] \<Longrightarrow> \<forall>c\<in>set ds. isdigit c \<Longrightarrow> 0 < dig (hd ds) \<Longrightarrow> dec (dec_val 0 ds) = ds"
proof (induction ds rule: rev_induct)
  case (snoc c ds)
  show ?case
  proof (cases "ds = []")
    case True
    then show ?thesis using snoc.prems dig_bounds [of c]
      by (simp add: dec_val_def dec_less_10 digit_dig)
  next
    case False
    let ?v = "dec_val 0 ds"
    from False snoc have IH: "dec ?v = ds" by simp
    from False obtain d ds' where ds: "ds = d # ds'" by (cases ds) auto
    with snoc.prems have "1 \<le> ?v" using dec_val_ge [of "dig d" ds'] by (simp add: dec_val_Cons)
    moreover have "(10 * ?v + dig c) div 10 = ?v" "(10 * ?v + dig c) mod 10 = dig c"
      using dig_bounds [of c] snoc.prems by auto
    ultimately show ?thesis
      using dec_ge_10 [of "10 * ?v + dig c"] dig_bounds [of c] snoc.prems IH
      by (simp add: dec_val_snoc digit_dig)
  qed
qed simp

section \<open>Parsing accepts exactly the numerals\<close>

lemma uint_dig: "isdigit c \<Longrightarrow> uint (ucast (c - 48) :: u64) = dig c"
  using dig_bounds [of c] by (simp add: dig_def unsigned_ucast_eq uint_word_ariths take_bit_eq_mod)

lemma uint_ULLONG: "uint (word_of_int ULLONG_MAX :: u64) = ULLONG_MAX" "uint (v :: u64) \<le> ULLONG_MAX"
  using uint_lt2p [of v] by (simp_all add: ULLONG_MAX_def)

text \<open>The two guards are exactly the conditions under which the accumulator would wrap around.\<close>

lemma string2ll_guards:
  fixes v :: u64
  assumes "isdigit c"
  shows "word_of_int ULLONG_MAX div 10 < v \<or> word_of_int ULLONG_MAX - ucast (c - 48) < v * 10 \<longleftrightarrow>
      ULLONG_MAX < 10 * uint v + dig c"
    and "10 * uint v + dig c \<le> ULLONG_MAX \<Longrightarrow> uint (v * 10 + ucast (c - 48)) = 10 * uint v + dig c"
proof -
  have d: "0 \<le> dig c" "dig c < 10" using dig_bounds assms by auto
  have u: "uint (ucast (c - 48) :: u64) = dig c" by (rule uint_dig [OF assms])
  have g1: "word_of_int ULLONG_MAX div 10 < v \<longleftrightarrow> ULLONG_MAX div 10 < uint v"
    by (simp add: word_less_def uint_div ULLONG_MAX_def)
  have m: "uint (v * 10) = 10 * uint v" if "10 * uint v \<le> ULLONG_MAX"
    using that by (simp add: uint_word_ariths ULLONG_MAX_def)
  have g2: "uint (word_of_int ULLONG_MAX - ucast (c - 48) :: u64) = ULLONG_MAX - dig c"
    using d u by (simp add: uint_word_ariths(2) uint_ULLONG(1)) (simp add: ULLONG_MAX_def)
  show "word_of_int ULLONG_MAX div 10 < v \<or> word_of_int ULLONG_MAX - ucast (c - 48) < v * 10 \<longleftrightarrow>
      ULLONG_MAX < 10 * uint v + dig c"
  proof (cases "10 * uint v \<le> ULLONG_MAX")
    case True
    then show ?thesis unfolding g1 word_less_def g2 m [OF True] by (auto simp: ULLONG_MAX_def)
  next
    case False
    then show ?thesis unfolding g1 using d by (simp add: ULLONG_MAX_def)
  qed
  show "uint (v * 10 + ucast (c - 48)) = 10 * uint v + dig c" if "10 * uint v + dig c \<le> ULLONG_MAX"
    using that d u m by (simp add: uint_word_ariths(1)) (simp add: ULLONG_MAX_def)
qed

lemma string2ll_loop_eq:
  "string2ll_loop v p =
    (let v' = dec_val (uint v) (takeWhile isdigit p) in
     if v' \<le> ULLONG_MAX then Some (word_of_int v', dropWhile isdigit p) else None)"
proof (induction p arbitrary: v)
  case Nil
  show ?case using uint_ULLONG(2) [of v] by (simp add: dec_val_def)
next
  case (Cons c p)
  show ?case
  proof (cases "isdigit c")
    case True
    let ?w = "10 * uint v + dig c"
    have ge: "?w \<le> dec_val ?w (takeWhile isdigit p)"
      using dig_bounds [OF True] by (intro dec_val_ge) (auto dest: set_takeWhileD)
    show ?thesis
    proof (cases "?w \<le> ULLONG_MAX")
      case le: True
      then have "string2ll_loop v (c # p) = string2ll_loop (v * 10 + ucast (c - 48)) p"
        using True string2ll_guards(1) [OF True, of v] by simp
      then show ?thesis using Cons.IH True string2ll_guards(2) [OF True le] by (simp add: dec_val_Cons Let_def)
    next
      case False
      then have "string2ll_loop v (c # p) = None" using True string2ll_guards(1) [OF True, of v] by auto
      then show ?thesis using ge False True by (simp add: dec_val_Cons)
    qed
  next
    case False
    then show ?thesis using uint_ULLONG(2) [of v] by (simp add: dec_val_def)
  qed
qed

lemma string2ll_digits:
  assumes "p \<noteq> []" and "49 \<le> hd p \<and> hd p \<le> 57"
  shows "string2ll_loop (ucast (hd p - 48)) (tl p) = Some (v, []) \<longleftrightarrow>
    (\<forall>c\<in>set p. isdigit c) \<and> dec_val 0 p \<le> ULLONG_MAX \<and> v = word_of_int (dec_val 0 p)"
proof -
  from assms obtain c q where p: "p = c # q" by (cases p) auto
  with assms have c: "isdigit c" by (auto simp: isdigit_uint word_le_def)
  have val: "dec_val 0 p = dec_val (uint (ucast (c - 48) :: u64)) q" using uint_dig [OF c] by (simp add: p dec_val_Cons)
  show ?thesis
  proof (cases "\<forall>c\<in>set q. isdigit c")
    case True
    then have q: "takeWhile isdigit q = q" "dropWhile isdigit q = []" by (simp_all add: dropWhile_eq_Nil_conv)
    show ?thesis using True c unfolding p list.sel string2ll_loop_eq q val [unfolded p] by (auto simp: Let_def)
  next
    case False
    then have "dropWhile isdigit q \<noteq> []" by (simp add: dropWhile_eq_Nil_conv)
    then show ?thesis using False by (auto simp: p string2ll_loop_eq Let_def)
  qed
qed

text \<open>The limits of the result, and the result as a signed number.\<close>

lemma signed_result:
  assumes "0 \<le> w" "w \<le> ULLONG_MAX"
  shows "word_of_int (- (LLONG_MIN + 1)) + 1 < (word_of_int w :: u64) \<longleftrightarrow> - LLONG_MIN < w"
    and "word_of_int LLONG_MAX < (word_of_int w :: u64) \<longleftrightarrow> LLONG_MAX < w"
    and "w \<le> LLONG_MAX \<Longrightarrow> sint (word_of_int w :: u64) = w"
    and "w \<le> - LLONG_MIN \<Longrightarrow> sint (- word_of_int w :: u64) = - w"
proof -
  have u: "uint (word_of_int w :: u64) = w" using assms by (simp add: unsigned_of_int take_bit_eq_mod ULLONG_MAX_def)
  show "word_of_int (- (LLONG_MIN + 1)) + 1 < (word_of_int w :: u64) \<longleftrightarrow> - LLONG_MIN < w"
    unfolding word_less_def u by (simp add: LLONG_MIN_def)
  show "word_of_int LLONG_MAX < (word_of_int w :: u64) \<longleftrightarrow> LLONG_MAX < w"
    unfolding word_less_def u by (simp add: LLONG_MAX_def)
  show "sint (word_of_int w :: u64) = w" if "w \<le> LLONG_MAX"
    using that assms(1) by (simp add: signed_of_int signed_take_bit_int_eq_self LLONG_MAX_def)
  have "sint (word_of_int (- w) :: u64) = - w" if "w \<le> - LLONG_MIN"
    using that assms(1) by (subst signed_of_int) (simp add: signed_take_bit_int_eq_self LLONG_MIN_def)
  then show "sint (- word_of_int w :: u64) = - w" if "w \<le> - LLONG_MIN" using that by simp
qed

lemma numeral_hd:
  assumes "0 < v"
  shows "dec v \<noteq> [] \<and> 49 \<le> hd (dec v) \<and> hd (dec v) \<le> 57 \<and> hd (dec v) \<noteq> 45 \<and> dec v \<noteq> [48]"
proof -
  have "dec v \<noteq> []" "isdigit (hd (dec v))" "0 < dig (hd (dec v))"
    using assms dec_digits [of v] dec_hd [of v] by auto
  then show ?thesis by (auto simp: isdigit_uint dig_def word_le_def)
qed

lemma string2ll_numeral:
  assumes "LLONG_MIN \<le> v" and "v \<le> LLONG_MAX"
  shows "string2ll (numeral_of v) = Some v"
proof (cases "v = 0")
  case True
  then show ?thesis by (simp add: numeral_of_def dec_less_10 string2ll_def)
next
  case False
  let ?p = "dec \<bar>v\<bar>"
  have p: "?p \<noteq> []" "49 \<le> hd ?p" "hd ?p \<le> 57" "hd ?p \<noteq> 45" "?p \<noteq> [48]"
    using numeral_hd [of "\<bar>v\<bar>"] False by auto
  have "\<bar>v\<bar> \<le> ULLONG_MAX" using assms by (auto simp: LLONG_MIN_def LLONG_MAX_def ULLONG_MAX_def)
  then have "string2ll_loop (ucast (hd ?p - 48)) (tl ?p) = Some (word_of_int \<bar>v\<bar>, [])"
    using p string2ll_digits [of ?p "word_of_int \<bar>v\<bar>"] dec_digits [of "\<bar>v\<bar>"] dec_val_dec [of "\<bar>v\<bar>"] by simp
  then show ?thesis using p assms signed_result [of "\<bar>v\<bar>"] \<open>\<bar>v\<bar> \<le> ULLONG_MAX\<close>
    by (cases "v < 0") (simp_all add: string2ll_def numeral_of_def)
qed

lemma string2ll_Some:
  assumes "string2ll s = Some v"
  shows "LLONG_MIN \<le> v \<and> v \<le> LLONG_MAX \<and> s = numeral_of v"
proof (cases "s = [48]")
  case True
  with assms show ?thesis
    by (simp add: string2ll_def numeral_of_def dec_less_10 LLONG_MIN_def LLONG_MAX_def)
next
  case False
  define neg where "neg = (hd s = 45)"
  define p where "p = (if neg then tl s else s)"
  from assms False have s: "s \<noteq> []" "p \<noteq> []" and h: "49 \<le> hd p \<and> hd p \<le> 57"
    by (auto simp: string2ll_def Let_def p_def neg_def split: if_splits)
  from assms False s h obtain x where x: "string2ll_loop (ucast (hd p - 48)) (tl p) = Some (x, [])"
    and v: "if neg then \<not> word_of_int (- (LLONG_MIN + 1)) + 1 < x \<and> v = sint (- x) else \<not> word_of_int LLONG_MAX < x \<and> v = sint x"
    by (auto simp: string2ll_def Let_def p_def [symmetric] neg_def [symmetric] split: if_splits option.splits)
  define w where "w = dec_val 0 p"
  have d: "\<forall>c\<in>set p. isdigit c" "w = dec_val 0 p" "w \<le> ULLONG_MAX" "x = word_of_int w"
    using x string2ll_digits [OF s(2) h, of x] by (auto simp: w_def)
  have pos: "0 < dig (hd p)" using h by (simp add: dig_def word_le_def)
  then have "dec w = p" using dec_dec_val [OF s(2) d(1)] d(2) by simp
  have "0 < w"
  proof -
    obtain c q where "p = c # q" using s(2) by (cases p) auto
    then show ?thesis using d pos dec_val_ge [of "dig c" q] by (simp add: dec_val_Cons)
  qed
  then have v: "if neg then w \<le> - LLONG_MIN \<and> v = - w else w \<le> LLONG_MAX \<and> v = w"
    using v signed_result [of w] d(3) unfolding d(4) by (auto simp: not_less split: if_splits)
  then show ?thesis using \<open>dec w = p\<close> \<open>0 < w\<close> s(1)
    by (cases neg; cases s) (auto simp: numeral_of_def p_def neg_def LLONG_MIN_def LLONG_MAX_def)
qed

section \<open>Printing stores the numeral\<close>

lemma length_dec_div: "0 \<le> v \<Longrightarrow> 10 ^ k \<le> v \<Longrightarrow> length (dec v) = k + length (dec (v div 10 ^ k))"
proof (induction k arbitrary: v)
  case (Suc k)
  have "10 * 1 \<le> 10 * (10 :: int) ^ k" by (intro mult_left_mono) simp_all
  then have "10 \<le> v" using Suc.prems(2) unfolding power_Suc by linarith
  moreover have "10 ^ k \<le> v div 10" using Suc.prems(2) by simp
  ultimately show ?case
    using Suc.IH [of "v div 10"] Suc.prems(1) by (simp add: dec_ge_10 zdiv_zmult2_eq)
qed simp

lemma length_dec_exact:
  "10 ^ k \<le> v \<Longrightarrow> v < 10 ^ Suc k \<Longrightarrow> length (dec v) = Suc k"
proof -
  assume v: "10 ^ k \<le> v" "v < 10 ^ Suc k"
  have "v div 10 ^ k < 10"
  proof (rule ccontr)
    assume "\<not> v div 10 ^ k < 10"
    then have "10 ^ k * 10 \<le> 10 ^ k * (v div 10 ^ k)" by (intro mult_left_mono) simp_all
    also have "\<dots> \<le> v"
    proof -
      have "0 \<le> v mod 10 ^ k" by simp
      then show ?thesis using mult_div_mod_eq [of "10 ^ k" v] by linarith
    qed
    finally show False using v(2) by simp
  qed
  moreover have "0 \<le> v" using v(1) by (meson dual_order.trans zero_le_numeral zero_le_power)
  ultimately show ?thesis using length_dec_div [OF _ v(1)] by (simp add: dec_less_10)
qed

lemma digits10_length: "0 \<le> v \<Longrightarrow> digits10 v = length (dec v)"
proof (induction v rule: digits10.induct)
  case (1 v)
  show ?case
  proof (cases "v < 1000000000000")
    case True
    note l = length_dec_exact [of 1 v] length_dec_exact [of 2 v] length_dec_exact [of 3 v]
      length_dec_exact [of 4 v] length_dec_exact [of 5 v] length_dec_exact [of 6 v]
      length_dec_exact [of 7 v] length_dec_exact [of 8 v] length_dec_exact [of 9 v]
      length_dec_exact [of 10 v] length_dec_exact [of 11 v]
    show ?thesis
      using l True by (auto simp: digits10.simps [of v] dec_less_10 not_less not_le)
  next
    case False
    then show ?thesis
      using 1 length_dec_div [of v 12] by (simp add: digits10.simps [of v])
  qed
qed

lemma digits_pairs:
  "list_all (\<lambda>i. digits ! (2 * i) = 48 + word_of_nat (i div 10) \<and>
     digits ! (2 * i + 1) = 48 + word_of_nat (i mod 10)) [0..<100]"
  by (simp add: digits_def upt_rec)

lemma digits_nth:
  assumes "0 \<le> i" and "i < 100"
  shows "nth_opt digits (nat (i * 2)) = Some (48 + word_of_int (i div 10))"
    and "nth_opt digits (nat (i * 2) + 1) = Some (48 + word_of_int (i mod 10))"
proof -
  obtain k where k: "i = int k" "k < 100" using assms by (metis nat_less_iff nat_0_le of_nat_numeral nonneg_int_cases zero_le_numeral nat_int)
  have "length digits = 200" by (simp add: digits_def)
  moreover have "digits ! (2 * k) = 48 + word_of_nat (k div 10)" "digits ! (2 * k + 1) = 48 + word_of_nat (k mod 10)"
    using digits_pairs k(2) by (auto simp: list_all_iff)
  moreover have "nat (i * 2) = 2 * k" using k(1) by simp
  moreover have "i div 10 = int (k div 10)" "i mod 10 = int (k mod 10)"
    using k(1) by (simp_all add: zdiv_int zmod_int)
  ultimately show "nth_opt digits (nat (i * 2)) = Some (48 + word_of_int (i div 10))"
    "nth_opt digits (nat (i * 2) + 1) = Some (48 + word_of_int (i mod 10))"
    using k(2) by (simp_all add: nth_opt_def)
qed

lemma put_pair_Some:
  "0 \<le> i \<Longrightarrow> i < 100 \<Longrightarrow> 1 \<le> next \<Longrightarrow> next < length dst \<Longrightarrow>
   put_pair dst (i * 2) next =
     Some (dst[next := 48 + word_of_int (i mod 10), next - 1 := 48 + word_of_int (i div 10)])"
  using digits_nth [of i] by (simp add: put_pair_def)

lemma dec_ge_100:
  assumes "100 \<le> v"
  shows "dec v = dec (v div 100) @ [48 + word_of_int (v mod 100 div 10), 48 + word_of_int (v mod 100 mod 10)]"
proof -
  have m: "v mod 100 = 10 * (v div 10 mod 10) + v mod 10"
    using zmod_zmult2_eq [of 10 v 10] by simp
  have eqs: "v div 10 div 10 = v div 100" "v div 10 mod 10 = v mod 100 div 10"
      "v mod 10 = v mod 100 mod 10"
    using zdiv_zmult2_eq [of 10 v 10] apply simp
     apply (subst m, simp)
    by (simp add: mod_mod_cancel)
  have "10 \<le> v" "10 \<le> v div 10" using assms zdiv_mono1 [OF assms, of 10] by simp_all
  then show ?thesis
    using dec_ge_10 [of v] dec_ge_10 [of "v div 10"] unfolding eqs by (simp only: append_assoc append_Cons append_Nil)
qed

lemma set_pair:
  assumes "1 \<le> n" and "n < length dst"
  shows "take (n - 1) (dst[n := b, n - 1 := a]) = take (n - 1) dst"
    and "drop (n - 1) (dst[n := b, n - 1 := a]) = [a, b] @ drop (Suc n) dst"
proof -
  show "take (n - 1) (dst[n := b, n - 1 := a]) = take (n - 1) dst" using assms by simp
  have "drop (n - 1) (dst[n := b, n - 1 := a]) =
      a # drop (Suc (n - 1)) (dst[n := b, n - 1 := a])"
    using assms Cons_nth_drop_Suc [of "n - 1" "dst[n := b, n - 1 := a]"] by simp
  also have "drop (Suc (n - 1)) (dst[n := b, n - 1 := a]) = drop n (dst[n := b])"
    using assms by (simp add: drop_update_cancel)
  also have "\<dots> = b # drop (Suc n) dst"
    using assms Cons_nth_drop_Suc [of n "dst[n := b]"] by simp
  finally show "drop (n - 1) (dst[n := b, n - 1 := a]) = [a, b] @ drop (Suc n) dst" by simp
qed

lemma emit_ok:
  "0 \<le> v \<Longrightarrow> length (dec v) \<le> Suc next \<Longrightarrow> next < length dst \<Longrightarrow>
   emit dst v next = Some (take (Suc next - length (dec v)) dst @ dec v @ drop (Suc next) dst)"
proof (induction dst v "next" rule: ll2string_loop.induct)
  case (1 dst v "next")
  consider "v < 10" | "10 \<le> v" "v < 100" | "100 \<le> v" by linarith
  then show ?case
  proof cases
    case 1
    then show ?thesis using "1.prems"
      by (simp add: emit_def ll2string_loop.simps [of dst v] dec_less_10 upd_conv_take_nth_drop)
  next
    case 2
    then have d: "dec v = [48 + word_of_int (v div 10), 48 + word_of_int (v mod 10)]"
      by (simp add: dec_ge_10 dec_less_10)
    let ?dst = "dst[next := 48 + word_of_int (v mod 10), next - 1 := 48 + word_of_int (v div 10)]"
    have "?dst = take (next - 1) ?dst @ drop (next - 1) ?dst"
      by (rule append_take_drop_id [symmetric])
    also have "\<dots> = take (next - 1) dst @ dec v @ drop (Suc next) dst"
      using "1.prems" d set_pair [of "next" dst] by simp
    finally show ?thesis using 2 "1.prems" d
      by (simp add: emit_def ll2string_loop.simps [of dst v] put_pair_Some)
  next
    case 3
    have "0 \<le> v div 100" using 3 by (simp add: pos_imp_zdiv_nonneg_iff)
    then have l: "2 \<le> next" using "1.prems" 3 dec_ge_100 [OF 3] dec_digits [of "v div 100"]
      by (cases "dec (v div 100)") auto
    let ?dst = "dst[next := 48 + word_of_int (v mod 100 mod 10), next - 1 := 48 + word_of_int (v mod 100 div 10)]"
    have p: "put_pair dst (v mod 100 * 2) next = Some ?dst"
      using l "1.prems" by (intro put_pair_Some) auto
    have "emit dst v next = emit ?dst (v div 100) (next - 2)"
      using 3 p l by (simp add: emit_def ll2string_loop.simps [of dst v])
    also have "\<dots> = Some (take (Suc (next - 2) - length (dec (v div 100))) ?dst @ dec (v div 100) @
        drop (Suc (next - 2)) ?dst)"
      using "1.prems" 3 l p dec_ge_100 [OF 3] by (intro "1.IH") auto
    also have "Suc (next - 2) = next - 1" using l by simp
    also have "drop (next - 1) ?dst = [48 + word_of_int (v mod 100 div 10), 48 + word_of_int (v mod 100 mod 10)] @ drop (Suc next) dst"
      using l "1.prems" by (intro set_pair) auto
    also have "take (next - 1 - length (dec (v div 100))) ?dst = take (Suc next - length (dec v)) dst"
    proof -
      have "take (next - 1 - length (dec (v div 100))) ?dst =
          take (next - 1 - length (dec (v div 100))) (take (next - 1) ?dst)" by simp
      also have "take (next - 1) ?dst = take (next - 1) dst" using l "1.prems" by (intro set_pair) auto
      finally show ?thesis using dec_ge_100 [OF 3] by simp
    qed
    finally show ?thesis using dec_ge_100 [OF 3] by simp
  qed
qed

lemma ll2string_ok:
  assumes "LLONG_MIN \<le> v" and "v \<le> LLONG_MAX" and "dstlen \<le> length dst"
  shows "ll2string dst dstlen v =
    (let n = length (numeral_of v) in
     Some (if dstlen \<le> n then (dst, 0) else (numeral_of v @ 0 # drop (Suc n) dst, n)))"
proof -
  define w where "w = \<bar>v\<bar>"
  have w: "(if v < 0 then abs_ll v else Some v) = Some w" "0 \<le> w"
    using assms by (auto simp: w_def abs_ll_def neg_ll_def LLONG_MIN_def LLONG_MAX_def)
  define n where "n = length (numeral_of v)"
  have n: "n = length (dec w) + of_bool (v < 0)" "n \<noteq> 0"
    using dec_digits [of w] w(2) by (auto simp: n_def numeral_of_def w_def)
  show ?thesis
  proof (cases "dstlen \<le> n")
    case True
    then show ?thesis
      using n by (simp add: ll2string_def w digits10_length n_def [symmetric] Let_def)
  next
    case False
    let ?d = "dst[n := 0]"
    have len: "n < length dst" using False assms(3) by simp
    have "emit ?d w (n - 1) = Some (take (n - length (dec w)) ?d @ dec w @ drop n ?d)"
      using emit_ok [of w "n - 1" ?d] w(2) n len by simp
    moreover have "drop n ?d = 0 # drop (Suc n) dst"
      using len Cons_nth_drop_Suc [of n ?d] by simp
    ultimately have e: "emit ?d w (n - 1) = Some (take (n - length (dec w)) dst @ dec w @ 0 # drop (Suc n) dst)"
      using n by simp
    have "ll2string dst dstlen v = do {
        dst \<leftarrow> emit ?d w (n - 1);
        dst \<leftarrow> (if v < 0 then upd_opt dst 0 45 else Some dst);
        Some (dst, n)}"
      using False n len
      by (simp add: ll2string_def w digits10_length Let_def)
    then show ?thesis
      using e n len False
      by (cases dst) (auto simp: numeral_of_def w_def n_def [symmetric] Let_def)
  qed
qed

lemma length_dec_le: "v < 10 ^ Suc k \<Longrightarrow> length (dec v) \<le> Suc k"
proof (induction k arbitrary: v)
  case 0
  then show ?case by (simp add: dec_less_10)
next
  case (Suc k)
  then have "v div 10 < 10 ^ Suc k" by simp
  then show ?case using Suc.IH [of "v div 10"] by (cases "v < 10") (simp_all add: dec_less_10 dec_ge_10)
qed

section \<open>Properties\<close>

text \<open>
  C22. Strict parsing.  \<^verbatim>\<open>string2ll\<close> accepts a string exactly when it is the canonical decimal
  numeral of a 64-bit signed integer, and then returns that integer: no overflow goes unnoticed,
  and no second spelling of a number (leading zeros, \<^verbatim>\<open>+\<close>, \<^verbatim>\<open>-0\<close>, trailing bytes) is accepted.
\<close>

theorem string2ll_iff:
  "string2ll s = Some v \<longleftrightarrow> LLONG_MIN \<le> v \<and> v \<le> LLONG_MAX \<and> s = numeral_of v"
  using string2ll_Some string2ll_numeral by blast

text \<open>
  C23. Printing.  With a buffer of the stated size, \<^verbatim>\<open>ll2string\<close> never writes outside it.  It stores
  the decimal numeral and a zero byte when they fit, and returns 0 with the buffer untouched when they
  do not.
\<close>

theorem ll2string_numeral:
  assumes "LLONG_MIN \<le> v" and "v \<le> LLONG_MAX" and "dstlen \<le> length dst"
  shows "ll2string dst dstlen v =
    (let n = length (numeral_of v) in
     Some (if dstlen \<le> n then (dst, 0) else (numeral_of v @ 0 # drop (Suc n) dst, n)))"
  using assms by (rule ll2string_ok)

theorem ll2string_numeral_witness:
  "ll2string [1, 2, 3, 4, 5, 6] 6 (- 123) = Some ([45, 49, 50, 51, 0, 6], 4)"
  using ll2string_numeral [of "- 123" 6 "[1, 2, 3, 4, 5, 6]"]
  by (simp add: numeral_of_def LLONG_MIN_def LLONG_MAX_def dec.simps)

end
