(* ===== verification/Util_Match.thy ===== *)
theory Util_Match
  imports Bytes
begin

text \<open>
  The glob matcher \<^verbatim>\<open>stringmatchlen\<close> of \<^verbatim>\<open>redis/redis/src/util.c\<close>.  A pointer into the
  pattern or the string is the list of the bytes from there to the end of the buffer, terminating zero
  byte included; the two lengths are integers of their own, as in the code, which lets them go negative.
  Reading past the buffer, or advancing a pointer that is already past its end, is \<^term>\<open>None\<close>.
\<close>

definition advance :: "'a list \<Rightarrow> 'a list option" where
  "advance ps = (case ps of [] \<Rightarrow> None | _ # t \<Rightarrow> Some t)"

definition chars_eq :: "bool \<Rightarrow> u8 \<Rightarrow> u8 \<Rightarrow> bool" where
  "chars_eq nocase a b = (if nocase then tolower a = tolower b else a = b)"

definition in_range :: "bool \<Rightarrow> u8 \<Rightarrow> u8 \<Rightarrow> u8 \<Rightarrow> bool" where
  "in_range nocase a b c =
    (let lo = (if sint b < sint a then b else a);
         hi = (if sint b < sint a then a else b);
         f = (\<lambda>x. sint (if nocase then tolower x else x)) in
     f lo \<le> f c \<and> f c \<le> f hi)"

text \<open>The loop over a character class; \<open>prev\<close> is the pattern pointer one byte back.\<close>

function class_loop ::
  "bool \<Rightarrow> u8 list \<Rightarrow> u8 list \<Rightarrow> u8 list \<Rightarrow> int \<Rightarrow> bool \<Rightarrow> (bool \<times> u8 list \<times> int) option" where
  "class_loop nocase ss prev ps pl match =
    (case ps of [] \<Rightarrow> None
     | c # ps1 \<Rightarrow>
       if c = 92 then
         (case ps1 of [] \<Rightarrow> None
          | c1 # ps2 \<Rightarrow> do {
              s \<leftarrow> nth_opt ss 0;
              class_loop nocase ss ps1 ps2 (pl - 2) (match \<or> c1 = s)
            })
       else if c = 93 then Some (match, ps, pl)
       else if pl = 0 then Some (match, prev, pl + 1)
       else do {
         c1 \<leftarrow> nth_opt ps 1;
         if c1 = 45 \<and> 3 \<le> pl then do {
           e \<leftarrow> nth_opt ps 2;
           s \<leftarrow> nth_opt ss 0;
           class_loop nocase ss (drop 2 ps) (drop 3 ps) (pl - 3) (match \<or> in_range nocase c e s)
         } else do {
           s \<leftarrow> nth_opt ss 0;
           class_loop nocase ss ps ps1 (pl - 1) (match \<or> chars_eq nocase c s)
         }
       })"
  by pat_completeness auto
termination by (relation "measure (\<lambda>(nocase, ss, prev, ps, pl, match). length ps)") auto

declare class_loop.simps [simp del]

fun skip_stars :: "u8 list \<Rightarrow> int \<Rightarrow> (u8 list \<times> int) option" where
  "skip_stars [] pl = None"
| "skip_stars (c # ps) pl = (if c = 42 then skip_stars ps (pl - 1) else Some (c # ps, pl))"

text \<open>The loop of a star: the pattern pointer stops at the last of a run of stars.\<close>

fun last_star :: "u8 list \<Rightarrow> int \<Rightarrow> (u8 list \<times> int) option" where
  "last_star (c # d # ps) pl = (if d = 42 then last_star (d # ps) (pl - 1) else Some (c # d # ps, pl))"
| "last_star ps pl = None"

lemma last_star_length: "last_star ps pl = Some (ps', pl') \<Longrightarrow> length ps' \<le> length ps \<and> ps' \<noteq> []"
  by (induction ps pl rule: last_star.induct) (auto split: if_splits)

lemma class_loop_length:
  "class_loop nocase ss prev ps pl m = Some (m', ps', pl') \<Longrightarrow>
   length ps' \<le> max (length prev) (length ps)"
proof (induction "length ps" arbitrary: prev ps pl m rule: less_induct)
  case less
  have IH: "length r \<le> max (length prev') (length qs)"
    if "class_loop nocase ss prev' qs pl'' m'' = Some (m', r, pl')" "length qs < length ps"
      "r = ps'" for prev' qs pl'' m'' r
    using less.hyps [of qs prev' pl'' m''] that by simp
  from less.prems show ?case
    by (subst (asm) class_loop.simps)
      (auto split: list.splits if_splits simp: Option.bind_eq_Some_conv nth_opt_def dest!: IH)
qed

function (sequential) smatch :: "bool \<Rightarrow> u8 list \<Rightarrow> int \<Rightarrow> u8 list \<Rightarrow> int \<Rightarrow> bool option"
  and smatch_star :: "bool \<Rightarrow> u8 list \<Rightarrow> int \<Rightarrow> u8 list \<Rightarrow> int \<Rightarrow> bool option"
  and smatch_next :: "bool \<Rightarrow> u8 list \<Rightarrow> int \<Rightarrow> u8 list \<Rightarrow> int \<Rightarrow> bool option" where
  "smatch nocase ps pl ss sl =
    (if pl = 0 then Some (sl = 0)
     else case ps of [] \<Rightarrow> None
     | c # ps1 \<Rightarrow>
       if c = 42 then do {
         (ps, pl) \<leftarrow> last_star ps pl;
         if pl = 1 then Some True else smatch_star nocase ps pl ss sl
       }
       else if c = 63 then
         (if sl = 0 then Some False
          else do { ss \<leftarrow> advance ss; smatch_next nocase ps pl ss (sl - 1) })
       else if c = 91 then do {
         c1 \<leftarrow> nth_opt ps1 0;
         let negated = (c1 = 94);
         (m, ps2, pl2) \<leftarrow> (if negated then class_loop nocase ss ps1 (tl ps1) (pl - 2) False
                          else class_loop nocase ss ps ps1 (pl - 1) False);
         if m = negated then Some False
         else do { ss \<leftarrow> advance ss; smatch_next nocase ps2 pl2 ss (sl - 1) }
       }
       else do {
         let (ps, pl) = (if c = 92 \<and> 2 \<le> pl then (ps1, pl - 1) else (ps, pl));
         p \<leftarrow> nth_opt ps 0;
         s \<leftarrow> nth_opt ss 0;
         if \<not> chars_eq nocase p s then Some False
         else do { ss \<leftarrow> advance ss; smatch_next nocase ps pl ss (sl - 1) }
       })"
| "smatch_star nocase ps pl ss sl =
    (if sl = 0 then Some False
     else do {
       ps1 \<leftarrow> advance ps;
       r \<leftarrow> smatch nocase ps1 (pl - 1) ss sl;
       if r then Some True
       else do { ss \<leftarrow> advance ss; smatch_star nocase ps pl ss (sl - 1) }
     })"
| "smatch_next nocase ps pl ss sl =
    (case ps of [] \<Rightarrow> None
     | _ # ps1 \<Rightarrow>
       if sl = 0 then do { (_, pl) \<leftarrow> skip_stars ps1 (pl - 1); Some (pl = 0) }
       else smatch nocase ps1 (pl - 1) ss sl)"
  by pat_completeness auto

termination
proof (relation "measures [
    \<lambda>x. case x of Inl (_, ps, _) \<Rightarrow> length ps | Inr (Inl (_, ps, _)) \<Rightarrow> length ps | Inr (Inr (_, ps, _)) \<Rightarrow> length ps,
    \<lambda>x. case x of Inl _ \<Rightarrow> 2 | Inr (Inl _) \<Rightarrow> 1 | Inr (Inr _) \<Rightarrow> 0,
    \<lambda>x. case x of Inr (Inl (_, _, _, ss, _)) \<Rightarrow> length ss | _ \<Rightarrow> 0]")
qed (auto simp: advance_def nth_opt_def split: list.splits if_splits dest!: last_star_length class_loop_length)

declare smatch.simps [simp del] smatch_star.simps [simp del] smatch_next.simps [simp del]

definition stringmatchlen :: "u8 list \<Rightarrow> u8 list \<Rightarrow> bool \<Rightarrow> bool option" where
  "stringmatchlen pattern str nocase =
     smatch nocase (pattern @ [0]) (int (length pattern)) (str @ [0]) (int (length str))"

section \<open>Reference semantics of patterns without classes\<close>

fun glob :: "bool \<Rightarrow> u8 list \<Rightarrow> u8 list \<Rightarrow> bool" where
  "glob nocase [] s \<longleftrightarrow> s = []"
| "glob nocase (c # p) s \<longleftrightarrow>
    (if c = 42 then \<exists>k\<le>length s. glob nocase p (drop k s)
     else if c = 63 then s \<noteq> [] \<and> glob nocase p (tl s)
     else if c = 92 \<and> p \<noteq> [] then s \<noteq> [] \<and> chars_eq nocase (hd p) (hd s) \<and> glob nocase (tl p) (tl s)
     else s \<noteq> [] \<and> chars_eq nocase c (hd s) \<and> glob nocase p (tl s))"

section \<open>The matcher meets it\<close>

lemma advance_Cons [simp]: "advance (x # xs) = Some xs"
  by (simp add: advance_def)

lemma skip_stars_eq:
  "skip_stars (p @ [0]) (int (length p)) =
   Some (dropWhile ((=) 42) p @ [0], int (length (dropWhile ((=) 42) p)))"
  by (induction p) auto

lemma last_star_eq:
  "last_star (42 # p @ [0]) (1 + int (length p)) =
   Some (42 # dropWhile ((=) 42) p @ [0], 1 + int (length (dropWhile ((=) 42) p)))"
  by (induction p) auto

lemma glob_star_star: "glob nocase (42 # 42 # p) s = glob nocase (42 # p) s"
proof -
  have "(\<exists>k\<le>length s. \<exists>j\<le>length s - k. glob nocase p (drop j (drop k s))) \<longleftrightarrow>
      (\<exists>k\<le>length s. glob nocase p (drop k s))"
  proof
    assume "\<exists>k\<le>length s. \<exists>j\<le>length s - k. glob nocase p (drop j (drop k s))"
    then obtain k j where "k \<le> length s" "j \<le> length s - k" "glob nocase p (drop (j + k) s)" by auto
    then show "\<exists>k\<le>length s. glob nocase p (drop k s)" by (intro exI [of _ "j + k"]) auto
  next
    assume "\<exists>k\<le>length s. glob nocase p (drop k s)"
    then show "\<exists>k\<le>length s. \<exists>j\<le>length s - k. glob nocase p (drop j (drop k s))"
      by (metis drop_0 zero_le)
  qed
  then show ?thesis by simp
qed

lemma glob_stars: "glob nocase (42 # dropWhile ((=) 42) p) s = glob nocase (42 # p) s"
proof (induction p)
  case (Cons c p)
  show ?case
  proof (cases "c = 42")
    case True
    then have "dropWhile ((=) 42) (c # p) = dropWhile ((=) 42) p" by simp
    then show ?thesis using Cons True by (simp only: glob_star_star)
  next
    case False
    then have "dropWhile ((=) 42) (c # p) = c # p" by simp
    then show ?thesis by (simp only:)
  qed
qed simp

lemma glob_Nil: "glob nocase p [] \<longleftrightarrow> dropWhile ((=) 42) p = []"
  by (induction p) auto

lemma chars_eq_0: "chars_eq nocase c 0 \<longleftrightarrow> c = 0"
proof -
  have "c + 32 \<noteq> 0" if "65 \<le> c" "c \<le> 90"
  proof
    assume "c + 32 = 0"
    then have "(uint c + 32) mod 256 = 0" using uint_word_ariths(1) [of c 32] by simp
    then show False using that by (simp add: word_le_def)
  qed
  then show ?thesis by (auto simp: chars_eq_def tolower_def)
qed

lemma smatch_next_glob:
  assumes "smatch nocase (p @ [0]) (int (length p)) (s @ [0]) (int (length s)) = Some (glob nocase p s)"
  shows "smatch_next nocase (c # p @ [0]) (1 + int (length p)) (s @ [0]) (int (length s)) =
    Some (glob nocase p s)"
  using assms by (cases "s = []") (simp_all add: smatch_next.simps skip_stars_eq glob_Nil)

lemma smatch_star_glob:
  assumes "\<And>s. smatch nocase (p @ [0]) (int (length p)) (s @ [0]) (int (length s)) = Some (glob nocase p s)"
  shows "smatch_star nocase (c # p @ [0]) (1 + int (length p)) (s @ [0]) (int (length s)) =
    Some (\<exists>k<length s. glob nocase p (drop k s))"
proof (induction s)
  case Nil
  then show ?case by (simp add: smatch_star.simps)
next
  case (Cons x s)
  have "(\<exists>k<length (x # s). glob nocase p (drop k (x # s))) \<longleftrightarrow>
      glob nocase p (x # s) \<or> (\<exists>k<length s. glob nocase p (drop k s))"
    by (auto simp: less_Suc_eq_0_disj)
  then show ?case
    using Cons assms [of "x # s"] by (simp add: smatch_star.simps [of _ _ _ "x # s @ [0]"])
qed

lemma smatch_glob:
  assumes "91 \<notin> set p" and "0 \<notin> set p"
  shows "smatch nocase (p @ [0]) (int (length p)) (s @ [0]) (int (length s)) = Some (glob nocase p s)"
  using assms
proof (induction "length p" arbitrary: p s rule: less_induct)
  case less
  show ?case
  proof (cases p)
    case Nil
    then show ?thesis by (simp add: smatch.simps)
  next
    case (Cons c q)
    have IH: "smatch nocase (r @ [0]) (int (length r)) (s @ [0]) (int (length s)) = Some (glob nocase r s)"
      if "set r \<subseteq> set p" "length r < length p" for r s
      using less.hyps [of r s] less.prems that by auto
    show ?thesis
    proof (cases "c = 42")
      case True
      let ?q = "dropWhile ((=) 42) q"
      have q: "set ?q \<subseteq> set p" "length ?q < length p"
        using set_dropWhileD [of _ "(=) 42" q] length_dropWhile_le [of "(=) 42" q] Cons
        by (auto simp: less_Suc_eq_le)
      have ex: "(\<exists>k<length s. glob nocase ?q (drop k s)) = (\<exists>k\<le>length s. glob nocase ?q (drop k s))"
        if "?q \<noteq> []"
      proof -
        have "hd ?q \<noteq> 42" using hd_dropWhile [OF that] by simp
        then have "dropWhile ((=) 42) ?q \<noteq> []" using that by (cases ?q) auto
        then have "\<not> glob nocase ?q (drop (length s) s)" by (simp add: glob_Nil)
        then show ?thesis by (metis le_neq_implies_less less_imp_le)
      qed
      have "smatch nocase (p @ [0]) (int (length p)) (s @ [0]) (int (length s)) =
          (if ?q = [] then Some True
           else smatch_star nocase (42 # ?q @ [0]) (1 + int (length ?q)) (s @ [0]) (int (length s)))"
        using last_star_eq [of q] True Cons by (simp add: smatch.simps [of _ "42 # q @ [0]"])
      also have "\<dots> = Some (glob nocase (42 # ?q) s)"
      proof (cases "?q = []")
        case True
        have "glob nocase (42 # []) s" by auto
        then show ?thesis unfolding True by simp
      next
        case False
        then show ?thesis using smatch_star_glob [OF IH [OF q], of 42 s] ex [OF False] by auto
      qed
      finally show ?thesis using True Cons glob_stars [of nocase q s] by simp
    next
      case False
      have nx: "smatch_next nocase (c # q @ [0]) (1 + int (length q)) (t @ [0]) (int (length t)) =
          Some (glob nocase q t)" for t
        by (rule smatch_next_glob, rule IH) (use Cons in auto)
      have nz: "d \<in> set p \<Longrightarrow> \<not> chars_eq nocase d 0" for d
        using less.prems(2) by (auto simp: chars_eq_0)
      have c: "c \<noteq> 91" "\<not> chars_eq nocase c 0" using less.prems(1) nz Cons by auto
      show ?thesis
      proof (cases "c = 92 \<and> q \<noteq> []")
        case True
        then obtain d r where q: "q = d # r" by (cases q) auto
        have "smatch_next nocase (d # r @ [0]) (1 + int (length r)) (t @ [0]) (int (length t)) =
            Some (glob nocase r t)" for t
          by (rule smatch_next_glob, rule IH) (use Cons q in auto)
        moreover have "\<not> chars_eq nocase d 0" using nz Cons q by simp
        ultimately show ?thesis
          using True Cons q by (cases s) (simp_all add: smatch.simps [of _ "_ # _"])
      next
        case False
        then show ?thesis using \<open>c \<noteq> 42\<close> c nx Cons
          by (cases s) (auto simp: smatch.simps [of _ "_ # _"])
      qed
    qed
  qed
qed

section \<open>Reading behind the pattern\<close>

text \<open>In a class without special bytes the loop comes to the final backslash and steps over the terminator.\<close>

lemma class_loop_backslash:
  "set body \<inter> {45, 92, 93} = {} \<Longrightarrow> class_loop nocase ss prev (body @ [92, 0]) (1 + int (length body)) m = None"
proof (induction body arbitrary: prev m)
  case Nil
  have "class_loop nocase ss ps [] pl m = None" for ps pl m by (subst class_loop.simps) simp
  then show ?case by (subst class_loop.simps) (cases ss; simp add: nth_opt_def)
next
  case (Cons c body)
  have "nth_opt (body @ [92, 0]) 0 = Some d \<Longrightarrow> d \<noteq> 45" for d
    using Cons.prems by (cases body) (auto simp: nth_opt_def)
  then show ?case using Cons
    by (subst class_loop.simps) (cases ss; cases body; auto simp: nth_opt_def)
qed

lemma smatch_class_backslash:
  assumes "set body \<inter> {45, 92, 93} = {}"
  shows "smatch nocase (91 # body @ [92, 0]) (2 + int (length body)) ss sl = None"
proof (cases "body \<noteq> [] \<and> hd body = 94")
  case True
  then obtain b where b: "body = 94 # b" by (cases body) auto
  then show ?thesis using class_loop_backslash [of b nocase ss "94 # b @ [92, 0]" False] assms
    by (subst smatch.simps) (simp add: nth_opt_def)
next
  case False
  then show ?thesis using class_loop_backslash [OF assms, of nocase ss "91 # body @ [92, 0]" False]
    by (cases body) (subst smatch.simps; simp add: nth_opt_def)+
qed

lemma smatch_literals:
  assumes "set lit \<inter> {42, 63, 91, 92} = {}" "s \<noteq> []" "0 < pl"
  shows "smatch nocase (lit @ ps) (int (length lit) + pl) (lit @ s @ [0]) (int (length lit + length s)) =
    smatch nocase ps pl (s @ [0]) (int (length s))"
  using assms(1)
proof (induction lit)
  case (Cons c lit)
  have "int (length lit) + int (length s) \<noteq> 0" using assms(2) by (cases s) simp_all
  then have "smatch nocase ((c # lit) @ ps) (int (length (c # lit)) + pl) ((c # lit) @ s @ [0]) (int (length (c # lit) + length s)) =
      smatch nocase (lit @ ps) (int (length lit) + pl) (lit @ s @ [0]) (int (length lit + length s))"
    using Cons.prems assms(2,3)
    by (subst smatch.simps) (simp add: nth_opt_def chars_eq_def smatch_next.simps algebra_simps)
  then show ?case using Cons by simp
qed simp

section \<open>Properties\<close>

text \<open>
  C20. For a pattern without a character class and without zero bytes the matcher reads only inside its
  buffers, terminates, and decides the textbook relation: a star matches any substring, a question mark
  any byte, a backslash makes the next byte literal.  Zero bytes are excluded because the terminator of
  the string counts as a match for one: the string length then becomes negative and the matcher reads on
  behind the string.
\<close>

theorem stringmatchlen_glob:
  assumes "91 \<notin> set pattern" and "0 \<notin> set pattern"
  shows "stringmatchlen pattern str nocase = Some (glob nocase pattern str)"
  unfolding stringmatchlen_def using assms by (rule smatch_glob)

theorem stringmatchlen_glob_witness:
  "stringmatchlen [97, 42, 67] [97, 98, 98, 99] True = Some True"
proof -
  have "glob True [97, 42, 67] [97, 98, 98, 99]"
    by (simp add: chars_eq_def tolower_def) (intro exI [of _ 2], simp add: chars_eq_def tolower_def)
  then show ?thesis using stringmatchlen_glob [of "[97, 42, 67]" "[97, 98, 98, 99]" True] by simp
qed

text \<open>
  C21. A pattern that ends in a backslash inside a class makes the matcher read behind its end.  Let the
  pattern be literal bytes followed by an opening bracket, any bytes other than a dash, a backslash and a
  closing bracket, and a backslash.  On every string that begins with the literal bytes and goes on, the
  matcher steps over the terminating zero byte of the pattern and is undefined: the length has become
  negative, so the end-of-pattern test never fires.
\<close>

theorem stringmatchlen_overread:
  assumes "set lit \<inter> {42, 63, 91, 92} = {}" and "set body \<inter> {45, 92, 93} = {}" and "s \<noteq> []"
  shows "stringmatchlen (lit @ 91 # body @ [92]) (lit @ s) nocase = None"
proof -
  have "stringmatchlen (lit @ 91 # body @ [92]) (lit @ s) nocase =
      smatch nocase (lit @ 91 # body @ [92, 0]) (int (length lit) + (2 + int (length body))) (lit @ s @ [0]) (int (length lit + length s))"
    by (simp add: stringmatchlen_def algebra_simps)
  also have "\<dots> = smatch nocase (91 # body @ [92, 0]) (2 + int (length body)) (s @ [0]) (int (length s))"
    by (rule smatch_literals [OF assms(1,3)]) simp
  also have "\<dots> = None" by (rule smatch_class_backslash [OF assms(2)])
  finally show ?thesis .
qed

theorem stringmatchlen_overread_witness: "stringmatchlen [97, 91, 98, 92] [97, 99] False = None"
  using stringmatchlen_overread [of "[97]" "[98]" "[99]" False] by simp

end
