(* ===== verification/Intset.thy ===== *)
theory Intset
  imports Bytes Interfaces
begin

text \<open>
  The integer set of \<^verbatim>\<open>redis/redis/src/intset.c\<close>: a sorted array of integers in a byte buffer,
  all stored with 2, 4 or 8 bytes, and upgraded in place when a wider value arrives.

  \<^verbatim>\<open>contents\<close> is the list of the bytes behind the header.  Fields of the struct are little-endian on
  every host, so the byte order macros do not appear.  Sizes in bytes are computed modulo
  \<open>2 ^ 32\<close> as in the code.
\<close>

section \<open>State and accessors\<close>

record intset =
  encoding :: nat
  is_length :: nat
  contents :: "u8 list"

definition INTSET_ENC_INT16 :: nat where "INTSET_ENC_INT16 = 2"
definition INTSET_ENC_INT32 :: nat where "INTSET_ENC_INT32 = 4"
definition INTSET_ENC_INT64 :: nat where "INTSET_ENC_INT64 = 8"

lemmas enc_defs = INTSET_ENC_INT16_def INTSET_ENC_INT32_def INTSET_ENC_INT64_def

definition intsetValueEncoding :: "int \<Rightarrow> nat" where
  "intsetValueEncoding v =
    (if v < -2147483648 \<or> 2147483647 < v then INTSET_ENC_INT64
     else if v < -32768 \<or> 32767 < v then INTSET_ENC_INT32
     else INTSET_ENC_INT16)"

definition intsetGetEncoded :: "intset \<Rightarrow> nat \<Rightarrow> nat \<Rightarrow> int option" where
  "intsetGetEncoded is pos enc =
    (if enc = INTSET_ENC_INT64 then map_option sdec (rd_mem (contents is) (pos * 8) 8)
     else if enc = INTSET_ENC_INT32 then map_option sdec (rd_mem (contents is) (pos * 4) 4)
     else map_option sdec (rd_mem (contents is) (pos * 2) 2))"

definition intsetGet_at :: "intset \<Rightarrow> nat \<Rightarrow> int option" where
  "intsetGet_at is pos = intsetGetEncoded is pos (encoding is)"

definition intsetSet :: "intset \<Rightarrow> nat \<Rightarrow> int \<Rightarrow> intset option" where
  "intsetSet is pos val =
    (let put = (\<lambda>n. do {
       c \<leftarrow> wr_mem (contents is) (pos * n) (le_bytes n val);
       Some (is\<lparr>contents := c\<rparr>)
     }) in
     if encoding is = INTSET_ENC_INT64 then put 8
     else if encoding is = INTSET_ENC_INT32 then put 4
     else put 2)"

section \<open>Operations\<close>

definition intsetNew :: intset where
  "intsetNew = \<lparr>encoding = INTSET_ENC_INT16, is_length = 0, contents = []\<rparr>"

definition intsetResize :: "(nat \<Rightarrow> u8) \<Rightarrow> intset \<Rightarrow> nat \<Rightarrow> intset" where
  "intsetResize junk is len =
     is\<lparr>contents := realloc junk (contents is) ((len * encoding is) mod 2 ^ 32)\<rparr>"

text \<open>
  The binary search.  The bounds are \<^verbatim>\<open>int\<close> variables, so that their sum, taken as
  \<^verbatim>\<open>unsigned int\<close>, does not wrap.
\<close>

function search_loop :: "intset \<Rightarrow> int \<Rightarrow> int \<Rightarrow> int \<Rightarrow> int \<Rightarrow> int \<Rightarrow> (int \<times> int \<times> int) option" where
  "search_loop is val lo hi mid cur =
    (if lo \<le> hi then do {
       let mid = (lo + hi) div 2;
       cur \<leftarrow> intsetGet_at is (nat mid);
       if cur < val then search_loop is val (mid + 1) hi mid cur
       else if val < cur then search_loop is val lo (mid - 1) mid cur
       else Some (lo, mid, cur)
     } else Some (lo, mid, cur))"
  by pat_completeness auto
termination
  by (relation "measure (\<lambda>(is, val, lo, hi, mid, cur). nat (hi - lo + 1))") auto

declare search_loop.simps [simp del]

definition intsetSearch :: "intset \<Rightarrow> int \<Rightarrow> (bool \<times> nat) option" where
  "intsetSearch is val =
    (if is_length is = 0 then Some (False, 0)
     else do {
       last \<leftarrow> intsetGet_at is (is_length is - 1);
       if last < val then Some (False, is_length is)
       else do {
         first \<leftarrow> intsetGet_at is 0;
         if val < first then Some (False, 0)
         else do {
           (lo, mid, cur) \<leftarrow> search_loop is val 0 (int (is_length is) - 1) (-1) (-1);
           if val = cur then Some (True, nat mid) else Some (False, nat lo)
         }
       }
     })"

fun upgrade_loop :: "intset \<Rightarrow> nat \<Rightarrow> nat \<Rightarrow> nat \<Rightarrow> intset option" where
  "upgrade_loop is curenc prepend 0 = Some is"
| "upgrade_loop is curenc prepend (Suc len) = do {
     v \<leftarrow> intsetGetEncoded is len curenc;
     is \<leftarrow> intsetSet is (len + prepend) v;
     upgrade_loop is curenc prepend len
   }"

definition intsetUpgradeAndAdd :: "(nat \<Rightarrow> u8) \<Rightarrow> intset \<Rightarrow> int \<Rightarrow> intset option" where
  "intsetUpgradeAndAdd junk is val = do {
     let curenc = encoding is;
     let prepend = (if val < 0 then 1 else 0);
     let len = is_length is;
     let is = is\<lparr>encoding := intsetValueEncoding val\<rparr>;
     let is = intsetResize junk is (is_length is + 1);
     is \<leftarrow> upgrade_loop is curenc prepend len;
     is \<leftarrow> (if prepend = 1 then intsetSet is 0 val else intsetSet is (is_length is) val);
     Some (is\<lparr>is_length := is_length is + 1\<rparr>)
   }"

definition intsetMoveTail :: "intset \<Rightarrow> nat \<Rightarrow> nat \<Rightarrow> intset option" where
  "intsetMoveTail is from to =
    (let n = (if encoding is = INTSET_ENC_INT64 then 8
              else if encoding is = INTSET_ENC_INT32 then 4 else 2) in do {
       c \<leftarrow> memmove (contents is) (to * n) (from * n) (((is_length is - from) * n) mod 2 ^ 32);
       Some (is\<lparr>contents := c\<rparr>)
     })"

definition intsetAdd :: "(nat \<Rightarrow> u8) \<Rightarrow> intset \<Rightarrow> int \<Rightarrow> (intset \<times> bool) option" where
  "intsetAdd junk is val =
    (if encoding is < intsetValueEncoding val
     then do { is \<leftarrow> intsetUpgradeAndAdd junk is val; Some (is, True) }
     else do {
       (found, pos) \<leftarrow> intsetSearch is val;
       if found then Some (is, False)
       else do {
         let is = intsetResize junk is (is_length is + 1);
         is \<leftarrow> (if pos < is_length is then intsetMoveTail is pos (pos + 1) else Some is);
         is \<leftarrow> intsetSet is pos val;
         Some (is\<lparr>is_length := is_length is + 1\<rparr>, True)
       }
     })"

definition intsetRemove :: "(nat \<Rightarrow> u8) \<Rightarrow> intset \<Rightarrow> int \<Rightarrow> (intset \<times> bool) option" where
  "intsetRemove junk is val =
    (if intsetValueEncoding val \<le> encoding is then do {
       (found, pos) \<leftarrow> intsetSearch is val;
       if \<not> found then Some (is, False)
       else do {
         let len = is_length is;
         is \<leftarrow> (if pos < len - 1 then intsetMoveTail is (pos + 1) pos else Some is);
         let is = intsetResize junk is (len - 1);
         Some (is\<lparr>is_length := len - 1\<rparr>, True)
       }
     } else Some (is, False))"

definition intsetFind :: "intset \<Rightarrow> int \<Rightarrow> bool option" where
  "intsetFind is val =
    (if intsetValueEncoding val \<le> encoding is then map_option fst (intsetSearch is val)
     else Some False)"

text \<open>\<^verbatim>\<open>rand()\<close> is an argument.\<close>

definition intsetRandom :: "nat \<Rightarrow> intset \<Rightarrow> int option" where
  "intsetRandom rnd is = do {
     assert_opt (is_length is \<noteq> 0);
     intsetGet_at is (rnd mod is_length is)
   }"

definition intsetGet :: "intset \<Rightarrow> nat \<Rightarrow> int option option" where
  "intsetGet is pos =
    (if pos < is_length is then map_option Some (intsetGet_at is pos) else Some None)"

definition intsetLen :: "intset \<Rightarrow> nat" where "intsetLen is = is_length is"

definition intsetBlobLen :: "intset \<Rightarrow> nat" where
  "intsetBlobLen is = 8 + (is_length is * encoding is) mod 2 ^ 32"

section \<open>Elements and invariant\<close>

definition elem :: "nat \<Rightarrow> u8 list \<Rightarrow> nat \<Rightarrow> int" where
  "elem e c i = sdec (take e (drop (i * e) c))"

definition elems :: "intset \<Rightarrow> int list" where
  "elems is = map (elem (encoding is) (contents is)) [0..<is_length is]"

definition fits :: "nat \<Rightarrow> int \<Rightarrow> bool" where
  "fits e v \<longleftrightarrow> - (256 ^ e) \<le> 2 * v \<and> 2 * v < 256 ^ e"

text \<open>The size limit keeps the byte counts of the code, which are 32 bits wide, from wrapping.\<close>

definition MAX_LEN :: nat where "MAX_LEN = 2 ^ 29 - 1"

definition intset_inv :: "intset \<Rightarrow> bool" where
  "intset_inv is \<longleftrightarrow> encoding is \<in> {2, 4, 8} \<and> length (contents is) = is_length is * encoding is \<and>
     is_length is \<le> MAX_LEN \<and> sorted_wrt (<) (elems is)"

lemma enc_cases: "e \<in> {2, 4, 8} \<Longrightarrow> (e = 2 \<Longrightarrow> P) \<Longrightarrow> (e = 4 \<Longrightarrow> P) \<Longrightarrow> (e = 8 \<Longrightarrow> P) \<Longrightarrow> P"
  by auto

lemma fits_enc:
  "fits 2 v \<longleftrightarrow> -32768 \<le> v \<and> v \<le> 32767"
  "fits 4 v \<longleftrightarrow> -2147483648 \<le> v \<and> v \<le> 2147483647"
  "fits 8 v \<longleftrightarrow> -9223372036854775808 \<le> v \<and> v \<le> 9223372036854775807"
  by (auto simp: fits_def)

lemma valueEncoding_fits:
  assumes "fits 8 v" and "e \<in> {2, 4, 8}"
  shows "intsetValueEncoding v \<le> e \<longleftrightarrow> fits e v"
  using assms by (auto simp: intsetValueEncoding_def enc_defs fits_enc)

lemma valueEncoding_range: "intsetValueEncoding v \<in> {2, 4, 8}"
  by (auto simp: intsetValueEncoding_def enc_defs)

lemma fits_mono: "fits e v \<Longrightarrow> e \<in> {2, 4, 8} \<Longrightarrow> e' \<in> {2, 4, 8} \<Longrightarrow> e \<le> e' \<Longrightarrow> fits e' v"
  by (auto simp: fits_enc)

lemma getEncoded_elem:
  assumes "e \<in> {2, 4, 8}" and "(i + 1) * e \<le> length (contents is)"
  shows "intsetGetEncoded is i e = Some (elem e (contents is) i)"
  using assms by (auto simp: intsetGetEncoded_def enc_defs elem_def)

lemma elem_fits:
  assumes "e \<in> {2, 4, 8}" and "(i + 1) * e \<le> length c"
  shows "fits e (elem e c i)"
proof -
  have "length (take e (drop (i * e) c)) = e" using assms(2) by simp
  then show ?thesis
    using sdec_bounds [of "take e (drop (i * e) c)"] assms(1) by (auto simp: fits_def elem_def)
qed

section \<open>The buffer as an encoded list\<close>

definition enc :: "nat \<Rightarrow> int list \<Rightarrow> u8 list" where
  "enc e xs = concat (map (le_bytes e) xs)"

lemma length_enc [simp]: "length (enc e xs) = length xs * e"
  by (induction xs) (auto simp: enc_def)

lemma enc_append: "enc e (xs @ ys) = enc e xs @ enc e ys"
  by (simp add: enc_def)

lemma enc_Cons: "enc e (x # xs) = le_bytes e x @ enc e xs"
  by (simp add: enc_def)

lemma enc_Nil [simp]: "enc e [] = []"
  by (simp add: enc_def)

lemma take_enc: "i \<le> length xs \<Longrightarrow> take (i * e) (enc e xs) = enc e (take i xs)"
proof -
  assume "i \<le> length xs"
  then have "take (i * e) (enc e (take i xs) @ enc e (drop i xs)) = enc e (take i xs)" by simp
  then show ?thesis by (simp add: enc_append [symmetric])
qed

lemma drop_enc: "i \<le> length xs \<Longrightarrow> drop (i * e) (enc e xs) = enc e (drop i xs)"
proof -
  assume "i \<le> length xs"
  then have "drop (i * e) (enc e (take i xs) @ enc e (drop i xs)) = enc e (drop i xs)" by simp
  then show ?thesis by (simp add: enc_append [symmetric])
qed

lemma le_bytes_sdec: "le_bytes (length bs) (sdec bs) = bs"
proof -
  have "sdec bs mod 256 ^ length bs = le_int bs"
    using le_int_bounds [of bs] by (auto simp: sdec_def Let_def)
  then have "le_bytes (length bs) (sdec bs) = le_bytes (length bs) (le_int bs)"
    by (metis le_bytes_mod)
  then show ?thesis by simp
qed

lemma enc_elems: "length c = n * e \<Longrightarrow> enc e (map (elem e c) [0..<n]) = c"
proof (induction n arbitrary: c)
  case (Suc n)
  let ?d = "take (n * e) c"
  have "length ?d = n * e" using Suc.prems by simp
  moreover have "elem e ?d i = elem e c i" if "i < n" for i
  proof -
    have "Suc i * e \<le> n * e" using that by (intro mult_le_mono1) simp
    then show ?thesis by (simp add: elem_def take_drop min_def algebra_simps)
  qed
  ultimately have "enc e (map (elem e c) [0..<n]) = ?d"
    using Suc.IH [of ?d] by (metis (no_types, lifting) atLeastLessThan_iff map_cong set_upt)
  moreover have "le_bytes e (elem e c n) = drop (n * e) c"
    using le_bytes_sdec [of "drop (n * e) c"] Suc.prems by (simp add: elem_def)
  ultimately show ?case by (simp add: enc_append enc_Cons)
qed simp

lemma elem_enc:
  assumes "i < length xs" and "fits e (xs ! i)"
  shows "elem e (enc e xs @ r) i = xs ! i"
proof -
  have "drop (i * e) (enc e xs @ r) = enc e (drop i xs) @ r" using assms(1) by (simp add: drop_enc)
  also have "\<dots> = le_bytes e (xs ! i) @ enc e (drop (Suc i) xs) @ r"
    using assms(1) by (simp add: Cons_nth_drop_Suc [symmetric] enc_Cons)
  finally show ?thesis using assms(2) by (simp add: elem_def sdec_le_bytes fits_def)
qed

text \<open>A well-formed set holds the encoding of a sorted list.\<close>

definition holds :: "intset \<Rightarrow> int list \<Rightarrow> bool" where
  "holds is xs \<longleftrightarrow> encoding is \<in> {2, 4, 8} \<and> contents is = enc (encoding is) xs \<and>
     is_length is = length xs \<and> length xs \<le> MAX_LEN \<and> (\<forall>x\<in>set xs. fits (encoding is) x) \<and>
     sorted_wrt (<) xs"

lemma holds_elems: "holds is xs \<Longrightarrow> elems is = xs"
  unfolding holds_def elems_def
  by (intro nth_equalityI) (auto intro: elem_enc [where r = "[]", simplified])

lemma holds_inv: "intset_inv is \<longleftrightarrow> holds is (elems is)"
proof
  assume inv: "intset_inv is"
  have "fits (encoding is) (elem (encoding is) (contents is) i)" if "i < is_length is" for i
  proof (rule elem_fits)
    show "(i + 1) * encoding is \<le> length (contents is)"
      using inv that by (auto simp: intset_inv_def intro!: mult_le_mono1 simp del: mult_Suc)
  qed (use inv in \<open>simp add: intset_inv_def\<close>)
  then show "holds is (elems is)"
    using inv enc_elems [of "contents is" "is_length is" "encoding is"]
    by (auto simp: holds_def intset_inv_def elems_def)
next
  assume "holds is (elems is)"
  then show "intset_inv is" by (simp add: holds_def intset_inv_def)
qed

lemma holdsI: "holds is xs \<Longrightarrow> intset_inv is \<and> elems is = xs"
  using holds_elems holds_inv by metis

lemma get_at_holds:
  assumes "holds is xs" and "i < length xs"
  shows "intsetGet_at is i = Some (xs ! i)"
proof -
  have "(i + 1) * encoding is \<le> length (contents is)"
    using assms by (auto simp: holds_def intro!: mult_le_mono1 simp del: mult_Suc)
  moreover have "elem (encoding is) (contents is) i = xs ! i"
    using elem_enc [of i xs "encoding is" "[]"] assms by (simp add: holds_def)
  ultimately show ?thesis
    using getEncoded_elem [of "encoding is" i "is"] assms(1) by (simp add: intsetGet_at_def holds_def)
qed

section \<open>Search\<close>

definition splits_at :: "int list \<Rightarrow> int \<Rightarrow> nat \<Rightarrow> bool" where
  "splits_at xs v p \<longleftrightarrow> p \<le> length xs \<and> (\<forall>i<p. xs ! i < v) \<and> (\<forall>i<length xs. p \<le> i \<longrightarrow> v < xs ! i)"

lemma search_loop_ok:
  assumes "holds is xs"
  shows "0 \<le> lo \<Longrightarrow> hi < int (length xs) \<Longrightarrow> lo \<le> hi + 1 \<Longrightarrow>
    (\<forall>i<nat lo. xs ! i < v) \<Longrightarrow> (\<forall>i<length xs. hi < int i \<longrightarrow> v < xs ! i) \<Longrightarrow> (hi < lo \<longrightarrow> cur \<noteq> v) \<Longrightarrow>
    \<exists>lo' mid' cur'. search_loop is v lo hi mid cur = Some (lo', mid', cur') \<and>
      (if cur' = v then 0 \<le> mid' \<and> nat mid' < length xs \<and> xs ! nat mid' = v
       else splits_at xs v (nat lo'))"
proof (induction "nat (hi - lo + 1)" arbitrary: lo hi mid cur rule: less_induct)
  case less
  have sorted: "xs ! i < xs ! j" if "i < j" "j < length xs" for i j
    using assms that by (auto simp: holds_def sorted_wrt_iff_nth_less)
  show ?case
  proof (cases "lo \<le> hi")
    case True
    define m where "m = (lo + hi) div 2"
    have m: "lo \<le> m" "m \<le> hi" "0 \<le> m" "nat m < length xs"
      using True less.prems(1,2) by (auto simp: m_def)
    have step: "search_loop is v lo hi mid cur =
      (if xs ! nat m < v then search_loop is v (m + 1) hi m (xs ! nat m)
       else if v < xs ! nat m then search_loop is v lo (m - 1) m (xs ! nat m)
       else Some (lo, m, xs ! nat m))"
      using True get_at_holds [OF assms m(4)] by (simp add: search_loop.simps [of "is" v lo hi mid cur] m_def Let_def)
    consider "xs ! nat m < v" | "v < xs ! nat m" | "xs ! nat m = v" by linarith
    then show ?thesis
    proof cases
      case 1
      have "xs ! i < v" if "i < nat (m + 1)" for i
      proof -
        have "i < nat m \<or> i = nat m" using that m by linarith
        then show ?thesis using sorted [of i "nat m"] 1 m(4) by auto
      qed
      then have "\<exists>lo' mid' cur'. search_loop is v (m + 1) (hi) m (xs ! nat m) = Some (lo', mid', cur') \<and>
          (if cur' = v then 0 \<le> mid' \<and> nat mid' < length xs \<and> xs ! nat mid' = v
           else splits_at xs v (nat lo'))"
        using less_imp_neq [OF 1] less.prems m by (intro less.hyps) auto
      then show ?thesis unfolding step using 1 by simp
    next
      case 2
      have "v < xs ! i" if "i < length xs" "m - 1 < int i" for i
      proof -
        have "nat m < i \<or> i = nat m" using that m by linarith
        then show ?thesis using sorted [of "nat m" i] 2 that(1) by auto
      qed
      then have "\<exists>lo' mid' cur'. search_loop is v (lo) (m - 1) m (xs ! nat m) = Some (lo', mid', cur') \<and>
          (if cur' = v then 0 \<le> mid' \<and> nat mid' < length xs \<and> xs ! nat mid' = v
           else splits_at xs v (nat lo'))"
        using less_imp_neq [OF 2] less.prems m by (intro less.hyps) auto
      then show ?thesis unfolding step using 2 by simp
    next
      case 3
      then show ?thesis using step m by auto
    qed
  next
    case False
    then have "lo = hi + 1" using less.prems(3) by simp
    then show ?thesis
      using False less.prems by (auto simp: search_loop.simps splits_at_def nat_le_iff)
  qed
qed

lemma intsetSearch_ok:
  assumes "holds is xs"
  shows "\<exists>found pos. intsetSearch is v = Some (found, pos) \<and> (found \<longleftrightarrow> v \<in> set xs) \<and>
    (if found then pos < length xs \<and> xs ! pos = v else splits_at xs v pos)"
proof -
  let ?n = "length xs"
  have n: "is_length is = ?n" using assms by (simp add: holds_def)
  have le: "xs ! i \<le> xs ! j" if "i \<le> j" "j < ?n" for i j
    using assms that by (cases "i = j") (auto simp: holds_def sorted_wrt_iff_nth_less less_imp_le)
  show ?thesis
  proof (cases "xs = []")
    case True
    then show ?thesis using n by (auto simp: intsetSearch_def splits_at_def)
  next
    case False
    then have g: "intsetGet_at is (?n - 1) = Some (xs ! (?n - 1))" "intsetGet_at is 0 = Some (xs ! 0)"
      using get_at_holds [OF assms] by simp_all
    consider "xs ! (?n - 1) < v" | "\<not> xs ! (?n - 1) < v" "v < xs ! 0"
      | "\<not> xs ! (?n - 1) < v" "\<not> v < xs ! 0" by blast
    then show ?thesis
    proof cases
      case 1
      have "xs ! i < v" if "i < ?n" for i
      proof -
        have "xs ! i \<le> xs ! (?n - 1)" by (rule le) (use that in auto)
        then show ?thesis using 1 by simp
      qed
      then show ?thesis
        using 1 False g n by (auto simp: intsetSearch_def splits_at_def in_set_conv_nth)
    next
      case 2
      have "v < xs ! i" if "i < ?n" for i
        using le [OF le0 that] 2(2) by simp
      then show ?thesis
        using 2 False g n by (auto simp: intsetSearch_def splits_at_def in_set_conv_nth)
    next
      case 3
      obtain lo' mid' cur' where l: "search_loop is v 0 (int ?n - 1) (-1) (-1) = Some (lo', mid', cur')"
        "if cur' = v then 0 \<le> mid' \<and> nat mid' < ?n \<and> xs ! nat mid' = v else splits_at xs v (nat lo')"
        using search_loop_ok [OF assms, of 0 "int ?n - 1" v "-1" "-1"] False by auto
      moreover have "v \<notin> set xs" if "splits_at xs v p" for p
        using that by (fastforce simp: splits_at_def in_set_conv_nth not_less)
      ultimately show ?thesis
        using 3 False g n by (auto simp: intsetSearch_def split: if_splits)
    qed
  qed
qed

section \<open>Insertion and removal\<close>

lemma splits_sorted:
  assumes "sorted_wrt (<) xs" and "splits_at xs v p"
  shows "sorted_wrt (<) (take p xs @ v # drop p xs)"
proof -
  have lt: "x < v" if "x \<in> set (take p xs)" for x
    using that assms(2) by (auto simp: splits_at_def in_set_conv_nth)
  have gt: "v < x" if "x \<in> set (drop p xs)" for x
    using that assms(2) by (auto simp: splits_at_def in_set_conv_nth)
  have "x < y" if "x \<in> set (take p xs)" "y \<in> set (drop p xs)" for x y
    using lt [OF that(1)] gt [OF that(2)] by simp
  then show ?thesis
    using assms(1) lt gt by (auto simp: sorted_wrt_append sorted_wrt_take sorted_wrt_drop)
qed

lemma intsetMoveTail_bytes:
  assumes "encoding is \<in> {2, 4, 8}" and "is_length is \<le> MAX_LEN"
  shows "intsetMoveTail is from to = map_option (\<lambda>c. is\<lparr>contents := c\<rparr>)
    (memmove (contents is) (to * encoding is) (from * encoding is) ((is_length is - from) * encoding is))"
proof -
  have "((is_length is - from) * encoding is) mod 2 ^ 32 = (is_length is - from) * encoding is"
    using assms by (intro mod_less) (auto simp: MAX_LEN_def)
  moreover have "(if encoding is = INTSET_ENC_INT64 then 8 else if encoding is = INTSET_ENC_INT32 then 4 else 2) =
      encoding is"
    using assms(1) by (auto simp: enc_defs)
  ultimately show ?thesis
    by (simp add: intsetMoveTail_def Let_def map_conv_bind_option comp_def)
qed

lemma intsetSet_write:
  assumes "encoding is \<in> {2, 4, 8}" and "contents is = p @ b @ r"
    and "length p = i * encoding is" and "length b = encoding is"
  shows "intsetSet is i v = Some (is\<lparr>contents := p @ le_bytes (encoding is) v @ r\<rparr>)"
  using assms by (auto simp: intsetSet_def enc_defs Let_def)

lemma realloc_grow:
  "length c \<le> n \<Longrightarrow> \<exists>J. realloc junk c n = c @ J \<and> length J = n - length c"
  by (auto simp: realloc_def)

lemma moveTail_right:
  assumes "encoding is \<in> {2, 4, 8}" and "contents is = enc (encoding is) xs @ J"
    and "length J = encoding is" and "is_length is = length xs" and "length xs \<le> MAX_LEN" and "p \<le> length xs"
  shows "\<exists>b. intsetMoveTail is p (p + 1) =
      Some (is\<lparr>contents := enc (encoding is) (take p xs) @ b @ enc (encoding is) (drop p xs)\<rparr>) \<and>
    length b = encoding is"
proof -
  let ?e = "encoding is" and ?c = "contents is"
  have n: "p * ?e + (length xs - p) * ?e = length xs * ?e"
    using assms(6) by (simp add: add_mult_distrib [symmetric])
  have "memmove ?c ((p + 1) * ?e) (p * ?e) ((length xs - p) * ?e) =
      Some (take ((p + 1) * ?e) ?c @ take ((length xs - p) * ?e) (drop (p * ?e) ?c) @
        drop ((p + 1) * ?e + (length xs - p) * ?e) ?c)"
    unfolding memmove_def using n assms(2,3) by simp
  also have "take ((length xs - p) * ?e) (drop (p * ?e) ?c) = enc ?e (drop p xs)"
    using assms(2,6) n by (simp add: drop_enc)
  also have "drop ((p + 1) * ?e + (length xs - p) * ?e) ?c = []" using n assms(2,3) by simp
  also have "take ((p + 1) * ?e) ?c = enc ?e (take p xs) @ take ?e (drop (p * ?e) ?c)"
    using take_add [of "p * ?e" ?e ?c] assms(2,6) n by (simp add: take_enc add.commute)
  finally have "intsetMoveTail is p (p + 1) =
      Some (is\<lparr>contents := enc ?e (take p xs) @ take ?e (drop (p * ?e) ?c) @ enc ?e (drop p xs)\<rparr>)"
    using intsetMoveTail_bytes [of "is" p "p + 1"] assms(1,4,5) by simp
  moreover have "length (take ?e (drop (p * ?e) ?c)) = ?e" using n assms(2,3) by simp
  ultimately show ?thesis by blast
qed

lemma insert_at_ok:
  assumes "holds is xs" and "splits_at xs v p" and "fits (encoding is) v" and "length xs < MAX_LEN"
  shows "\<exists>is'. (do {
      let is = intsetResize junk is (is_length is + 1);
      is \<leftarrow> (if p < is_length is then intsetMoveTail is p (p + 1) else Some is);
      is \<leftarrow> intsetSet is p v;
      Some (is\<lparr>is_length := is_length is + 1\<rparr>, True)
    }) = Some (is', True) \<and> holds is' (take p xs @ v # drop p xs) \<and> encoding is' = encoding is"
proof -
  define e where "e = encoding is"
  have h: "e \<in> {2, 4, 8}" "contents is = enc e xs" "is_length is = length xs"
    "\<forall>x\<in>set xs. fits e x" "sorted_wrt (<) xs" and p: "p \<le> length xs"
    using assms by (auto simp: holds_def e_def splits_at_def)
  have w: "(length xs + 1) * e mod 2 ^ 32 = (length xs + 1) * e"
    using assms(4) h(1) by (intro mod_less) (auto simp: MAX_LEN_def)
  obtain J where J: "realloc junk (enc e xs) ((length xs + 1) * e) = enc e xs @ J" "length J = e"
    using realloc_grow [of "enc e xs" "(length xs + 1) * e" junk] by auto
  let ?is = "is\<lparr>contents := enc e xs @ J\<rparr>"
  have r: "intsetResize junk is (is_length is + 1) = ?is"
    using h w J(1) by (simp only: intsetResize_def e_def [symmetric])
  have "\<exists>b. (if p < length xs then intsetMoveTail ?is p (p + 1) else Some ?is) =
      Some (is\<lparr>contents := enc e (take p xs) @ b @ enc e (drop p xs)\<rparr>) \<and> length b = e"
    using moveTail_right [of ?is xs J p] h J(2) p assms(4) by (auto simp: e_def [symmetric])
  then obtain b where b: "(if p < length xs then intsetMoveTail ?is p (p + 1) else Some ?is) =
      Some (is\<lparr>contents := enc e (take p xs) @ b @ enc e (drop p xs)\<rparr>)" "length b = e" by blast
  let ?is2 = "is\<lparr>contents := enc e (take p xs) @ b @ enc e (drop p xs)\<rparr>"
  have s: "intsetSet ?is2 p v = Some (is\<lparr>contents := enc e (take p xs @ v # drop p xs)\<rparr>)"
    using intsetSet_write [of ?is2 "enc e (take p xs)" b "enc e (drop p xs)" p v] h(1) b(2) p
    by (simp add: e_def enc_append enc_Cons min_def)
  have "holds (is\<lparr>contents := enc e (take p xs @ v # drop p xs), is_length := length xs + 1\<rparr>)
      (take p xs @ v # drop p xs)"
    using h p assms splits_sorted [OF h(5) assms(2)]
    by (auto simp: holds_def e_def dest: in_set_takeD in_set_dropD)
  then show ?thesis
    unfolding r using b(1) s h(3) by (simp add: Let_def)
qed

lemma sorted_remove_nth:
  fixes xs :: "int list"
  assumes "sorted_wrt (<) xs"
  shows "sorted_wrt (<) (take p xs @ drop (Suc p) xs)"
proof -
  have "\<forall>x\<in>set (take p xs). \<forall>y\<in>set (drop p xs). x < y"
    using assms sorted_wrt_append [of "(<)" "take p xs" "drop p xs"] by simp
  moreover have "set (drop (Suc p) xs) \<subseteq> set (drop p xs)" by (rule set_drop_subset_set_drop) simp
  ultimately show ?thesis using assms by (auto simp: sorted_wrt_append)
qed

lemma intsetRemove_found:
  assumes "holds is xs" and "p < length xs"
  shows "\<exists>is'. (do {
      let len = is_length is;
      is \<leftarrow> (if p < len - 1 then intsetMoveTail is (p + 1) p else Some is);
      let is = intsetResize junk is (len - 1);
      Some (is\<lparr>is_length := len - 1\<rparr>, True)
    }) = Some (is', True) \<and> holds is' (take p xs @ drop (Suc p) xs) \<and> encoding is' = encoding is"
proof -
  define e where "e = encoding is"
  have h: "e \<in> {2, 4, 8}" "contents is = enc e xs" "is_length is = length xs" "length xs \<le> MAX_LEN"
    "\<forall>x\<in>set xs. fits e x" "sorted_wrt (<) xs"
    using assms by (auto simp: holds_def e_def)
  let ?n = "length xs" and ?ys = "take p xs @ drop (Suc p) xs"
  have "\<exists>c. (if p < ?n - 1 then intsetMoveTail is (p + 1) p else Some is) = Some (is\<lparr>contents := c\<rparr>) \<and>
      take ((?n - 1) * e) c = enc e ?ys \<and> (?n - 1) * e \<le> length c"
  proof (cases "p < ?n - 1")
    case True
    have "p + (?n - (p + 1)) = ?n - 1" "(p + 1) + (?n - (p + 1)) = ?n" using True by auto
    then have n: "p * e + (?n - (p + 1)) * e = (?n - 1) * e" "(p + 1) * e + (?n - (p + 1)) * e = ?n * e"
      by (metis add_mult_distrib)+
    have "memmove (enc e xs) (p * e) ((p + 1) * e) ((?n - (p + 1)) * e) =
        Some (take (p * e) (enc e xs) @ take ((?n - (p + 1)) * e) (drop ((p + 1) * e) (enc e xs)) @
          drop (p * e + (?n - (p + 1)) * e) (enc e xs))"
    proof -
      have "p * e + (?n - (p + 1)) * e \<le> ?n * e" using n(1) by simp
      moreover have "?n * e - (p + 1) * e = (?n - (p + 1)) * e" by (simp only: diff_mult_distrib)
      ultimately show ?thesis unfolding memmove_def using n(2) by (simp del: mult_Suc)
    qed
    moreover have "take ((?n - (p + 1)) * e) (drop ((p + 1) * e) (enc e xs)) = enc e (drop (Suc p) xs)"
      using drop_enc [of "p + 1" xs e] True by simp
    moreover have "take (p * e) (enc e xs) = enc e (take p xs)" using True by (simp add: take_enc)
    ultimately have m: "intsetMoveTail is (p + 1) p = Some (is\<lparr>contents := enc e ?ys @
        drop (p * e + (?n - (p + 1)) * e) (enc e xs)\<rparr>)"
      using intsetMoveTail_bytes [of "is" "p + 1" p] h by (simp add: e_def [symmetric] enc_append)
    have "length ?ys = ?n - 1" using True by simp
    then have l: "length (enc e ?ys) = (?n - 1) * e" by (simp only: length_enc)
    show ?thesis
      by (intro exI [of _ "enc e ?ys @ drop (p * e + (?n - (p + 1)) * e) (enc e xs)"])
        (simp only: m True if_True l [symmetric] append_eq_conv_conj length_append, simp)
  next
    case False
    then have "p = ?n - 1" using assms(2) by linarith
    then have "?ys = take (?n - 1) xs" using assms(2) by simp
    then show ?thesis using False h take_enc [of "?n - 1" xs e]
      by (intro exI [of _ "enc e xs"]) simp
  qed
  then obtain c where c: "(if p < ?n - 1 then intsetMoveTail is (p + 1) p else Some is) = Some (is\<lparr>contents := c\<rparr>)"
    "take ((?n - 1) * e) c = enc e ?ys" "(?n - 1) * e \<le> length c" by blast
  have "((?n - 1) * e) mod 2 ^ 32 = (?n - 1) * e"
    using h(1,4) by (intro mod_less) (auto simp: MAX_LEN_def)
  then have "intsetResize junk (is\<lparr>contents := c\<rparr>) (?n - 1) = is\<lparr>contents := enc e ?ys\<rparr>"
    using c(2,3) by (simp add: intsetResize_def e_def realloc_def)
  moreover have "holds (is\<lparr>contents := enc e ?ys, is_length := ?n - 1\<rparr>) ?ys"
    using h assms(2) sorted_remove_nth [OF h(6), of p] unfolding holds_def
    by (auto simp: e_def dest: in_set_takeD in_set_dropD)
  ultimately show ?thesis
    using c(1) h(3) by (simp add: Let_def)
qed

section \<open>Upgrade\<close>

lemma upgrade_loop_ok:
  assumes "encoding is \<in> {2, 4, 8}" and "cur \<in> {2, 4, 8}" and "cur \<le> encoding is"
    and "\<forall>x\<in>set xs. fits cur x"
  shows "k \<le> length xs \<Longrightarrow> take (k * cur) c = enc cur (take k xs) \<Longrightarrow>
    (k + p) * encoding is \<le> length c \<Longrightarrow>
    \<exists>c'. upgrade_loop (is\<lparr>contents := c\<rparr>) cur p k = Some (is\<lparr>contents := c'\<rparr>) \<and> length c' = length c \<and>
      drop (p * encoding is) c' = enc (encoding is) (take k xs) @ drop ((k + p) * encoding is) c"
proof (induction k arbitrary: c)
  case 0
  then show ?case by (intro exI [of _ c]) simp
next
  case (Suc k)
  let ?e = "encoding is"
  have kc: "k * cur \<le> (k + p) * ?e" "Suc k * cur \<le> (Suc k + p) * ?e"
    using assms(3) by (intro mult_le_mono; simp)+
  have c: "c = enc cur (take (Suc k) xs) @ drop (Suc k * cur) c"
    using Suc.prems(2) append_take_drop_id [of "Suc k * cur" c] by simp
  have "elem cur c k = xs ! k"
    by (subst c, subst elem_enc) (use Suc.prems(1) assms(4) in \<open>auto simp: nth_take\<close>)
  then have g: "intsetGetEncoded (is\<lparr>contents := c\<rparr>) k cur = Some (xs ! k)"
    using getEncoded_elem [of cur k "is\<lparr>contents := c\<rparr>"] assms(2) kc(2) Suc.prems(3) by simp
  define pr where "pr = take ((k + p) * ?e) c"
  define c1 where "c1 = pr @ le_bytes ?e (xs ! k) @ drop ((Suc k + p) * ?e) c"
  have lpr: "length pr = (k + p) * ?e" using Suc.prems(3) by (simp add: pr_def)
  have "c = pr @ take ?e (drop ((k + p) * ?e) c) @ drop ((Suc k + p) * ?e) c"
    by (simp add: pr_def) (metis add.commute append_take_drop_id drop_drop)
  then have "intsetSet (is\<lparr>contents := c\<rparr>) (k + p) (xs ! k) = Some (is\<lparr>contents := c1\<rparr>)"
    using intsetSet_write [of "is\<lparr>contents := c\<rparr>" pr "take ?e (drop ((k + p) * ?e) c)" _ "k + p" "xs ! k"]
      assms(1) lpr Suc.prems(3) by (simp add: c1_def)
  moreover have "take (k * cur) c1 = enc cur (take k xs)"
  proof -
    have "take (k * cur) c1 = take (k * cur) c" using kc(1) lpr Suc.prems(3) by (simp add: c1_def pr_def min_def)
    also have "\<dots> = take (k * cur) (take (Suc k * cur) c)" by simp
    also have "\<dots> = enc cur (take k xs)"
      using Suc.prems(1,2) take_enc [of k "take (Suc k) xs" cur] by (simp add: min_def)
    finally show ?thesis .
  qed
  moreover have "(k + p) * ?e \<le> length c1" "length c1 = length c"
    using lpr Suc.prems(3) by (simp_all add: c1_def)
  moreover have "drop ((k + p) * ?e) c1 = le_bytes ?e (xs ! k) @ drop ((Suc k + p) * ?e) c"
    using lpr by (simp add: c1_def)
  ultimately show ?case
    using Suc.IH [of c1] Suc.prems(1) g by (auto simp: take_Suc_conv_app_nth enc_append enc_Cons)
qed

lemma not_fits_order:
  assumes "\<not> fits e v" and "fits e x"
  shows "if v < 0 then v < x else x < v"
  using assms by (auto simp: fits_def)

lemma intsetUpgradeAndAdd_ok:
  assumes "holds is xs" and "length xs < MAX_LEN" and "fits 8 v" and "\<not> fits (encoding is) v"
  shows "\<exists>is'. intsetUpgradeAndAdd junk is v = Some is' \<and>
    holds is' (if v < 0 then v # xs else xs @ [v]) \<and> encoding is' = intsetValueEncoding v"
proof -
  define cur where "cur = encoding is"
  define e where "e = intsetValueEncoding v"
  define p where "p = (if v < 0 then 1 else 0 :: nat)"
  let ?n = "length xs"
  have h: "cur \<in> {2, 4, 8}" "contents is = enc cur xs" "is_length is = ?n" "\<forall>x\<in>set xs. fits cur x"
    "sorted_wrt (<) xs"
    using assms(1) by (auto simp: holds_def cur_def)
  have e: "e \<in> {2, 4, 8}" "cur \<le> e" "fits e v"
    using valueEncoding_range [of v] valueEncoding_fits [OF assms(3), of e]
      valueEncoding_fits [OF assms(3), of cur] assms(4) h(1) by (auto simp: e_def cur_def)
  have w: "((?n + 1) * e) mod 2 ^ 32 = (?n + 1) * e"
    using assms(2) e(1) by (intro mod_less) (auto simp: MAX_LEN_def)
  have le: "?n * cur \<le> (?n + 1) * e" using e(2) by (intro mult_le_mono) simp_all
  obtain J where J: "realloc junk (enc cur xs) ((?n + 1) * e) = enc cur xs @ J"
    "length J = (?n + 1) * e - ?n * cur"
    using realloc_grow [of "enc cur xs" "(?n + 1) * e" junk] le by auto
  let ?is = "is\<lparr>encoding := e\<rparr>" and ?c = "enc cur xs @ J"
  have lc: "length ?c = (?n + 1) * e" using J(2) le by simp
  obtain c' where c': "upgrade_loop (?is\<lparr>contents := ?c\<rparr>) cur p ?n = Some (?is\<lparr>contents := c'\<rparr>)"
    "length c' = length ?c" "drop (p * e) c' = enc e xs @ drop ((?n + p) * e) ?c"
  proof -
    have "(?n + p) * e \<le> (?n + 1) * e" by (intro mult_le_mono1) (simp add: p_def)
    then have "\<exists>c'. upgrade_loop (?is\<lparr>contents := ?c\<rparr>) cur p ?n = Some (?is\<lparr>contents := c'\<rparr>) \<and>
        length c' = length ?c \<and>
        drop (p * encoding ?is) c' = enc (encoding ?is) (take ?n xs) @ drop ((?n + p) * encoding ?is) ?c"
      using e(1,2) h(1,4) lc by (intro upgrade_loop_ok) simp_all
    then show ?thesis using that by auto
  qed
  have "\<exists>c''. (if p = 1 then intsetSet (?is\<lparr>contents := c'\<rparr>) 0 v else intsetSet (?is\<lparr>contents := c'\<rparr>) ?n v) =
      Some (?is\<lparr>contents := c''\<rparr>) \<and> c'' = enc e (if v < 0 then v # xs else xs @ [v])"
  proof (cases "v < 0")
    case True
    have "c' = [] @ take e c' @ enc e xs"
      using c'(3) True lc append_take_drop_id [of e c'] by (simp add: p_def)
    then show ?thesis
      using intsetSet_write [of "?is\<lparr>contents := c'\<rparr>" "[]" "take e c'" "enc e xs" 0 v] e(1) True c'(2) lc
      by (simp add: p_def enc_Cons)
  next
    case False
    have "c' = enc e xs @ drop (?n * e) ?c @ []" using c'(3) False by (simp add: p_def)
    then show ?thesis
      using intsetSet_write [of "?is\<lparr>contents := c'\<rparr>" "enc e xs" "drop (?n * e) ?c" "[]" ?n v] e(1) False lc
      by (simp add: p_def enc_append enc_Cons)
  qed
  then obtain c'' where c'': "(if p = 1 then intsetSet (?is\<lparr>contents := c'\<rparr>) 0 v
      else intsetSet (?is\<lparr>contents := c'\<rparr>) ?n v) = Some (?is\<lparr>contents := c''\<rparr>)"
    "c'' = enc e (if v < 0 then v # xs else xs @ [v])" by blast
  have "holds (?is\<lparr>contents := c'', is_length := ?n + 1\<rparr>) (if v < 0 then v # xs else xs @ [v])"
    using c''(2) e h assms(2) not_fits_order [OF assms(4)] fits_mono [of cur _ e]
    by (auto simp: holds_def cur_def [symmetric] sorted_wrt_append)
  moreover have "intsetUpgradeAndAdd junk is v = Some (?is\<lparr>contents := c'', is_length := ?n + 1\<rparr>)"
    using c'(1) c''(1) h w J(1)
    by (cases "p = 1") (simp_all add: intsetUpgradeAndAdd_def intsetResize_def Let_def e_def [symmetric]
        cur_def [symmetric] p_def [symmetric])
  ultimately show ?thesis by (auto simp: e_def)
qed

section \<open>The set interface\<close>

lemma strict_sorted_insort:
  fixes xs :: "int list"
  assumes "sorted_wrt (<) xs" and "sorted_wrt (<) ys" and "set ys = insert v (set xs)" and "v \<notin> set xs"
  shows "ys = insort v xs"
proof (rule sorted_distinct_set_unique)
  show "sorted ys" "distinct ys" using assms(2) by (simp_all add: strict_sorted_iff)
  show "sorted (insort v xs)" "distinct (insort v xs)"
    using assms(1,4) by (simp_all add: strict_sorted_iff sorted_insort distinct_insort)
  show "set ys = set (insort v xs)" using assms(3) by (simp add: set_insort_key)
qed

lemma intsetAdd_ok:
  assumes "holds is xs" and "fits 8 v" and "length xs < MAX_LEN"
  shows "\<exists>is'. intsetAdd junk is v = Some (is', v \<notin> set xs) \<and>
    holds is' (if v \<in> set xs then xs else insort v xs) \<and>
    encoding is' = max (encoding is) (intsetValueEncoding v)"
proof -
  have h: "encoding is \<in> {2, 4, 8}" "\<forall>x\<in>set xs. fits (encoding is) x" "sorted_wrt (<) xs"
    using assms(1) by (simp_all add: holds_def)
  have insort: "holds is' (insort v xs)" if "holds is' ys" "set ys = insert v (set xs)" "v \<notin> set xs" for is' ys
  proof -
    have "sorted_wrt (<) ys" using that(1) by (simp add: holds_def)
    then have "ys = insort v xs" using strict_sorted_insort h(3) that(2,3) by blast
    then show ?thesis using that(1) by simp
  qed
  show ?thesis
  proof (cases "encoding is < intsetValueEncoding v")
    case True
    then have nf: "\<not> fits (encoding is) v" using valueEncoding_fits [OF assms(2) h(1)] by simp
    then have "v \<notin> set xs" using h(2) by auto
    moreover obtain is' where "intsetUpgradeAndAdd junk is v = Some is'"
      "holds is' (if v < 0 then v # xs else xs @ [v])" "encoding is' = intsetValueEncoding v"
      using intsetUpgradeAndAdd_ok [OF assms(1,3,2) nf] by blast
    ultimately show ?thesis
      using True insort [of is' "if v < 0 then v # xs else xs @ [v]"]
      by (simp add: intsetAdd_def)
  next
    case False
    then have f: "fits (encoding is) v" using valueEncoding_fits [OF assms(2) h(1)] by simp
    obtain found pos where s: "intsetSearch is v = Some (found, pos)" "found \<longleftrightarrow> v \<in> set xs"
      "if found then pos < length xs \<and> xs ! pos = v else splits_at xs v pos"
      using intsetSearch_ok [OF assms(1), of v] by blast
    show ?thesis
    proof (cases found)
      case True
      then show ?thesis using s False assms(1) by (simp add: intsetAdd_def max_def)
    next
      case nf: False
      from insert_at_ok [OF assms(1) _ f assms(3), of pos junk] s(3) nf
      obtain is' where i: "(do {
          let is = intsetResize junk is (is_length is + 1);
          is \<leftarrow> (if pos < is_length is then intsetMoveTail is pos (pos + 1) else Some is);
          is \<leftarrow> intsetSet is pos v;
          Some (is\<lparr>is_length := is_length is + 1\<rparr>, True)
        }) = Some (is', True)" "holds is' (take pos xs @ v # drop pos xs)" "encoding is' = encoding is"
        by auto
      have "set (take pos xs @ v # drop pos xs) = insert v (set xs)"
        by simp (metis append_take_drop_id set_append)
      then have "holds is' (insort v xs)" using insort i(2) s(2) nf by blast
      then show ?thesis using i(1,3) s nf False by (simp add: intsetAdd_def max_def)
    qed
  qed
qed

lemma intsetRemove_ok:
  assumes "holds is xs" and "fits 8 v"
  shows "\<exists>is'. intsetRemove junk is v = Some (is', v \<in> set xs) \<and>
    holds is' (remove1 v xs) \<and> encoding is' = encoding is"
proof (cases "intsetValueEncoding v \<le> encoding is")
  case False
  have "encoding is \<in> {2, 4, 8}" "\<forall>x\<in>set xs. fits (encoding is) x"
    using assms(1) by (simp_all add: holds_def)
  then have "v \<notin> set xs" using valueEncoding_fits [OF assms(2)] False by auto
  then show ?thesis using False assms(1) by (simp add: intsetRemove_def remove1_idem)
next
  case True
  obtain found p where s: "intsetSearch is v = Some (found, p)" "found \<longleftrightarrow> v \<in> set xs"
    "if found then p < length xs \<and> xs ! p = v else splits_at xs v p"
    using intsetSearch_ok [OF assms(1), of v] by blast
  show ?thesis
  proof (cases found)
    case False
    then show ?thesis using True s assms(1) by (simp add: intsetRemove_def remove1_idem)
  next
    case found: True
    then have p: "p < length xs" "xs ! p = v" using s(3) by simp_all
    have "distinct xs" using assms(1) by (simp add: holds_def strict_sorted_iff)
    then have "v \<notin> set (take p xs)"
      using p by (auto simp: in_set_conv_nth distinct_conv_nth)
    moreover have "xs = take p xs @ v # drop (Suc p) xs" using p id_take_nth_drop by blast
    ultimately have r: "remove1 v xs = take p xs @ drop (Suc p) xs"
      by (metis remove1.simps(2) remove1_append)
    show ?thesis
      using intsetRemove_found [OF assms(1) p(1), of junk] True s found
      by (auto simp: intsetRemove_def r Let_def)
  qed
qed

lemma intsetFind_ok:
  assumes "holds is xs" and "fits 8 v"
  shows "intsetFind is v = Some (v \<in> set xs)"
proof (cases "intsetValueEncoding v \<le> encoding is")
  case True
  then show ?thesis using intsetSearch_ok [OF assms(1), of v] by (auto simp: intsetFind_def)
next
  case False
  have "encoding is \<in> {2, 4, 8}" "\<forall>x\<in>set xs. fits (encoding is) x"
    using assms(1) by (simp_all add: holds_def)
  then have "v \<notin> set xs" using valueEncoding_fits [OF assms(2)] False by auto
  then show ?thesis using False by (simp add: intsetFind_def)
qed

definition intset_mem :: "intset \<Rightarrow> int \<Rightarrow> (intset \<times> bool) option" where
  "intset_mem is v = map_option (Pair is) (intsetFind is v)"

lemma card_elems: "holds is xs \<Longrightarrow> card (set xs) = length xs"
  by (simp add: holds_def strict_sorted_iff distinct_card)

interpretation intset_set: set_store intset_inv "\<lambda>is. set (elems is)" "fits 8" "MAX_LEN - 1"
  intset_mem "intsetAdd junk" "intsetRemove junk" for junk
proof
  fix s :: intset and x :: int
  assume inv: "intset_inv s"
  then have h: "holds s (elems s)" by (simp add: holds_inv)
  show "finite (set (elems s))" by simp
  assume x: "fits 8 x"
  show "\<exists>s'. intset_mem s x = Some (s', x \<in> set (elems s)) \<and> intset_inv s' \<and> set (elems s') = set (elems s)"
    using intsetFind_ok [OF h x] inv by (simp add: intset_mem_def)
  show "\<exists>s'. intsetRemove junk s x = Some (s', x \<in> set (elems s)) \<and> intset_inv s' \<and>
      set (elems s') = set (elems s) - {x}"
  proof -
    have "distinct (elems s)" using h by (simp add: holds_def strict_sorted_iff)
    then show ?thesis using intsetRemove_ok [OF h x, of junk] holdsI by (auto simp: set_remove1_eq)
  qed
  show "\<exists>s'. intsetAdd junk s x = Some (s', x \<notin> set (elems s)) \<and> intset_inv s' \<and>
      set (elems s') = insert x (set (elems s))"
    if "card (set (elems s)) \<le> MAX_LEN - 1"
  proof -
    have "length (elems s) < MAX_LEN" using that card_elems [OF h] by (simp add: MAX_LEN_def)
    then obtain s' where "intsetAdd junk s x = Some (s', x \<notin> set (elems s))"
      "holds s' (if x \<in> set (elems s) then elems s else insort x (elems s))"
      using intsetAdd_ok [OF h x] by blast
    then show ?thesis using holdsI [of s'] by (auto simp: set_insort_key insert_absorb)
  qed
qed

section \<open>Properties\<close>

text \<open>
  C12. The integer set is a finite set of 64-bit integers.  Any sequence of membership tests, insertions and
  removals that starts from a new set, shorter than \<open>2 ^ 29\<close> operations, stays inside its buffer
  through searches, moves, reallocations and encoding upgrades, and gives exactly the answers of a
  mathematical set; the bytes an enlarged allocation happens to contain do not matter.
\<close>

theorem intset_refines_set:
  assumes "\<forall>c\<in>set cs. fits 8 (set_arg c)" and "length cs \<le> MAX_LEN"
  shows "\<exists>is'. set_run intset_mem (intsetAdd junk) (intsetRemove junk) intsetNew cs =
             Some (is', snd (set_spec_run {} cs)) \<and>
           intset_inv is' \<and> set (elems is') = fst (set_spec_run {} cs)"
proof -
  have "holds intsetNew []" by (simp add: holds_def intsetNew_def enc_defs MAX_LEN_def)
  then have n: "intset_inv intsetNew" "elems intsetNew = []" using holdsI by blast+
  then show ?thesis
    using intset_set.run_refines [OF n(1) assms(1), of junk] assms(2) by (simp add: MAX_LEN_def)
qed

theorem intset_refines_set_witness:
  "\<exists>is'. set_run intset_mem (intsetAdd (\<lambda>_. 255)) (intsetRemove (\<lambda>_. 255)) intsetNew
          [SetAdd 5, SetAdd (- 70000), SetAdd 5, SetMem (- 70000), SetDel 5, SetMem 5] =
        Some (is', [True, True, False, True, True, False]) \<and>
        intset_inv is' \<and> set (elems is') = {- 70000}"
  using intset_refines_set [of "[SetAdd 5, SetAdd (- 70000), SetAdd 5, SetMem (- 70000), SetDel 5, SetMem 5]"
      "\<lambda>_. 255"]
  by (auto simp: fits_enc MAX_LEN_def)

text \<open>
  C13. Insertion keeps the array sorted without duplicates and widens the encoding exactly as far as the new
  value needs: the elements become the sorted insertion of the value, and a wider value is moved to the
  right end of the array with every old element re-encoded unchanged.
\<close>

theorem intsetAdd_correct:
  assumes "intset_inv is" and "is_length is < MAX_LEN" and "fits 8 v"
  shows "\<exists>is'. intsetAdd junk is v = Some (is', v \<notin> set (elems is)) \<and> intset_inv is' \<and>
    elems is' = (if v \<in> set (elems is) then elems is else insort v (elems is)) \<and>
    encoding is' = max (encoding is) (intsetValueEncoding v)"
proof -
  have h: "holds is (elems is)" using assms(1) by (simp add: holds_inv)
  moreover have "length (elems is) < MAX_LEN" using assms(2) by (simp add: elems_def)
  ultimately obtain is' where "intsetAdd junk is v = Some (is', v \<notin> set (elems is))"
    "holds is' (if v \<in> set (elems is) then elems is else insort v (elems is))"
    "encoding is' = max (encoding is) (intsetValueEncoding v)"
    using intsetAdd_ok [OF _ assms(3)] by blast
  then show ?thesis using holdsI [of is'] by simp
qed

theorem intsetAdd_correct_witness:
  "\<exists>is'. intsetAdd (\<lambda>_. 0) intsetNew 40000 = Some (is', True) \<and> intset_inv is' \<and>
    elems is' = [40000] \<and> encoding is' = 4"
proof -
  have "intset_inv intsetNew" "elems intsetNew = []" "is_length intsetNew = 0" "encoding intsetNew = 2"
    by (simp_all add: intset_inv_def elems_def intsetNew_def enc_defs)
  then show ?thesis
    using intsetAdd_correct [of intsetNew 40000 "\<lambda>_. 0"]
    by (simp add: fits_enc MAX_LEN_def intsetValueEncoding_def enc_defs)
qed

end
