(* ===== verification/Adlist.thy ===== *)
theory Adlist
  imports Prelude
begin

text \<open>
  The doubly linked list of \<^verbatim>\<open>redis/redis/src/adlist.c\<close>, at the level of its pointers.  The heap
  maps addresses to nodes; a pointer is an optional address, with \<^term>\<open>None\<close> for \<^verbatim>\<open>NULL\<close>;
  reading through a null or dangling pointer is \<^term>\<open>None\<close> in the result.  An operation that allocates
  takes the pointer \<^verbatim>\<open>zmalloc\<close> returned as an argument.  The list header is passed by value.

  The relation \<open>dll\<close> says that a header and a heap hold the nodes at given addresses, in order; every
  operation is proved to turn the list of values it stands for into the list the specification names, and to
  leave every other address of the heap alone.
\<close>

section \<open>State\<close>

type_synonym addr = nat

record 'v listNode =
  n_prev :: "addr option"
  n_next :: "addr option"
  n_value :: 'v

type_synonym 'v heap = "addr \<Rightarrow> 'v listNode option"

record 'v alist =
  l_head :: "addr option"
  l_tail :: "addr option"
  l_dup :: "('v \<Rightarrow> 'v option) option"
  l_free :: bool
  l_match :: "('v \<Rightarrow> 'v \<Rightarrow> bool) option"
  l_len :: nat

datatype direction = AL_START_HEAD | AL_START_TAIL

record listIter =
  it_next :: "addr option"
  it_direction :: direction

text \<open>Reading a node and storing to one of its link fields.\<close>

definition deref :: "'v heap \<Rightarrow> addr option \<Rightarrow> 'v listNode option" where
  "deref h p = Option.bind p h"

definition set_prev :: "'v heap \<Rightarrow> addr option \<Rightarrow> addr option \<Rightarrow> 'v heap option" where
  "set_prev h p q = do { a \<leftarrow> p; n \<leftarrow> h a; Some (h(a \<mapsto> n\<lparr>n_prev := q\<rparr>)) }"

definition set_next :: "'v heap \<Rightarrow> addr option \<Rightarrow> addr option \<Rightarrow> 'v heap option" where
  "set_next h p q = do { a \<leftarrow> p; n \<leftarrow> h a; Some (h(a \<mapsto> n\<lparr>n_next := q\<rparr>)) }"

section \<open>Operations\<close>

text \<open>The flag says whether \<^verbatim>\<open>zmalloc\<close> had memory for the header.\<close>

definition listCreate :: "bool \<Rightarrow> 'v alist option" where
  "listCreate room = (if room
     then Some \<lparr>l_head = None, l_tail = None, l_dup = None, l_free = False, l_match = None, l_len = 0\<rparr> else None)"

text \<open>
  The field \<open>l_free\<close> says whether the list has a value destructor.  The operations that call it
  return the values they passed to it, in order.
\<close>

fun release_loop :: "bool \<Rightarrow> 'v heap \<Rightarrow> addr option \<Rightarrow> nat \<Rightarrow> ('v heap \<times> 'v list) option" where
  "release_loop free h current 0 = Some (h, [])"
| "release_loop free h current (Suc len) = do {
     a \<leftarrow> current;
     n \<leftarrow> h a;
     (h, vs) \<leftarrow> release_loop free (h(a := None)) (n_next n) len;
     Some (h, if free then n_value n # vs else vs)
   }"

definition listRelease :: "'v heap \<Rightarrow> 'v alist \<Rightarrow> ('v heap \<times> 'v list) option" where
  "listRelease h l = release_loop (l_free l) h (l_head l) (l_len l)"

text \<open>The Boolean result is False where the code returns \<^verbatim>\<open>NULL\<close> for lack of memory.\<close>

definition listAddNodeHead ::
  "addr option \<Rightarrow> 'v heap \<Rightarrow> 'v alist \<Rightarrow> 'v \<Rightarrow> ('v heap \<times> 'v alist \<times> bool) option" where
  "listAddNodeHead node h l v =
    (case node of None \<Rightarrow> Some (h, l, False)
     | Some a \<Rightarrow>
       if l_len l = 0 then
         Some (h(a \<mapsto> \<lparr>n_prev = None, n_next = None, n_value = v\<rparr>),
               l\<lparr>l_head := Some a, l_tail := Some a, l_len := l_len l + 1\<rparr>, True)
       else do {
         let h = h(a \<mapsto> \<lparr>n_prev = None, n_next = l_head l, n_value = v\<rparr>);
         h \<leftarrow> set_prev h (l_head l) (Some a);
         Some (h, l\<lparr>l_head := Some a, l_len := l_len l + 1\<rparr>, True)
       })"

definition listAddNodeTail ::
  "addr option \<Rightarrow> 'v heap \<Rightarrow> 'v alist \<Rightarrow> 'v \<Rightarrow> ('v heap \<times> 'v alist \<times> bool) option" where
  "listAddNodeTail node h l v =
    (case node of None \<Rightarrow> Some (h, l, False)
     | Some a \<Rightarrow>
       if l_len l = 0 then
         Some (h(a \<mapsto> \<lparr>n_prev = None, n_next = None, n_value = v\<rparr>),
               l\<lparr>l_head := Some a, l_tail := Some a, l_len := l_len l + 1\<rparr>, True)
       else do {
         let h = h(a \<mapsto> \<lparr>n_prev = l_tail l, n_next = None, n_value = v\<rparr>);
         h \<leftarrow> set_next h (l_tail l) (Some a);
         Some (h, l\<lparr>l_tail := Some a, l_len := l_len l + 1\<rparr>, True)
       })"

text \<open>The common end of an insertion: the neighbours are pointed at the new node.\<close>

definition hook :: "'v heap \<Rightarrow> addr option \<Rightarrow> addr option \<Rightarrow> addr \<Rightarrow> 'v heap option" where
  "hook h prev next a = do {
     h \<leftarrow> (if prev \<noteq> None then set_next h prev (Some a) else Some h);
     if next \<noteq> None then set_prev h next (Some a) else Some h
   }"

definition listInsertNode ::
  "addr option \<Rightarrow> 'v heap \<Rightarrow> 'v alist \<Rightarrow> addr option \<Rightarrow> 'v \<Rightarrow> bool \<Rightarrow> ('v heap \<times> 'v alist \<times> bool) option" where
  "listInsertNode node h l old_node v after =
    (case node of None \<Rightarrow> Some (h, l, False)
     | Some a \<Rightarrow> do {
       old \<leftarrow> deref h old_node;
       let (prev, next, l) =
         (if after then
            (old_node, n_next old, if l_tail l = old_node then l\<lparr>l_tail := Some a\<rparr> else l)
          else
            (n_prev old, old_node, if l_head l = old_node then l\<lparr>l_head := Some a\<rparr> else l));
       let h = h(a \<mapsto> \<lparr>n_prev = prev, n_next = next, n_value = v\<rparr>);
       h \<leftarrow> hook h prev next a;
       Some (h, l\<lparr>l_len := l_len l + 1\<rparr>, True)
     })"

definition listDelNode :: "'v heap \<Rightarrow> 'v alist \<Rightarrow> addr option \<Rightarrow> ('v heap \<times> 'v alist \<times> 'v list) option" where
  "listDelNode h l node = do {
     a \<leftarrow> node;
     n \<leftarrow> h a;
     (h, l) \<leftarrow> (if n_prev n \<noteq> None then do { h \<leftarrow> set_next h (n_prev n) (n_next n); Some (h, l) }
               else Some (h, l\<lparr>l_head := n_next n\<rparr>));
     (h, l) \<leftarrow> (if n_next n \<noteq> None then do { h \<leftarrow> set_prev h (n_next n) (n_prev n); Some (h, l) }
               else Some (h, l\<lparr>l_tail := n_prev n\<rparr>));
     Some (h(a := None), l\<lparr>l_len := l_len l - 1\<rparr>, if l_free l then [n_value n] else [])
   }"

definition listGetIterator :: "'v alist \<Rightarrow> direction \<Rightarrow> listIter" where
  "listGetIterator l dir =
    (if dir = AL_START_HEAD then \<lparr>it_next = l_head l, it_direction = dir\<rparr>
     else \<lparr>it_next = l_tail l, it_direction = dir\<rparr>)"

definition listRewind :: "'v alist \<Rightarrow> listIter" where
  "listRewind l = \<lparr>it_next = l_head l, it_direction = AL_START_HEAD\<rparr>"

definition listRewindTail :: "'v alist \<Rightarrow> listIter" where
  "listRewindTail l = \<lparr>it_next = l_tail l, it_direction = AL_START_TAIL\<rparr>"

definition listNext :: "'v heap \<Rightarrow> listIter \<Rightarrow> (listIter \<times> addr option) option" where
  "listNext h iter =
    (let current = it_next iter in
     if current = None then Some (iter, None)
     else do {
       n \<leftarrow> deref h current;
       Some (iter\<lparr>it_next := (if it_direction iter = AL_START_HEAD then n_next n else n_prev n)\<rparr>, current)
     })"

text \<open>
  The loop of \<^verbatim>\<open>listDup\<close>.  \<open>alloc\<close> gives the address \<^verbatim>\<open>zmalloc\<close> returns on a heap.
  The result carries the copy, or None after an allocation or duplication failure, when the
  partial copy has been released, and the values passed to the destructor.
\<close>

definition dup_abort ::
  "'v heap \<Rightarrow> 'v alist \<Rightarrow> ('v heap \<times> 'v list \<times> 'v alist option) option" where
  "dup_abort h copy = do { (h, vs) \<leftarrow> listRelease h copy; Some (h, vs, None) }"

partial_function (option) dup_loop ::
  "('v heap \<Rightarrow> addr option) \<Rightarrow> 'v heap \<Rightarrow> 'v alist \<Rightarrow> listIter \<Rightarrow> ('v heap \<times> 'v list \<times> 'v alist option) option" where
  "dup_loop alloc h copy iter =
    Option.bind (listNext h iter) (\<lambda>(iter, node).
      case node of None \<Rightarrow> Some (h, [], Some copy)
      | Some a \<Rightarrow>
        Option.bind (h a) (\<lambda>n.
          case (case l_dup copy of None \<Rightarrow> Some (n_value n) | Some f \<Rightarrow> f (n_value n)) of
            None \<Rightarrow> dup_abort h copy
          | Some v \<Rightarrow>
            Option.bind (listAddNodeTail (alloc h) h copy v) (\<lambda>(h, copy, ok).
              if ok then dup_loop alloc h copy iter else dup_abort h copy)))"


partial_function (option) list_search_loop ::
  "'v heap \<Rightarrow> 'v alist \<Rightarrow> 'v \<Rightarrow> listIter \<Rightarrow> addr option option" where
  "list_search_loop h l key iter =
    Option.bind (listNext h iter) (\<lambda>(iter, node).
      case node of None \<Rightarrow> Some None
      | Some a \<Rightarrow>
        Option.bind (h a) (\<lambda>n.
          if (case l_match l of None \<Rightarrow> key = n_value n | Some f \<Rightarrow> f (n_value n) key)
          then Some (Some a)
          else list_search_loop h l key iter))"

declare list_search_loop.simps [code] dup_loop.simps [code]

definition listSearchKey :: "'v heap \<Rightarrow> 'v alist \<Rightarrow> 'v \<Rightarrow> addr option option" where
  "listSearchKey h l key = list_search_loop h l key (listGetIterator l AL_START_HEAD)"

fun index_loop :: "'v heap \<Rightarrow> ('v listNode \<Rightarrow> addr option) \<Rightarrow> nat \<Rightarrow> addr option \<Rightarrow> addr option option" where
  "index_loop h link 0 n = Some n"
| "index_loop h link (Suc i) n =
    (case n of None \<Rightarrow> Some None
     | Some a \<Rightarrow> do { nd \<leftarrow> h a; index_loop h link i (link nd) })"

text \<open>Negating the least \<^verbatim>\<open>long\<close> overflows.\<close>

definition listIndex :: "'v heap \<Rightarrow> 'v alist \<Rightarrow> int \<Rightarrow> addr option option" where
  "listIndex h l index =
    (if index < 0 then do {
       assert_opt (index \<noteq> -9223372036854775808);
       index_loop h n_prev (nat (- index - 1)) (l_tail l)
     } else index_loop h n_next (nat index) (l_head l))"

definition listRotate :: "'v heap \<Rightarrow> 'v alist \<Rightarrow> ('v heap \<times> 'v alist) option" where
  "listRotate h l =
    (let tail = l_tail l in
     if l_len l \<le> 1 then Some (h, l)
     else do {
       t \<leftarrow> deref h tail;
       let l = l\<lparr>l_tail := n_prev t\<rparr>;
       h \<leftarrow> set_next h (l_tail l) None;
       h \<leftarrow> set_prev h (l_head l) tail;
       h \<leftarrow> set_prev h tail None;
       h \<leftarrow> set_next h tail (l_head l);
       Some (h, l\<lparr>l_head := tail\<rparr>)
     })"

section \<open>Linked segments\<close>

definition first :: "addr list \<Rightarrow> addr option \<Rightarrow> addr option" where
  "first as q = (if as = [] then q else Some (hd as))"

definition final :: "addr list \<Rightarrow> addr option \<Rightarrow> addr option" where
  "final as p = (if as = [] then p else Some (last as))"

fun seg :: "'v heap \<Rightarrow> addr option \<Rightarrow> addr list \<Rightarrow> addr option \<Rightarrow> bool" where
  "seg h p [] q \<longleftrightarrow> True"
| "seg h p (a # as) q \<longleftrightarrow>
    (\<exists>n. h a = Some n \<and> n_prev n = p \<and> n_next n = first as q) \<and> seg h (Some a) as q"

definition vals :: "'v heap \<Rightarrow> addr list \<Rightarrow> 'v list" where
  "vals h as = map (\<lambda>a. n_value (the (h a))) as"

definition dll :: "'v heap \<Rightarrow> 'v alist \<Rightarrow> addr list \<Rightarrow> bool" where
  "dll h l as \<longleftrightarrow> seg h None as None \<and> distinct as \<and> l_head l = first as None \<and>
     l_tail l = final as None \<and> l_len l = length as"

lemma first_simps [simp]: "first [] q = q" "first (a # as) q = Some a" "first (as @ bs) q = first as (first bs q)"
  by (auto simp: first_def)

lemma final_simps [simp]: "final [] p = p" "final (as @ [a]) p = Some a"
  "final (as @ bs) p = final bs (final as p)" "final (a # as) p = final as (Some a)"
  by (auto simp: final_def)

lemma seg_append [simp]: "seg h p (as @ bs) q \<longleftrightarrow> seg h p as (first bs q) \<and> seg h (final as p) bs q"
  by (induction as arbitrary: p) (auto simp: final_def)

lemma seg_frame: "(\<And>a. a \<in> set as \<Longrightarrow> h' a = h a) \<Longrightarrow> seg h' p as q = seg h p as q"
  by (induction as arbitrary: p) auto

lemma seg_upd [simp]: "a \<notin> set as \<Longrightarrow> seg (h(a := x)) p as q = seg h p as q"
  by (rule seg_frame) auto

lemma vals_upd [simp]: "a \<notin> set as \<Longrightarrow> vals (h(a := x)) as = vals h as"
  by (auto simp: vals_def)

lemma seg_alloc: "seg h p as q \<Longrightarrow> a \<in> set as \<Longrightarrow> \<exists>n. h a = Some n"
  by (induction as arbitrary: p) auto

text \<open>Relinking the ends of a segment.\<close>

lemma seg_relink_last:
  assumes "seg h p as q" and "as \<noteq> []" and "distinct as"
  shows "\<exists>n. h (last as) = Some n \<and> n_next n = q \<and>
    seg (h(last as \<mapsto> n\<lparr>n_next := q'\<rparr>)) p as q' \<and> vals (h(last as \<mapsto> n\<lparr>n_next := q'\<rparr>)) as = vals h as"
proof -
  obtain bs b where as: "as = bs @ [b]" using assms(2) by (cases as rule: rev_cases) auto
  then show ?thesis using assms(1,3) by (auto simp: vals_def)
qed

lemma seg_relink_first:
  assumes "seg h p as q" and "as \<noteq> []" and "distinct as"
  shows "\<exists>n. h (hd as) = Some n \<and> n_prev n = p \<and>
    seg (h(hd as \<mapsto> n\<lparr>n_prev := p'\<rparr>)) p' as q \<and> vals (h(hd as \<mapsto> n\<lparr>n_prev := p'\<rparr>)) as = vals h as"
  using assms by (cases as) (auto simp: vals_def)

lemma dll_segD: "dll h l as \<Longrightarrow> seg h None as None \<and> distinct as"
  by (simp add: dll_def)

lemma vals_append [simp]: "vals h (as @ bs) = vals h as @ vals h bs"
  by (simp add: vals_def)

lemma vals_Cons: "vals h (a # as) = n_value (the (h a)) # vals h as"
  by (simp add: vals_def)

lemma length_vals [simp]: "length (vals h as) = length as"
  by (simp add: vals_def)

text \<open>Redirecting the outward link at the end of a segment, where there is a node to redirect.\<close>

lemma set_next_final:
  assumes "seg h None xs q" and "distinct xs"
  shows "\<exists>h1. (if final xs None \<noteq> None then set_next h (final xs None) q' else Some h) = Some h1 \<and>
    seg h1 None xs q' \<and> vals h1 xs = vals h xs \<and> (\<forall>x. x \<notin> set xs \<longrightarrow> h1 x = h x)"
proof (cases "xs = []")
  case False
  with seg_relink_last [OF assms(1) False assms(2), of q'] obtain n where
    n: "h (last xs) = Some n" "seg (h(last xs \<mapsto> n\<lparr>n_next := q'\<rparr>)) None xs q'"
    "vals (h(last xs \<mapsto> n\<lparr>n_next := q'\<rparr>)) xs = vals h xs" by auto
  then have "set_next h (final xs None) q' = Some (h(last xs \<mapsto> n\<lparr>n_next := q'\<rparr>))"
    using False by (simp add: final_def set_next_def)
  then show ?thesis using n False by (simp add: final_def)
qed (simp add: vals_def)

lemma set_prev_first:
  assumes "seg h p ys None" and "distinct ys"
  shows "\<exists>h1. (if first ys None \<noteq> None then set_prev h (first ys None) p' else Some h) = Some h1 \<and>
    seg h1 p' ys None \<and> vals h1 ys = vals h ys \<and> (\<forall>x. x \<notin> set ys \<longrightarrow> h1 x = h x)"
proof (cases "ys = []")
  case False
  with seg_relink_first [OF assms(1) False assms(2), of p'] obtain n where
    n: "h (hd ys) = Some n" "seg (h(hd ys \<mapsto> n\<lparr>n_prev := p'\<rparr>)) p' ys None"
    "vals (h(hd ys \<mapsto> n\<lparr>n_prev := p'\<rparr>)) ys = vals h ys" by auto
  then have "set_prev h (first ys None) p' = Some (h(hd ys \<mapsto> n\<lparr>n_prev := p'\<rparr>))"
    using False by (simp add: first_def set_prev_def)
  then show ?thesis using n False by (simp add: first_def)
qed (simp add: vals_def)

lemma seg_vals_frame:
  assumes "\<forall>x. x \<notin> X \<longrightarrow> h' x = h x" and "X \<inter> set ys = {}"
  shows "seg h' p ys q = seg h p ys q" and "vals h' ys = vals h ys"
proof -
  have eq: "h' x = h x" if "x \<in> set ys" for x using assms that by blast
  show "seg h' p ys q = seg h p ys q" by (rule seg_frame) (rule eq)
  show "vals h' ys = vals h ys" using eq by (simp add: vals_def)
qed

text \<open>Both ends of a gap are redirected, in the order the code does it.\<close>

lemma relink_gap:
  assumes "seg h None xs q" and "seg h p ys None" and "distinct (xs @ ys)"
  shows "\<exists>h1 h2. (if final xs None \<noteq> None then set_next h (final xs None) q' else Some h) = Some h1 \<and>
    (if first ys None \<noteq> None then set_prev h1 (first ys None) p' else Some h1) = Some h2 \<and>
    seg h2 None xs q' \<and> seg h2 p' ys None \<and> vals h2 xs = vals h xs \<and> vals h2 ys = vals h ys \<and>
    (\<forall>x. x \<notin> set (xs @ ys) \<longrightarrow> h2 x = h x)"
proof -
  have dis: "set xs \<inter> set ys = {}" "set ys \<inter> set xs = {}" "distinct xs" "distinct ys" using assms(3) by auto
  obtain h1 where h1: "(if final xs None \<noteq> None then set_next h (final xs None) q' else Some h) = Some h1"
    "seg h1 None xs q'" "vals h1 xs = vals h xs" "\<forall>x. x \<notin> set xs \<longrightarrow> h1 x = h x"
    using set_next_final [OF assms(1) dis(3), of q'] by blast
  note f1 = seg_vals_frame [OF h1(4) dis(1)]
  obtain h2 where h2: "(if first ys None \<noteq> None then set_prev h1 (first ys None) p' else Some h1) = Some h2"
    "seg h2 p' ys None" "vals h2 ys = vals h1 ys" "\<forall>x. x \<notin> set ys \<longrightarrow> h2 x = h1 x"
    using set_prev_first [of h1 p ys p'] assms(2) f1(1) dis(4) by blast
  note f2 = seg_vals_frame [OF h2(4) dis(2)]
  have "\<forall>x. x \<notin> set (xs @ ys) \<longrightarrow> h2 x = h x" using h1(4) h2(4) by simp
  then show ?thesis using h1 h2 f1 f2 by auto
qed

section \<open>Linking a node in\<close>

text \<open>The node at \<open>a\<close>, already stored with its links, is hooked in between two segments.\<close>

lemma link_between:
  assumes "seg h None xs q" and "seg h p ys None" and "distinct (xs @ ys)" and "a \<notin> set xs" and "a \<notin> set ys"
  shows "\<exists>h''. hook (h(a \<mapsto> \<lparr>n_prev = final xs None, n_next = first ys None, n_value = v\<rparr>))
      (final xs None) (first ys None) a = Some h'' \<and> seg h'' None (xs @ a # ys) None \<and>
      vals h'' (xs @ a # ys) = vals h xs @ v # vals h ys \<and>
      (\<forall>x. x \<notin> set (xs @ a # ys) \<longrightarrow> h'' x = h x)"
proof -
  let ?n = "\<lparr>n_prev = final xs None, n_next = first ys None, n_value = v\<rparr>"
  define h' where "h' = h(a \<mapsto> ?n)"
  have h': "seg h' None xs q" "seg h' p ys None" "vals h' xs = vals h xs" "vals h' ys = vals h ys"
    using assms by (simp_all add: h'_def)
  obtain h1 h2 where g: "(if final xs None \<noteq> None then set_next h' (final xs None) (Some a) else Some h') = Some h1"
    "(if first ys None \<noteq> None then set_prev h1 (first ys None) (Some a) else Some h1) = Some h2"
    "seg h2 None xs (Some a)" "seg h2 (Some a) ys None" "vals h2 xs = vals h' xs" "vals h2 ys = vals h' ys"
    "\<forall>x. x \<notin> set (xs @ ys) \<longrightarrow> h2 x = h' x"
    using relink_gap [OF h'(1,2) assms(3), of "Some a" "Some a"] by blast
  have "hook h' (final xs None) (first ys None) a = Some h2" using g(1,2) by (simp add: hook_def)
  moreover have "h2 a = Some ?n" using g(7) assms(4,5) by (simp add: h'_def)
  moreover have "\<forall>x. x \<notin> set (xs @ a # ys) \<longrightarrow> h2 x = h x" using g(7) by (simp add: h'_def)
  ultimately show ?thesis using g(3-6) h'(3,4) by (auto simp: vals_Cons h'_def [symmetric])
qed

lemma fresh_notin: "seg h p as q \<Longrightarrow> h a = None \<Longrightarrow> a \<notin> set as"
  using seg_alloc by fastforce

lemma seg_Nil: "seg h p [] q"
  by simp

lemma listAddNodeHead_ok:
  assumes "dll h l as" and "h a = None"
  shows "\<exists>h' l'. listAddNodeHead (Some a) h l v = Some (h', l', True) \<and> dll h' l' (a # as) \<and>
    vals h' (a # as) = v # vals h as \<and> (\<forall>x. x \<notin> set (a # as) \<longrightarrow> h' x = h x)"
proof -
  have s: "seg h None as None" "distinct ([] @ as)" "a \<notin> set []" "a \<notin> set as"
    using assms fresh_notin [of h None as None a] by (auto simp: dll_def)
  obtain h' where h': "hook (h(a \<mapsto> \<lparr>n_prev = None, n_next = first as None, n_value = v\<rparr>)) None (first as None) a = Some h'"
    "seg h' None (a # as) None" "vals h' (a # as) = v # vals h as" "\<forall>x. x \<notin> set (a # as) \<longrightarrow> h' x = h x"
    using link_between [OF seg_Nil s(1-4), of v] by (auto simp: vals_def)
  let ?l = "if as = [] then l\<lparr>l_head := Some a, l_tail := Some a, l_len := l_len l + 1\<rparr>
    else l\<lparr>l_head := Some a, l_len := l_len l + 1\<rparr>"
  have "listAddNodeHead (Some a) h l v = Some (h', ?l, True)"
    using h'(1) assms(1) by (cases as) (simp_all add: listAddNodeHead_def dll_def hook_def)
  moreover have "dll h' ?l (a # as)"
    using h'(2) s assms(1) by (cases as) (simp_all add: dll_def del: seg.simps)
  ultimately show ?thesis using h'(3,4) by blast
qed

lemma listAddNodeTail_ok:
  assumes "dll h l as" and "h a = None"
  shows "\<exists>h' l'. listAddNodeTail (Some a) h l v = Some (h', l', True) \<and> dll h' l' (as @ [a]) \<and>
    vals h' (as @ [a]) = vals h as @ [v] \<and> (\<forall>x. x \<notin> set (as @ [a]) \<longrightarrow> h' x = h x) \<and>
    l_dup l' = l_dup l \<and> l_free l' = l_free l"
proof -
  have s: "seg h None as None" "distinct (as @ [])" "a \<notin> set as" "a \<notin> set []"
    using assms fresh_notin [of h None as None a] by (auto simp: dll_def)
  obtain h' where h': "hook (h(a \<mapsto> \<lparr>n_prev = final as None, n_next = None, n_value = v\<rparr>)) (final as None) None a = Some h'"
    "seg h' None (as @ [a]) None" "vals h' (as @ [a]) = vals h as @ [v]" "\<forall>x. x \<notin> set (as @ [a]) \<longrightarrow> h' x = h x"
    using link_between [OF s(1) seg_Nil s(2-4), of v] by (auto simp: vals_def)
  let ?l = "if as = [] then l\<lparr>l_head := Some a, l_tail := Some a, l_len := l_len l + 1\<rparr>
    else l\<lparr>l_tail := Some a, l_len := l_len l + 1\<rparr>"
  have "listAddNodeTail (Some a) h l v = Some (h', ?l, True)"
    using h'(1) assms(1) by (cases as rule: rev_cases) (simp_all add: listAddNodeTail_def dll_def hook_def)
  moreover have "dll h' ?l (as @ [a])"
    using h'(2) s assms(1) by (cases as) (simp_all add: dll_def del: seg.simps)
  moreover have "l_dup ?l = l_dup l" "l_free ?l = l_free l" by simp_all
  ultimately show ?thesis using h'(3,4) by blast
qed

text \<open>Insertion before or after the node \<open>b\<close>.\<close>

lemma listInsertNode_after:
  assumes "dll h l (xs @ b # ys)" and "h a = None"
  shows "\<exists>h' l'. listInsertNode (Some a) h l (Some b) v True = Some (h', l', True) \<and>
    dll h' l' (xs @ b # a # ys) \<and> vals h' (xs @ b # a # ys) = vals h (xs @ [b]) @ v # vals h ys \<and>
    (\<forall>x. x \<notin> set (xs @ b # a # ys) \<longrightarrow> h' x = h x)"
proof -
  have s: "seg h None (xs @ [b]) (first ys None)" "seg h (Some b) ys None" "distinct ((xs @ [b]) @ ys)"
    "a \<notin> set (xs @ [b])" "a \<notin> set ys"
    using assms fresh_notin [of h None "xs @ b # ys" None a] by (auto simp: dll_def)
  then obtain n where n: "h b = Some n" "n_prev n = final xs None" "n_next n = first ys None" by auto
  obtain h' where h': "hook (h(a \<mapsto> \<lparr>n_prev = Some b, n_next = first ys None, n_value = v\<rparr>)) (Some b) (first ys None) a = Some h'"
    "seg h' None (xs @ b # a # ys) None" "vals h' (xs @ b # a # ys) = vals h (xs @ [b]) @ v # vals h ys"
    "\<forall>x. x \<notin> set (xs @ b # a # ys) \<longrightarrow> h' x = h x"
    using link_between [OF s(1-5), of v] by (auto simp: vals_def)
  let ?l = "(if ys = [] then l\<lparr>l_tail := Some a\<rparr> else l)\<lparr>l_len := l_len l + 1\<rparr>"
  have "listInsertNode (Some a) h l (Some b) v True = Some (h', ?l, True)"
    using h'(1) assms(1) n s(3)
    by (cases ys rule: rev_cases) (auto simp: listInsertNode_def dll_def deref_def Let_def)
  moreover have "dll h' ?l (xs @ b # a # ys)"
    using h'(2) s(3-5) assms(1) by (cases ys) (simp_all add: dll_def del: seg.simps seg_append)
  ultimately show ?thesis using h'(3,4) by blast
qed

lemma listInsertNode_before:
  assumes "dll h l (xs @ b # ys)" and "h a = None"
  shows "\<exists>h' l'. listInsertNode (Some a) h l (Some b) v False = Some (h', l', True) \<and>
    dll h' l' (xs @ a # b # ys) \<and> vals h' (xs @ a # b # ys) = vals h xs @ v # vals h (b # ys) \<and>
    (\<forall>x. x \<notin> set (xs @ a # b # ys) \<longrightarrow> h' x = h x)"
proof -
  have s: "seg h None xs (Some b)" "seg h (final xs None) (b # ys) None" "distinct (xs @ b # ys)"
    "a \<notin> set xs" "a \<notin> set (b # ys)"
    using assms fresh_notin [of h None "xs @ b # ys" None a] by (auto simp: dll_def)
  then obtain n where n: "h b = Some n" "n_prev n = final xs None" "n_next n = first ys None" by auto
  obtain h' where h': "hook (h(a \<mapsto> \<lparr>n_prev = final xs None, n_next = Some b, n_value = v\<rparr>)) (final xs None) (Some b) a = Some h'"
    "seg h' None (xs @ a # b # ys) None" "vals h' (xs @ a # b # ys) = vals h xs @ v # vals h (b # ys)"
    "\<forall>x. x \<notin> set (xs @ a # b # ys) \<longrightarrow> h' x = h x"
    using link_between [OF s(1-5), of v] by (auto simp: vals_def)
  let ?l = "(if xs = [] then l\<lparr>l_head := Some a\<rparr> else l)\<lparr>l_len := l_len l + 1\<rparr>"
  have "listInsertNode (Some a) h l (Some b) v False = Some (h', ?l, True)"
    using h'(1) assms(1) n s(3) by (cases xs) (auto simp: listInsertNode_def dll_def deref_def Let_def)
  moreover have "dll h' ?l (xs @ a # b # ys)"
    using h'(2) s(3-5) assms(1) by (cases xs) (simp_all add: dll_def del: seg.simps seg_append)
  ultimately show ?thesis using h'(3,4) by blast
qed

section \<open>Taking nodes out\<close>

lemma listDelNode_ok:
  assumes "dll h l (xs @ b # ys)"
  shows "\<exists>h' l'. listDelNode h l (Some b) = Some (h', l', if l_free l then vals h [b] else []) \<and> dll h' l' (xs @ ys) \<and>
    vals h' (xs @ ys) = vals h xs @ vals h ys \<and> h' b = None \<and>
    (\<forall>x. x \<notin> set (xs @ b # ys) \<longrightarrow> h' x = h x)"
proof -
  have s: "seg h None xs (Some b)" "seg h (Some b) ys None" "distinct (xs @ ys)" "b \<notin> set xs" "b \<notin> set ys"
    using assms by (auto simp: dll_def)
  obtain n where n: "h b = Some n" "n_prev n = final xs None" "n_next n = first ys None"
    using assms by (auto simp: dll_def)
  obtain h1 h2 where g:
    "(if final xs None \<noteq> None then set_next h (final xs None) (first ys None) else Some h) = Some h1"
    "(if first ys None \<noteq> None then set_prev h1 (first ys None) (final xs None) else Some h1) = Some h2"
    "seg h2 None xs (first ys None)" "seg h2 (final xs None) ys None" "vals h2 xs = vals h xs" "vals h2 ys = vals h ys"
    "\<forall>x. x \<notin> set (xs @ ys) \<longrightarrow> h2 x = h x"
    using relink_gap [OF s(1-3), of "first ys None" "final xs None"] by blast
  let ?l = "(if xs = [] then if ys = [] then l\<lparr>l_head := None, l_tail := None\<rparr> else l\<lparr>l_head := first ys None\<rparr>
    else if ys = [] then l\<lparr>l_tail := final xs None\<rparr> else l)\<lparr>l_len := l_len l - 1\<rparr>"
  have "listDelNode h l (Some b) = Some (h2(b := None), ?l, if l_free l then vals h [b] else [])"
    using n g(1,2) by (cases "xs = []"; cases "ys = []") (auto simp: listDelNode_def first_def final_def vals_def)
  moreover have "dll (h2(b := None)) ?l (xs @ ys)"
    using g(3,4) s(3-5) assms by (cases xs rule: rev_cases; cases ys) (auto simp: dll_def)
  moreover have "vals (h2(b := None)) (xs @ ys) = vals h xs @ vals h ys" using g(5,6) s(4,5) by simp
  moreover have "\<forall>x. x \<notin> set (xs @ b # ys) \<longrightarrow> (h2(b := None)) x = h x" using g(7) by simp
  ultimately show ?thesis by (intro exI [of _ "h2(b := None)"] exI [of _ ?l]) simp
qed



lemma listRotate_ok:
  assumes "dll h l as"
  shows "\<exists>h' l'. listRotate h l = Some (h', l') \<and> (\<exists>as'. dll h' l' as' \<and> set as' = set as \<and>
      vals h' as' = (if as = [] then [] else last (vals h as) # butlast (vals h as))) \<and>
    (\<forall>x. x \<notin> set as \<longrightarrow> h' x = h x)"
proof (cases "length as \<le> 1")
  case True
  then have "listRotate h l = Some (h, l)" using assms by (simp add: listRotate_def dll_def)
  moreover have "vals h as = (if as = [] then [] else last (vals h as) # butlast (vals h as))"
    using True by (cases as) (auto simp: vals_def)
  ultimately show ?thesis using assms by auto
next
  case False
  then obtain xs t where as: "as = xs @ [t]" and ne: "xs \<noteq> []" by (cases as rule: rev_cases) auto
  have s: "seg h None xs (Some t)" "distinct xs" "t \<notin> set xs" using assms as by (auto simp: dll_def)
  obtain n where n: "h t = Some n" "n_prev n = final xs None" using assms as by (auto simp: dll_def)
  obtain h1 where h1: "set_next h (final xs None) None = Some h1" "seg h1 None xs None" "vals h1 xs = vals h xs"
    "\<forall>x. x \<notin> set xs \<longrightarrow> h1 x = h x"
    using set_next_final [OF s(1,2), of None] ne by (auto simp: final_def)
  obtain h2 where h2: "set_prev h1 (first xs None) (Some t) = Some h2" "seg h2 (Some t) xs None"
    "vals h2 xs = vals h xs" "\<forall>x. x \<notin> set xs \<longrightarrow> h2 x = h1 x"
    using set_prev_first [OF h1(2) s(2), of "Some t"] ne h1(3) by (auto simp: first_def)
  let ?h = "h2(t \<mapsto> n\<lparr>n_prev := None, n_next := first xs None\<rparr>)" and ?l = "l\<lparr>l_tail := final xs None, l_head := Some t\<rparr>"
  have "h2 t = Some n" using h2(4) h1(4) s(3) n(1) by simp
  then have "set_prev h2 (Some t) None = Some (h2(t \<mapsto> n\<lparr>n_prev := None\<rparr>))"
    "set_next (h2(t \<mapsto> n\<lparr>n_prev := None\<rparr>)) (Some t) (first xs None) = Some ?h"
    by (simp_all add: set_prev_def set_next_def)
  moreover have "l_tail l = Some t" "l_head l = first xs None" "\<not> l_len l \<le> 1"
    using assms as ne False by (auto simp: dll_def first_def)
  ultimately have "listRotate h l = Some (?h, ?l)"
    using n h1(1) h2(1) by (simp add: listRotate_def deref_def Let_def)
  moreover have "dll ?h ?l (t # xs)"
    using assms as ne s(2,3) h2(2) by (auto simp: dll_def final_def)
  moreover have "vals ?h (t # xs) = last (vals h as) # butlast (vals h as)"
    using as h2(3) s(3) n(1) by (simp add: vals_Cons) (simp add: vals_def)
  moreover have "\<forall>x. x \<notin> set as \<longrightarrow> ?h x = h x" using as h1(4) h2(4) by simp
  moreover have "set (t # xs) = set as" using as by simp
  ultimately show ?thesis using as by (metis append_is_Nil_conv not_Cons_self2)
qed

section \<open>Positions, iteration and search\<close>

lemma index_loop_next:
  "seg h p as None \<Longrightarrow> index_loop h n_next i (first as None) = Some (if i < length as then Some (as ! i) else None)"
proof (induction i arbitrary: as p)
  case 0
  then show ?case by (cases as) auto
next
  case (Suc i)
  show ?case
  proof (cases as)
    case (Cons a bs)
    with Suc.prems obtain n where "h a = Some n" "n_next n = first bs None" "seg h (Some a) bs None" by auto
    then show ?thesis using Suc.IH [of "Some a" bs] Cons by simp
  qed simp
qed

lemma index_loop_prev:
  "seg h None as q \<Longrightarrow> index_loop h n_prev i (final as None) = Some (if i < length as then Some (rev as ! i) else None)"
proof (induction i arbitrary: as q)
  case 0
  then show ?case by (cases as rule: rev_cases) auto
next
  case (Suc i)
  show ?case
  proof (cases as rule: rev_cases)
    case (snoc bs a)
    with Suc.prems obtain n where "h a = Some n" "n_prev n = final bs None" "seg h None bs (Some a)" by auto
    then show ?thesis using Suc.IH [of bs "Some a"] snoc by simp
  qed simp
qed

text \<open>The position an index names: counted from the head from 0, or from the tail from -1.\<close>

definition pos_of :: "int \<Rightarrow> nat \<Rightarrow> nat option" where
  "pos_of i len = (if 0 \<le> i then if nat i < len then Some (nat i) else None
     else if nat (- i) \<le> len then Some (len - nat (- i)) else None)"

lemma pos_of_less: "pos_of i len = Some k \<Longrightarrow> k < len"
  by (auto simp: pos_of_def split: if_splits)

lemma listIndex_ok:
  assumes "dll h l as" and "i \<noteq> -9223372036854775808"
  shows "listIndex h l i = Some (map_option ((!) as) (pos_of i (length as)))"
proof (cases "i < 0")
  case True
  have "rev as ! nat (- i - 1) = as ! (length as - nat (- i))" if "nat (- i) \<le> length as"
    using True that by (simp add: rev_nth) (metis Suc_diff_1 Suc_nat_eq_nat_zadd1 add.commute diff_ge_0_iff_ge
      diff_add_cancel int_one_le_iff_zero_less neg_0_less_iff_less uminus_add_conv_diff)
  then show ?thesis
    using True assms index_loop_prev [of h as None "nat (- i - 1)"]
    by (auto simp: listIndex_def dll_def pos_of_def)
next
  case False
  then show ?thesis using assms(1) index_loop_next [of h None as "nat i"]
    by (auto simp: listIndex_def dll_def pos_of_def)
qed

lemma listNext_Cons:
  "seg h p (a # as) None \<Longrightarrow> listNext h \<lparr>it_next = Some a, it_direction = AL_START_HEAD\<rparr> =
     Some (\<lparr>it_next = first as None, it_direction = AL_START_HEAD\<rparr>, Some a)"
  by (auto simp: listNext_def deref_def)

lemma listNext_end: "listNext h \<lparr>it_next = None, it_direction = d\<rparr> = Some (\<lparr>it_next = None, it_direction = d\<rparr>, None)"
  by (simp add: listNext_def)

definition list_matches :: "'v alist \<Rightarrow> 'v \<Rightarrow> 'v \<Rightarrow> bool" where
  "list_matches l v key = (case l_match l of None \<Rightarrow> key = v | Some f \<Rightarrow> f v key)"

lemma list_search_loop_ok:
  "seg h p as None \<Longrightarrow> list_search_loop h l key \<lparr>it_next = first as None, it_direction = AL_START_HEAD\<rparr> =
     Some (find (\<lambda>a. list_matches l (n_value (the (h a))) key) as)"
proof (induction as arbitrary: p)
  case Nil
  show ?case by (subst list_search_loop.simps) (simp add: listNext_end)
next
  case (Cons a as)
  then obtain n where n: "h a = Some n" "seg h (Some a) as None" by auto
  show ?case
    using Cons.IH [OF n(2)] n(1) listNext_Cons [OF Cons.prems]
    by (subst list_search_loop.simps) (simp add: list_matches_def [symmetric])
qed

lemma listSearchKey_find:
  "dll h l as \<Longrightarrow> listSearchKey h l key = Some (find (\<lambda>a. list_matches l (n_value (the (h a))) key) as)"
  using list_search_loop_ok [of h None as l key] by (simp add: listSearchKey_def listGetIterator_def dll_def)

section \<open>Duplication\<close>

text \<open>What \<^verbatim>\<open>zmalloc\<close> promises: a block that is not in use.\<close>

definition fresh_alloc :: "('v heap \<Rightarrow> addr option) \<Rightarrow> bool" where
  "fresh_alloc alloc \<longleftrightarrow> (\<forall>g a. alloc g = Some a \<longrightarrow> g a = None)"








lemma dll_Nil: "l_head l = None \<Longrightarrow> l_tail l = None \<Longrightarrow> l_len l = 0 \<Longrightarrow> dll h l []"
  by (simp add: dll_def)


section \<open>Sequences of edits\<close>

datatype 'v list_op = PushHead 'v | PushTail 'v | InsertAt int 'v bool | DelAt int | Rotate

text \<open>One edit; the Boolean says whether the list was changed as asked (False: out of memory, or no such position).\<close>

fun list_step ::
  "('v heap \<Rightarrow> addr option) \<Rightarrow> 'v heap \<Rightarrow> 'v alist \<Rightarrow> 'v list_op \<Rightarrow> ('v heap \<times> 'v alist \<times> bool) option" where
  "list_step alloc h l (PushHead v) = listAddNodeHead (alloc h) h l v"
| "list_step alloc h l (PushTail v) = listAddNodeTail (alloc h) h l v"
| "list_step alloc h l (InsertAt i v after) = do {
     node \<leftarrow> listIndex h l i;
     if node = None then Some (h, l, False) else listInsertNode (alloc h) h l node v after
   }"
| "list_step alloc h l (DelAt i) = do {
     node \<leftarrow> listIndex h l i;
     if node = None then Some (h, l, False) else do { (h, l, _) \<leftarrow> listDelNode h l node; Some (h, l, True) }
   }"
| "list_step alloc h l Rotate = do { (h, l) \<leftarrow> listRotate h l; Some (h, l, True) }"

fun list_run ::
  "('v heap \<Rightarrow> addr option) \<Rightarrow> 'v heap \<Rightarrow> 'v alist \<Rightarrow> 'v list_op list \<Rightarrow> ('v heap \<times> 'v alist \<times> bool list) option" where
  "list_run alloc h l [] = Some (h, l, [])"
| "list_run alloc h l (x # xs) = do {
     (h, l, ok) \<leftarrow> list_step alloc h l x;
     (h, l, oks) \<leftarrow> list_run alloc h l xs;
     Some (h, l, ok # oks)
   }"

text \<open>The edits on the list of values.\<close>

fun seq_step :: "'v list \<Rightarrow> 'v list_op \<Rightarrow> 'v list option" where
  "seq_step vs (PushHead v) = Some (v # vs)"
| "seq_step vs (PushTail v) = Some (vs @ [v])"
| "seq_step vs (InsertAt i v after) =
     map_option (\<lambda>k. let k = (if after then k + 1 else k) in take k vs @ v # drop k vs) (pos_of i (length vs))"
| "seq_step vs (DelAt i) = map_option (\<lambda>k. take k vs @ drop (k + 1) vs) (pos_of i (length vs))"
| "seq_step vs Rotate = Some (if vs = [] then [] else last vs # butlast vs)"

fun seq_run :: "'v list \<Rightarrow> ('v list_op \<times> bool) list \<Rightarrow> 'v list option" where
  "seq_run vs [] = Some vs"
| "seq_run vs ((x, ok) # xs) = (if ok then do { vs \<leftarrow> seq_step vs x; seq_run vs xs } else seq_run vs xs)"

fun op_ok :: "'v list_op \<Rightarrow> bool" where
  "op_ok (InsertAt i v after) \<longleftrightarrow> i \<noteq> -9223372036854775808"
| "op_ok (DelAt i) \<longleftrightarrow> i \<noteq> -9223372036854775808"
| "op_ok _ \<longleftrightarrow> True"

definition list_holds :: "'v heap \<Rightarrow> 'v alist \<Rightarrow> 'v list \<Rightarrow> bool" where
  "list_holds h l vs \<longleftrightarrow> (\<exists>as. dll h l as \<and> vals h as = vs)"

fun allocates :: "'v list_op \<Rightarrow> bool" where
  "allocates (DelAt i) \<longleftrightarrow> False"
| "allocates Rotate \<longleftrightarrow> False"
| "allocates _ \<longleftrightarrow> True"

text \<open>An edit fails only when it needs a node and memory is exhausted, or the position does not exist.\<close>

definition edit_done ::
  "('v heap \<Rightarrow> addr option) \<Rightarrow> 'v heap \<Rightarrow> 'v list \<Rightarrow> 'v list_op \<Rightarrow> 'v heap \<Rightarrow> 'v alist \<Rightarrow> bool \<Rightarrow> bool" where
  "edit_done alloc h vs x h' l' ok \<longleftrightarrow>
    (if ok then \<exists>vs'. seq_step vs x = Some vs' \<and> list_holds h' l' vs'
     else list_holds h' l' vs \<and> h' = h \<and> (allocates x \<and> alloc h = None \<or> seq_step vs x = None))"

text \<open>
  The reason why an edit of a sequence fails, in the state in which it is tried: it needs a node and the
  allocator gives none, or the list has no such position.
\<close>

definition refused :: "('v heap \<Rightarrow> addr option) \<Rightarrow> 'v heap \<Rightarrow> 'v alist \<Rightarrow> 'v list_op list \<Rightarrow> nat \<Rightarrow> bool" where
  "refused alloc h l xs i \<longleftrightarrow>
    (\<exists>h1 l1 oks vs. list_run alloc h l (take i xs) = Some (h1, l1, oks) \<and> list_holds h1 l1 vs \<and>
       (allocates (xs ! i) \<and> alloc h1 = None \<or> seq_step vs (xs ! i) = None))"

lemma split_at: "k < length as \<Longrightarrow> as = take k as @ as ! k # drop (k + 1) as"
  by (simp add: id_take_nth_drop)

lemma vals_take_drop: "vals h (take k as) = take k (vals h as)" "vals h (drop k as) = drop k (vals h as)"
  by (simp_all add: vals_def take_map drop_map)

lemma edit_doneI:
  assumes "f = Some (h', l', True)" and "dll h' l' as'" and "seq_step vs x = Some (vals h' as')"
  shows "\<exists>h' l' ok. f = Some (h', l', ok) \<and> edit_done alloc h vs x h' l' ok"
  using assms by (intro exI [of _ h'] exI [of _ l'] exI [of _ True]) (auto simp: edit_done_def list_holds_def)

lemma list_step_insert:
  assumes "fresh_alloc alloc" and "dll h l as" and "i \<noteq> -9223372036854775808"
  shows "\<exists>h' l' ok. list_step alloc h l (InsertAt i v after) = Some (h', l', ok) \<and>
    edit_done alloc h (vals h as) (InsertAt i v after) h' l' ok"
proof (cases "pos_of i (length as)")
  case None
  then show ?thesis using listIndex_ok [OF assms(2,3)] assms(2) by (auto simp: edit_done_def list_holds_def)
next
  case (Some k)
  then have k: "k < length as" by (rule pos_of_less)
  let ?xs = "take k as" and ?b = "as ! k" and ?ys = "drop (k + 1) as"
  have ix: "listIndex h l i = Some (Some ?b)" using listIndex_ok [OF assms(2,3)] Some by simp
  show ?thesis
  proof (cases "alloc h")
    case None
    then show ?thesis using ix assms(2) by (auto simp: edit_done_def list_holds_def listInsertNode_def)
  next
    case al: (Some a)
    have d: "dll h l (?xs @ ?b # ?ys)" and a: "h a = None"
      using assms(1,2) al split_at [OF k] by (auto simp: fresh_alloc_def)
    have *: "vals h (?xs @ [?b]) = take (k + 1) (vals h as)" "vals h (?b # ?ys) = drop k (vals h as)"
      using k by (simp_all add: vals_take_drop [symmetric] take_Suc_conv_app_nth Cons_nth_drop_Suc del: vals_append)
    obtain h' l' as' where "listInsertNode (Some a) h l (Some ?b) v after = Some (h', l', True)" "dll h' l' as'"
      "seq_step (vals h as) (InsertAt i v after) = Some (vals h' as')"
      using listInsertNode_after [OF d a, of v] listInsertNode_before [OF d a, of v] Some *
      by (cases after) (force simp: vals_take_drop)+
    then show ?thesis using ix al by (intro edit_doneI [of _ h' l' as']) simp_all
  qed
qed

lemma list_step_ok:
  assumes "fresh_alloc alloc" and "dll h l as" and "op_ok x"
  shows "\<exists>h' l' ok. list_step alloc h l x = Some (h', l', ok) \<and> edit_done alloc h (vals h as) x h' l' ok"
proof (cases x)
  case (PushHead v)
  show ?thesis
  proof (cases "alloc h")
    case (Some a)
    then have "h a = None" using assms(1) by (simp add: fresh_alloc_def)
    from listAddNodeHead_ok [OF assms(2) this, of v] obtain h' l' where
      "listAddNodeHead (Some a) h l v = Some (h', l', True)" "dll h' l' (a # as)" "vals h' (a # as) = v # vals h as" by blast
    then show ?thesis using PushHead Some by (intro edit_doneI [of _ h' l' "a # as"]) simp_all
  qed (use PushHead assms(2) in \<open>auto simp: listAddNodeHead_def edit_done_def list_holds_def\<close>)
next
  case (PushTail v)
  show ?thesis
  proof (cases "alloc h")
    case (Some a)
    then have "h a = None" using assms(1) by (simp add: fresh_alloc_def)
    from listAddNodeTail_ok [OF assms(2) this, of v] obtain h' l' where
      "listAddNodeTail (Some a) h l v = Some (h', l', True)" "dll h' l' (as @ [a])" "vals h' (as @ [a]) = vals h as @ [v]" by blast
    then show ?thesis using PushTail Some by (intro edit_doneI [of _ h' l' "as @ [a]"]) simp_all
  qed (use PushTail assms(2) in \<open>auto simp: listAddNodeTail_def edit_done_def list_holds_def\<close>)
next
  case (InsertAt i v after)
  then show ?thesis using list_step_insert [OF assms(1,2)] assms(3) by simp
next
  case (DelAt i)
  then have i: "i \<noteq> -9223372036854775808" using assms(3) by simp
  show ?thesis
  proof (cases "pos_of i (length as)")
    case None
    then show ?thesis using DelAt listIndex_ok [OF assms(2) i] assms(2) by (auto simp: edit_done_def list_holds_def)
  next
    case (Some k)
    then have k: "k < length as" by (rule pos_of_less)
    have "dll h l (take k as @ as ! k # drop (k + 1) as)" using assms(2) split_at [OF k] by simp
    from listDelNode_ok [OF this] obtain h' l' fr where "listDelNode h l (Some (as ! k)) = Some (h', l', fr)"
      "dll h' l' (take k as @ drop (k + 1) as)"
      "vals h' (take k as @ drop (k + 1) as) = take k (vals h as) @ drop (k + 1) (vals h as)"
      unfolding vals_take_drop by blast
    then show ?thesis using DelAt listIndex_ok [OF assms(2) i] Some
      by (intro edit_doneI [of _ h' l' "take k as @ drop (k + 1) as"]) simp_all
  qed
next
  case Rotate
  obtain h' l' as' where "listRotate h l = Some (h', l')" "dll h' l' as'"
    "vals h' as' = (if as = [] then [] else last (vals h as) # butlast (vals h as))"
    using listRotate_ok [OF assms(2)] by blast
  moreover have "vals h as = [] \<longleftrightarrow> as = []" by (simp add: vals_def)
  ultimately show ?thesis using Rotate by (intro edit_doneI [of _ h' l' as']) simp_all
qed

lemma refused_later: "list_step alloc h l x = Some (h1, l1, ok) \<Longrightarrow> refused alloc h1 l1 xs i \<Longrightarrow> refused alloc h l (x # xs) (Suc i)"
  unfolding refused_def by fastforce

lemma list_run_ok:
  "fresh_alloc alloc \<Longrightarrow> list_holds h l vs \<Longrightarrow> list_all op_ok xs \<Longrightarrow>
   \<exists>h' l' oks vs'. list_run alloc h l xs = Some (h', l', oks) \<and> length oks = length xs \<and>
     seq_run vs (zip xs oks) = Some vs' \<and> list_holds h' l' vs' \<and> (\<forall>i<length xs. \<not> oks ! i \<longrightarrow> refused alloc h l xs i)"
proof (induction xs arbitrary: h l vs)
  case (Cons x xs)
  from Cons.prems obtain as where as: "dll h l as" "vals h as = vs" by (auto simp: list_holds_def)
  obtain h1 l1 ok where st: "list_step alloc h l x = Some (h1, l1, ok)" "edit_done alloc h vs x h1 l1 ok"
    using list_step_ok [OF Cons.prems(1) as(1), of x] Cons.prems(3) as(2) by auto
  then obtain vs1 where vs1: "list_holds h1 l1 vs1" "ok \<Longrightarrow> seq_step vs x = Some vs1" "\<not> ok \<Longrightarrow> vs1 = vs"
    by (cases ok) (auto simp: edit_done_def)
  from Cons.IH [OF Cons.prems(1) vs1(1)] Cons.prems(3) obtain h' l' oks vs' where
    r: "list_run alloc h1 l1 xs = Some (h', l', oks)" "length oks = length xs" "seq_run vs1 (zip xs oks) = Some vs'"
    "list_holds h' l' vs'" "\<forall>i<length xs. \<not> oks ! i \<longrightarrow> refused alloc h1 l1 xs i" by auto
  have "\<not> ok \<Longrightarrow> refused alloc h l (x # xs) 0"
    using st(2) Cons.prems(2) unfolding refused_def edit_done_def by auto
  then have "\<forall>i<length (x # xs). \<not> (ok # oks) ! i \<longrightarrow> refused alloc h l (x # xs) i"
    using r(5) refused_later [OF st(1)] by (auto simp: nth_Cons less_Suc_eq_0_disj split: nat.splits)
  moreover have "list_run alloc h l (x # xs) = Some (h', l', ok # oks)" using st(1) r(1) by simp
  moreover have "seq_run vs (zip (x # xs) (ok # oks)) = Some vs'" using r(3) vs1(2,3) by (cases ok) auto
  ultimately show ?case using r(2,4) by (intro exI [of _ h'] exI [of _ l'] exI [of _ "ok # oks"] exI [of _ vs']) simp
qed (simp add: list_holds_def)

lemma list_holds_Nil: "listCreate room = Some l \<Longrightarrow> list_holds h l []"
  by (auto simp: list_holds_def listCreate_def vals_def intro!: exI [of _ "[]"] dll_Nil split: if_splits)

text \<open>
  C18. Any sequence of pushes, insertions, deletions and rotations on a fresh list runs without following a
  bad pointer, and leaves a well-formed doubly linked list of exactly the values that the same edits,
  less those that failed, give on a plain list.  An edit fails only where the allocator, asked for a node
  at that moment, gives none, or where the list has no element at the position; positions count from
  either end.  The position LONG_MIN, whose negation overflows, is left out.
\<close>

theorem adlist_refines_list:
  assumes "listCreate True = Some l" and "fresh_alloc alloc" and "list_all op_ok xs"
  shows "\<exists>h' l' oks vs. list_run alloc h l xs = Some (h', l', oks) \<and> length oks = length xs \<and>
    seq_run [] (zip xs oks) = Some vs \<and> list_holds h' l' vs \<and> (\<forall>i<length xs. \<not> oks ! i \<longrightarrow> refused alloc h l xs i)"
  using list_run_ok [OF assms(2) list_holds_Nil [OF assms(1)] assms(3)] .

text \<open>An allocator that takes the least free address below a limit.\<close>

definition first_free :: "'v heap \<Rightarrow> addr option" where
  "first_free h = find (\<lambda>a. h a = None) [0..<8]"

lemma first_free_fresh: "fresh_alloc first_free"
  unfolding fresh_alloc_def first_free_def by (auto simp: find_Some_iff)

definition demo_list :: "int alist" where
  "demo_list = \<lparr>l_head = None, l_tail = None, l_dup = None, l_free = False, l_match = None, l_len = 0\<rparr>"

definition demo_heap :: "int heap" where
  "demo_heap = [0 \<mapsto> \<lparr>n_prev = None, n_next = None, n_value = 7\<rparr>]"

lemma demo_dll: "dll demo_heap (demo_list\<lparr>l_head := Some 0, l_tail := Some 0, l_len := 1\<rparr>) [0]"
  by (simp add: dll_def demo_heap_def)

theorem adlist_refines_list_witness:
  "\<exists>h' l' oks vs. list_run first_free (\<lambda>_. None) demo_list [PushTail 1, DelAt 5, PushHead 2] = Some (h', l', oks) \<and>
     length oks = 3 \<and> seq_run [] (zip [PushTail 1, DelAt 5, PushHead 2] oks) = Some vs \<and> list_holds h' l' vs \<and>
     (\<forall>i<3. \<not> oks ! i \<longrightarrow> refused first_free (\<lambda>_. None) demo_list [PushTail 1, DelAt 5, PushHead 2] i)"
  using adlist_refines_list [of demo_list first_free "[PushTail 1, DelAt 5, PushHead 2]" "\<lambda>_. None"] first_free_fresh
  by (simp add: listCreate_def demo_list_def eval_nat_numeral del: list_run.simps)



text \<open>
  C39. \<^verbatim>\<open>listSearchKey\<close> returns the first node whose value matches the key, under the list's own match
  method or equality, and \<^verbatim>\<open>listIndex\<close> returns the node at a position counted from either end.
\<close>

theorem adlist_lookup:
  assumes "dll h l as" and "i \<noteq> -9223372036854775808"
  shows "listSearchKey h l key = Some (find (\<lambda>a. list_matches l (n_value (the (h a))) key) as) \<and>
    listIndex h l i = Some (map_option ((!) as) (pos_of i (length as)))"
  using listSearchKey_find [OF assms(1)] listIndex_ok [OF assms] by blast

theorem adlist_lookup_witness:
  "listIndex demo_heap (demo_list\<lparr>l_head := Some 0, l_tail := Some 0, l_len := 1\<rparr>) (-1) = Some (Some 0)"
  using adlist_lookup [OF demo_dll, of "-1" 7] by (simp add: pos_of_def)

end
