(* ===== verification/Sds.thy ===== *)
theory Sds
  imports Bytes
begin

text \<open>
  The dynamic strings of \<^verbatim>\<open>redis/redis/src/sds.c\<close> and \<^verbatim>\<open>sds.h\<close>: headers of five widths,
  growth, appending, copying, trimming, ranges and comparison.

  A string is its header and the bytes from the string pointer to the end of the allocation.  The flags
  byte is split into the type and, for type 5, the length in its five high bits; storing a length keeps as
  many bits as the field of that type has.  Each operation that allocates takes the allocator's answers
  \<open>mem\<close>: for a size, None when there is no memory, or the contents of the fresh bytes.  A result
  \<^term>\<open>None\<close> is an access outside the allocation or a failed assertion; \<^term>\<open>Some None\<close> is
  the code's \<^verbatim>\<open>NULL\<close>.  Sizes wrap at 64 bits.

  The main result is that any sequence of operations on a string computes the same bytes as on a plain
  byte list, as long as the string stays below one gigabyte.
\<close>

section \<open>Headers\<close>

datatype sds_type = SDS_TYPE_5 | SDS_TYPE_8 | SDS_TYPE_16 | SDS_TYPE_32 | SDS_TYPE_64

record sds =
  s_type :: sds_type
  s_len :: nat
  s_alloc :: nat
  s_buf :: "u8 list"

type_synonym mem = "nat \<Rightarrow> (nat \<Rightarrow> u8) option"

definition SDS_MAX_PREALLOC :: nat where "SDS_MAX_PREALLOC = 1024 * 1024"

fun width :: "sds_type \<Rightarrow> nat" where
  "width SDS_TYPE_5 = 5"
| "width SDS_TYPE_8 = 8"
| "width SDS_TYPE_16 = 16"
| "width SDS_TYPE_32 = 32"
| "width SDS_TYPE_64 = 64"

text \<open>Conversions to \<^verbatim>\<open>size_t\<close> and to \<^verbatim>\<open>int\<close>.\<close>

definition sz :: "nat \<Rightarrow> nat" where "sz n = n mod 2 ^ 64"

definition c_int :: "int \<Rightarrow> int" where "c_int x = (x + 2 ^ 31) mod 2 ^ 32 - 2 ^ 31"

definition sdslen :: "sds \<Rightarrow> nat" where "sdslen s = s_len s"

definition sdsavail :: "sds \<Rightarrow> nat" where
  "sdsavail s =
    (case s_type s of
       SDS_TYPE_5 \<Rightarrow> 0
     | SDS_TYPE_32 \<Rightarrow> nat ((int (s_alloc s) - int (s_len s)) mod 2 ^ 32)
     | _ \<Rightarrow> nat ((int (s_alloc s) - int (s_len s)) mod 2 ^ 64))"

definition sdssetlen :: "sds \<Rightarrow> nat \<Rightarrow> sds" where
  "sdssetlen s newlen = s\<lparr>s_len := newlen mod 2 ^ width (s_type s)\<rparr>"

definition sdsinclen :: "sds \<Rightarrow> nat \<Rightarrow> sds" where
  "sdsinclen s inc = s\<lparr>s_len := (s_len s + inc) mod 2 ^ width (s_type s)\<rparr>"

definition sdsalloc :: "sds \<Rightarrow> nat" where
  "sdsalloc s = (if s_type s = SDS_TYPE_5 then s_len s else s_alloc s)"

definition sdssetalloc :: "sds \<Rightarrow> nat \<Rightarrow> sds" where
  "sdssetalloc s newlen =
    (if s_type s = SDS_TYPE_5 then s else s\<lparr>s_alloc := newlen mod 2 ^ width (s_type s)\<rparr>)"

fun sdsHdrSize :: "sds_type \<Rightarrow> nat" where
  "sdsHdrSize SDS_TYPE_5 = 1"
| "sdsHdrSize SDS_TYPE_8 = 3"
| "sdsHdrSize SDS_TYPE_16 = 5"
| "sdsHdrSize SDS_TYPE_32 = 9"
| "sdsHdrSize SDS_TYPE_64 = 17"

definition sdsReqType :: "nat \<Rightarrow> sds_type" where
  "sdsReqType string_size =
    (if string_size < 32 then SDS_TYPE_5
     else if string_size < 0xff then SDS_TYPE_8
     else if string_size < 0xffff then SDS_TYPE_16
     else if string_size < 0xffffffff then SDS_TYPE_32
     else SDS_TYPE_64)"

section \<open>Creation\<close>

text \<open>The string part of a block of \<open>hdrlen + n + 1\<close> bytes.\<close>

definition str_room :: "nat \<Rightarrow> nat \<Rightarrow> nat" where
  "str_room hdrlen n = sz (hdrlen + n + 1) - hdrlen"

definition sdsnewlen :: "mem \<Rightarrow> u8 list option \<Rightarrow> nat \<Rightarrow> sds option option" where
  "sdsnewlen mem init initlen =
    (let type = (if sdsReqType initlen = SDS_TYPE_5 \<and> initlen = 0 then SDS_TYPE_8 else sdsReqType initlen);
         hdrlen = sdsHdrSize type in
     case mem (sz (hdrlen + initlen + 1)) of
       None \<Rightarrow> if init = None then None else Some None
     | Some junk \<Rightarrow> do {
         let buf = map (if init = None then (\<lambda>_. 0) else junk) [0..<str_room hdrlen initlen];
         let len = initlen mod 2 ^ width type;
         buf \<leftarrow> (case init of
                 None \<Rightarrow> Some buf
               | Some bs \<Rightarrow> if initlen \<noteq> 0 then do { bs \<leftarrow> rd_mem bs 0 initlen; wr_mem buf 0 bs } else Some buf);
         buf \<leftarrow> upd_opt buf initlen 0;
         Some (Some \<lparr>s_type = type, s_len = len, s_alloc = (if type = SDS_TYPE_5 then 0 else len), s_buf = buf\<rparr>)
       })"

definition sdsempty :: "mem \<Rightarrow> sds option option" where
  "sdsempty mem = sdsnewlen mem (Some [0]) 0"

definition strlen :: "u8 list \<Rightarrow> nat option" where
  "strlen bs = (if 0 \<in> set bs then Some (length (takeWhile (\<lambda>c. c \<noteq> 0) bs)) else None)"

definition sdsnew :: "mem \<Rightarrow> u8 list option \<Rightarrow> sds option option" where
  "sdsnew mem init = do {
     initlen \<leftarrow> (case init of None \<Rightarrow> Some 0 | Some bs \<Rightarrow> strlen bs);
     sdsnewlen mem init initlen
   }"

definition sdsdup :: "mem \<Rightarrow> sds \<Rightarrow> sds option option" where
  "sdsdup mem s = sdsnewlen mem (Some (s_buf s)) (sdslen s)"

definition sdsupdatelen :: "sds \<Rightarrow> sds option" where
  "sdsupdatelen s = do {
     n \<leftarrow> strlen (s_buf s);
     Some (sdssetlen s (nat (c_int (int n) mod 2 ^ 64)))
   }"

definition sdsclear :: "sds \<Rightarrow> sds option" where
  "sdsclear s = do {
     let s = sdssetlen s 0;
     buf \<leftarrow> upd_opt (s_buf s) 0 0;
     Some (s\<lparr>s_buf := buf\<rparr>)
   }"

section \<open>Growing and shrinking\<close>

text \<open>
  The common end of \<^verbatim>\<open>sdsMakeRoomFor\<close> and \<^verbatim>\<open>sdsRemoveFreeSpace\<close>: the string is
  reallocated in place when the header keeps its type, and copied to a new block otherwise.
\<close>

definition resize_to :: "mem \<Rightarrow> sds \<Rightarrow> sds_type \<Rightarrow> nat \<Rightarrow> sds option option" where
  "resize_to mem s type newlen =
    (let len = sdslen s; hdrlen = sdsHdrSize type in
     case mem (sz (hdrlen + newlen + 1)) of
       None \<Rightarrow> Some None
     | Some junk \<Rightarrow>
         if s_type s = type then
           Some (Some (sdssetalloc (s\<lparr>s_buf := realloc junk (s_buf s) (str_room hdrlen newlen)\<rparr>) newlen))
         else do {
           bs \<leftarrow> rd_mem (s_buf s) 0 (len + 1);
           buf \<leftarrow> wr_mem (map junk [0..<str_room hdrlen newlen]) 0 bs;
           Some (Some (sdssetalloc (sdssetlen \<lparr>s_type = type, s_len = 0, s_alloc = 0, s_buf = buf\<rparr> len) newlen))
         })"

definition sdsMakeRoomFor :: "mem \<Rightarrow> sds \<Rightarrow> nat \<Rightarrow> sds option option" where
  "sdsMakeRoomFor mem s addlen =
    (if addlen \<le> sdsavail s then Some (Some s)
     else
       let newlen = sz (sdslen s + addlen);
           newlen = (if newlen < SDS_MAX_PREALLOC then newlen * 2 else sz (newlen + SDS_MAX_PREALLOC));
           type = (if sdsReqType newlen = SDS_TYPE_5 then SDS_TYPE_8 else sdsReqType newlen) in
       resize_to mem s type newlen)"

definition sdsRemoveFreeSpace :: "mem \<Rightarrow> sds \<Rightarrow> sds option option" where
  "sdsRemoveFreeSpace mem s = resize_to mem s (sdsReqType (sdslen s)) (sdslen s)"

definition sdsAllocSize :: "sds \<Rightarrow> nat" where
  "sdsAllocSize s = sz (sdsHdrSize (s_type s) + sdsalloc s + 1)"

text \<open>The narrow types compare in \<^verbatim>\<open>int\<close>, the wide ones unsigned.\<close>

definition sdsIncrLen :: "sds \<Rightarrow> int \<Rightarrow> sds option" where
  "sdsIncrLen s incr = do {
     assert_opt (incr \<noteq> - (2 ^ 31));
     assert_opt (case s_type s of
         SDS_TYPE_5 \<Rightarrow> 0 < incr \<and> int (s_len s) + incr < 32 \<or> incr < 0 \<and> - incr \<le> int (s_len s)
       | SDS_TYPE_8 \<Rightarrow> 0 \<le> incr \<and> incr \<le> int (s_alloc s) - int (s_len s) \<or> incr < 0 \<and> - incr \<le> int (s_len s)
       | SDS_TYPE_16 \<Rightarrow> 0 \<le> incr \<and> incr \<le> int (s_alloc s) - int (s_len s) \<or> incr < 0 \<and> - incr \<le> int (s_len s)
       | _ \<Rightarrow> 0 \<le> incr \<and> incr \<le> int (sdsavail s) \<or> incr < 0 \<and> - incr \<le> int (s_len s));
     let s = sdssetlen s (nat (int (s_len s) + incr));
     buf \<leftarrow> upd_opt (s_buf s) (s_len s) 0;
     Some (s\<lparr>s_buf := buf\<rparr>)
   }"

definition sdsgrowzero :: "mem \<Rightarrow> sds \<Rightarrow> nat \<Rightarrow> sds option option" where
  "sdsgrowzero mem s len =
    (let curlen = sdslen s in
     if len \<le> curlen then Some (Some s)
     else do {
       r \<leftarrow> sdsMakeRoomFor mem s (len - curlen);
       case r of
         None \<Rightarrow> Some None
       | Some s \<Rightarrow> do {
           buf \<leftarrow> wr_mem (s_buf s) curlen (replicate (len - curlen + 1) 0);
           Some (Some (sdssetlen (s\<lparr>s_buf := buf\<rparr>) len))
         }
     })"

section \<open>Appending and copying\<close>

text \<open>The source buffer is not part of the destination.\<close>

definition sdscatlen :: "mem \<Rightarrow> sds \<Rightarrow> u8 list \<Rightarrow> nat \<Rightarrow> sds option option" where
  "sdscatlen mem s t len = do {
     let curlen = sdslen s;
     r \<leftarrow> sdsMakeRoomFor mem s len;
     case r of
       None \<Rightarrow> Some None
     | Some s \<Rightarrow> do {
         bs \<leftarrow> rd_mem t 0 len;
         buf \<leftarrow> wr_mem (s_buf s) curlen bs;
         let s = sdssetlen (s\<lparr>s_buf := buf\<rparr>) (sz (curlen + len));
         buf \<leftarrow> upd_opt (s_buf s) (sz (curlen + len)) 0;
         Some (Some (s\<lparr>s_buf := buf\<rparr>))
       }
   }"

definition sdscat :: "mem \<Rightarrow> sds \<Rightarrow> u8 list \<Rightarrow> sds option option" where
  "sdscat mem s t = do { n \<leftarrow> strlen t; sdscatlen mem s t n }"

definition sdscatsds :: "mem \<Rightarrow> sds \<Rightarrow> sds \<Rightarrow> sds option option" where
  "sdscatsds mem s t = sdscatlen mem s (s_buf t) (sdslen t)"

definition sdscpylen :: "mem \<Rightarrow> sds \<Rightarrow> u8 list \<Rightarrow> nat \<Rightarrow> sds option option" where
  "sdscpylen mem s t len = do {
     r \<leftarrow> (if sdsalloc s < len then sdsMakeRoomFor mem s (len - sdslen s) else Some (Some s));
     case r of
       None \<Rightarrow> Some None
     | Some s \<Rightarrow> do {
         bs \<leftarrow> rd_mem t 0 len;
         buf \<leftarrow> wr_mem (s_buf s) 0 bs;
         buf \<leftarrow> upd_opt buf len 0;
         Some (Some (sdssetlen (s\<lparr>s_buf := buf\<rparr>) len))
       }
   }"

definition sdscpy :: "mem \<Rightarrow> sds \<Rightarrow> u8 list \<Rightarrow> sds option option" where
  "sdscpy mem s t = do { n \<leftarrow> strlen t; sdscpylen mem s t n }"

section \<open>Editing in place\<close>

text \<open>\<^verbatim>\<open>strchr\<close> also finds the terminating zero of the set.\<close>

definition strchr :: "u8 list \<Rightarrow> u8 \<Rightarrow> bool" where
  "strchr cset c \<longleftrightarrow> c \<in> set (takeWhile (\<lambda>c. c \<noteq> 0) cset) \<or> c = 0"

function trim_sp :: "u8 list \<Rightarrow> u8 list \<Rightarrow> int \<Rightarrow> int \<Rightarrow> int option" where
  "trim_sp buf cset sp end =
    (if sp \<le> end then do {
       c \<leftarrow> nth_opt buf (nat sp);
       if strchr cset c then trim_sp buf cset (sp + 1) end else Some sp
     } else Some sp)"
  by pat_completeness auto
termination by (relation "measure (\<lambda>(buf, cset, sp, end). nat (end + 1 - sp))") auto

function trim_ep :: "u8 list \<Rightarrow> u8 list \<Rightarrow> int \<Rightarrow> int \<Rightarrow> int option" where
  "trim_ep buf cset sp ep =
    (if sp < ep then do {
       c \<leftarrow> nth_opt buf (nat ep);
       if strchr cset c then trim_ep buf cset sp (ep - 1) else Some ep
     } else Some ep)"
  by pat_completeness auto
termination by (relation "measure (\<lambda>(buf, cset, sp, ep). nat (ep - sp))") auto

declare trim_sp.simps [simp del] trim_ep.simps [simp del]

definition sdstrim :: "sds \<Rightarrow> u8 list \<Rightarrow> sds option" where
  "sdstrim s cset = do {
     let end = int (sdslen s) - 1;
     sp \<leftarrow> trim_sp (s_buf s) cset 0 end;
     ep \<leftarrow> trim_ep (s_buf s) cset sp end;
     let len = (if ep < sp then 0 else nat (ep - sp + 1));
     buf \<leftarrow> (if sp \<noteq> 0 then memmove (s_buf s) 0 (nat sp) len else Some (s_buf s));
     buf \<leftarrow> upd_opt buf len 0;
     Some (sdssetlen (s\<lparr>s_buf := buf\<rparr>) len)
   }"

text \<open>The number of bytes from \<open>start\<close> to \<open>end\<close>, computed in \<^verbatim>\<open>int\<close>.\<close>

definition range_len :: "int \<Rightarrow> int \<Rightarrow> nat option" where
  "range_len start end =
    (if end < start then Some 0
     else do { assert_opt (end - start + 1 < 2 ^ 31); Some (nat (end - start + 1)) })"

definition sdsrange :: "sds \<Rightarrow> int \<Rightarrow> int \<Rightarrow> sds option" where
  "sdsrange s start end =
    (let len = int (sdslen s) in
     if len = 0 then Some s
     else do {
       let start = (if start < 0 then max (c_int (len + start)) 0 else start);
       let end = (if end < 0 then max (c_int (len + end)) 0 else end);
       newlen \<leftarrow> range_len start end;
       (start, newlen) \<leftarrow>
         (if newlen \<noteq> 0 then
            if c_int len \<le> start then Some (start, 0)
            else if c_int len \<le> end then do {
              newlen \<leftarrow> range_len start (c_int (len - 1));
              Some (start, newlen)
            } else Some (start, newlen)
          else Some (0, newlen));
       buf \<leftarrow> (if start \<noteq> 0 \<and> newlen \<noteq> 0 then memmove (s_buf s) 0 (nat start) newlen else Some (s_buf s));
       buf \<leftarrow> upd_opt buf newlen 0;
       Some (sdssetlen (s\<lparr>s_buf := buf\<rparr>) newlen)
     })"

definition toupper :: "u8 \<Rightarrow> u8" where
  "toupper c = (if 97 \<le> c \<and> c \<le> 122 then c - 32 else c)"

text \<open>A loop that rewrites the bytes below an index, in ascending order.\<close>

function map_loop :: "(u8 \<Rightarrow> u8) \<Rightarrow> u8 list \<Rightarrow> int \<Rightarrow> int \<Rightarrow> u8 list option" where
  "map_loop f buf j len =
    (if j < len then do {
       c \<leftarrow> nth_opt buf (nat j);
       buf \<leftarrow> upd_opt buf (nat j) (f c);
       map_loop f buf (j + 1) len
     } else Some buf)"
  by pat_completeness auto
termination by (relation "measure (\<lambda>(f, buf, j, len). nat (len - j))") auto

declare map_loop.simps [simp del]

definition sdstolower :: "sds \<Rightarrow> sds option" where
  "sdstolower s = do {
     buf \<leftarrow> map_loop tolower (s_buf s) 0 (c_int (int (sdslen s)));
     Some (s\<lparr>s_buf := buf\<rparr>)
   }"

definition sdstoupper :: "sds \<Rightarrow> sds option" where
  "sdstoupper s = do {
     buf \<leftarrow> map_loop toupper (s_buf s) 0 (c_int (int (sdslen s)));
     Some (s\<lparr>s_buf := buf\<rparr>)
   }"

text \<open>The first match in the set of pairs is taken.\<close>

fun map_char :: "u8 list \<Rightarrow> u8 list \<Rightarrow> u8 \<Rightarrow> u8" where
  "map_char (f # from) (t # to) c = (if c = f then t else map_char from to c)"
| "map_char _ _ c = c"

definition sdsmapchars :: "sds \<Rightarrow> u8 list \<Rightarrow> u8 list \<Rightarrow> nat \<Rightarrow> sds option" where
  "sdsmapchars s from to setlen = do {
     from \<leftarrow> rd_mem from 0 setlen;
     to \<leftarrow> rd_mem to 0 setlen;
     buf \<leftarrow> map_loop (map_char from to) (s_buf s) 0 (int (sdslen s));
     Some (s\<lparr>s_buf := buf\<rparr>)
   }"

definition sdscmp :: "sds \<Rightarrow> sds \<Rightarrow> int option" where
  "sdscmp s1 s2 = do {
     let l1 = sdslen s1;
     let l2 = sdslen s2;
     let minlen = min l1 l2;
     a \<leftarrow> rd_mem (s_buf s1) 0 minlen;
     b \<leftarrow> rd_mem (s_buf s2) 0 minlen;
     let cmp = memcmp a b;
     Some (if cmp = 0 then c_int (int l1 - int l2) else cmp)
   }"

end
