(* ===== verification/Sds_Correct.thy ===== *)
theory Sds_Correct
  imports Sds
begin

text \<open>
  Correctness of the dynamic strings of \<open>Sds\<close>: the header invariant, its preservation by every
  operation, and the refinement of operation sequences to byte lists.
\<close>

section \<open>Invariant\<close>

definition sds_ok :: "sds \<Rightarrow> bool" where
  "sds_ok s \<longleftrightarrow> s_len s < 2 ^ width (s_type s) \<and> s_len s \<le> sdsalloc s \<and> sdsalloc s < length (s_buf s) \<and>
     sdsalloc s < 2 ^ width (s_type s) \<and> s_buf s ! s_len s = 0"

definition sval :: "sds \<Rightarrow> u8 list" where
  "sval s = take (sdslen s) (s_buf s)"

text \<open>An operation returned NULL for lack of memory, or a good string with the property.\<close>

definition yields :: "mem \<Rightarrow> sds option option \<Rightarrow> (sds \<Rightarrow> bool) \<Rightarrow> bool" where
  "yields mem res P \<longleftrightarrow> (case res of None \<Rightarrow> False | Some None \<Rightarrow> (\<exists>n. mem n = None) | Some (Some s) \<Rightarrow> sds_ok s \<and> P s)"

lemma yields_Some [simp]: "yields mem (Some (Some s)) P \<longleftrightarrow> sds_ok s \<and> P s"
  by (simp add: yields_def)

lemma yields_mono: "yields mem r P \<Longrightarrow> (\<And>s. sds_ok s \<Longrightarrow> P s \<Longrightarrow> Q s) \<Longrightarrow> yields mem r Q"
  by (auto simp: yields_def split: option.splits)

text \<open>The common shape of the allocating operations.\<close>

lemma yields_bind:
  assumes "yields mem r P" and "\<And>s. sds_ok s \<Longrightarrow> P s \<Longrightarrow> yields mem (f s) Q"
  shows "yields mem (Option.bind r (\<lambda>r. case r of None \<Rightarrow> Some None | Some s \<Rightarrow> f s)) Q"
proof (cases r)
  case (Some r')
  then show ?thesis
  proof (cases r')
    case None
    then show ?thesis using Some assms(1) by (simp add: yields_def)
  next
    case (Some s)
    then show ?thesis using \<open>r = Some r'\<close> assms by simp
  qed
qed (use assms(1) in \<open>simp add: yields_def\<close>)

lemma sval_length [simp]: "sds_ok s \<Longrightarrow> length (sval s) = sdslen s"
  by (auto simp: sval_def sds_ok_def sdslen_def)

lemma sdsavail_ok: "sds_ok s \<Longrightarrow> sdsavail s = sdsalloc s - sdslen s"
  by (cases "s_type s")
    (auto simp: sdsavail_def sds_ok_def sdsalloc_def sdslen_def zmod_trivial_iff nat_diff_distrib' intro!: arg_cong [of _ _ nat])

lemma sdssetlen_simps [simp]:
  "s_buf (sdssetlen s n) = s_buf s" "(sdssetlen s n)\<lparr>s_buf := b\<rparr> = sdssetlen (s\<lparr>s_buf := b\<rparr>) n"
  by (cases s; simp add: sdssetlen_def)+

lemma sds_set:
  assumes "sds_ok s" and "n \<le> sdsalloc s" and "length b = length (s_buf s)" and "b ! n = 0"
  shows "sds_ok (sdssetlen (s\<lparr>s_buf := b\<rparr>) n)" and "sval (sdssetlen (s\<lparr>s_buf := b\<rparr>) n) = take n b"
proof -
  have "n < 2 ^ width (s_type s)" using assms(1,2) by (auto simp: sds_ok_def)
  then show "sds_ok (sdssetlen (s\<lparr>s_buf := b\<rparr>) n)" "sval (sdssetlen (s\<lparr>s_buf := b\<rparr>) n) = take n b"
    using assms by (auto simp: sds_ok_def sdssetlen_def sdsalloc_def sval_def sdslen_def)
qed

lemma reqtype_width: "n < 2 ^ 64 \<Longrightarrow> n < 2 ^ width (sdsReqType n)"
  by (auto simp: sdsReqType_def)

lemma room_ok: "n < 2 ^ 63 \<Longrightarrow> str_room (sdsHdrSize t) n = n + 1"
  by (cases t) (simp_all add: str_room_def sz_def)

section \<open>Growing and shrinking\<close>

lemma resize_to_ok:
  assumes "sds_ok s" and "sdslen s \<le> newlen" and "newlen < 2 ^ 63" and "newlen < 2 ^ width type"
    and "type = SDS_TYPE_5 \<Longrightarrow> newlen = sdslen s"
  shows "yields mem (resize_to mem s type newlen) (\<lambda>s'. sval s' = sval s \<and> sdsalloc s' = newlen)"
proof (cases "mem (sz (sdsHdrSize type + newlen + 1))")
  case None
  then show ?thesis by (auto simp: resize_to_def yields_def)
next
  case (Some junk)
  note r = room_ok [OF assms(3)]
  have l: "s_len s < length (s_buf s)" "s_buf s ! s_len s = 0" "s_len s < 2 ^ width (s_type s)"
    using assms(1) by (auto simp: sds_ok_def)
  show ?thesis
  proof (cases "s_type s = type")
    case True
    let ?b = "realloc junk (s_buf s) (newlen + 1)"
    have "take (Suc (s_len s)) ?b = take (Suc (s_len s)) (s_buf s)"
      using l assms(2) by (intro take_realloc) (auto simp: sdslen_def)
    then have "take (s_len s) ?b = take (s_len s) (s_buf s)" "?b ! s_len s = 0"
      using l by (metis take_take min_def le_Suc_eq nle_le, metis nth_take lessI)
    then show ?thesis
      using Some True r l assms
      by (auto simp: resize_to_def Let_def sds_ok_def sdssetalloc_def sdsalloc_def sval_def sdslen_def)
  next
    case False
    define x where "x = take (Suc (s_len s)) (s_buf s)"
    define z where "z = map junk [0..<newlen + 1]"
    have x: "length x = Suc (s_len s)" "rd_mem (s_buf s) 0 (s_len s + 1) = Some x" using l by (simp_all add: x_def)
    have z: "length z = newlen + 1" by (simp add: z_def)
    let ?b = "x @ drop (Suc (s_len s)) z"
    have wr: "wr_mem z 0 x = Some ?b" using x(1) z assms(2) by (simp add: wr_mem_def sdslen_def)
    have b: "length ?b = newlen + 1" "take (s_len s) ?b = take (s_len s) (s_buf s)" "?b ! s_len s = 0"
      using x(1) z l assms(2) by (auto simp: sdslen_def nth_append) (auto simp: x_def min_def)
    have "resize_to mem s type newlen = Some (Some (sdssetalloc (sdssetlen \<lparr>s_type = type, s_len = 0, s_alloc = 0, s_buf = ?b\<rparr> (s_len s)) newlen))"
      using Some False r x(2) wr by (simp add: resize_to_def Let_def sdslen_def z_def)
    then show ?thesis
      using b assms(2,4,5)
      by (auto simp: sds_ok_def sdssetalloc_def sdssetlen_def sdsalloc_def sval_def sdslen_def simp del: append_take_drop_id)
  qed
qed

lemma sdsMakeRoomFor_ok:
  assumes "sds_ok s" and "sdslen s + addlen < 2 ^ 62"
  shows "yields mem (sdsMakeRoomFor mem s addlen) (\<lambda>s'. sval s' = sval s \<and> sdslen s + addlen \<le> sdsalloc s')"
proof (cases "addlen \<le> sdsavail s")
  case True
  then show ?thesis using assms sdsavail_ok [OF assms(1)]
    by (auto simp: sdsMakeRoomFor_def sds_ok_def sdslen_def)
next
  case False
  let ?n0 = "sdslen s + addlen"
  define n where "n = (if ?n0 < SDS_MAX_PREALLOC then ?n0 * 2 else ?n0 + SDS_MAX_PREALLOC)"
  define t where "t = (if sdsReqType n = SDS_TYPE_5 then SDS_TYPE_8 else sdsReqType n)"
  have n: "?n0 \<le> n" "n < 2 ^ 63" using assms(2) by (auto simp: n_def SDS_MAX_PREALLOC_def)
  have t: "n < 2 ^ width t" "t \<noteq> SDS_TYPE_5"
    using reqtype_width [of n] n(2) by (auto simp: t_def)
  have "sdsMakeRoomFor mem s addlen = resize_to mem s t n"
    using False assms(2) by (simp add: sdsMakeRoomFor_def Let_def n_def t_def sz_def SDS_MAX_PREALLOC_def)
  moreover have "yields mem (resize_to mem s t n) (\<lambda>s'. sval s' = sval s \<and> sdsalloc s' = n)"
    using assms(1) n t by (intro resize_to_ok) auto
  ultimately show ?thesis using n(1) by (auto elim!: yields_mono)
qed

lemma sdsRemoveFreeSpace_ok:
  assumes "sds_ok s" and "sdslen s < 2 ^ 62"
  shows "yields mem (sdsRemoveFreeSpace mem s) (\<lambda>s'. sval s' = sval s \<and> sdsalloc s' = sdslen s)"
  using assms reqtype_width [of "sdslen s"] unfolding sdsRemoveFreeSpace_def by (intro resize_to_ok) auto

lemma sval_eq_len: "sds_ok s \<Longrightarrow> sds_ok s' \<Longrightarrow> sval s' = sval s \<Longrightarrow> sdslen s' = sdslen s"
  by (metis sval_length)

text \<open>A block is written at \<open>off\<close> and a zero byte stored behind it.\<close>

lemma write_terminated:
  assumes "off + length bs < length m"
  defines "c \<equiv> (take off m @ bs @ drop (off + length bs) m)[off + length bs := 0]"
  shows "length c = length m" and "c ! (off + length bs) = 0" and "take (off + length bs) c = take off m @ bs"
  using assms(1) by (simp_all add: c_def nth_list_update)

lemma sdscatlen_ok:
  assumes "sds_ok s" and "len \<le> length t" and "sdslen s + len < 2 ^ 62"
  shows "yields mem (sdscatlen mem s t len) (\<lambda>s'. sval s' = sval s @ take len t)"
  unfolding sdscatlen_def Let_def
proof (rule yields_bind [OF sdsMakeRoomFor_ok [OF assms(1,3)]], elim conjE, goal_cases)
  case (1 s1)
  define x where "x = take len t"
  have x: "rd_mem t 0 len = Some x" "length x = len" using assms(2) by (simp_all add: x_def)
  have l: "sdslen s + len < length (s_buf s1)" using 1 by (simp add: sds_ok_def)
  note c = write_terminated [of "sdslen s" x "s_buf s1", unfolded x(2), OF l]
  have sv: "take (sdslen s) (s_buf s1) = sval s" using 1 assms(1) sval_eq_len by (metis sval_def)
  have sz: "sz (sdslen s + len) = sdslen s + len" using assms(3) by (simp add: sz_def)
  show ?case
    using sds_set [OF 1(1,3) c(1,2)] c(3) x l sv sz sval_length [OF assms(1)]
    by (simp add: x_def [symmetric])
qed

lemma sdscpylen_ok:
  assumes "sds_ok s" and "len \<le> length t" and "len < 2 ^ 61"
  shows "yields mem (sdscpylen mem s t len) (\<lambda>s'. sval s' = take len t)"
proof -
  have r: "yields mem (if sdsalloc s < len then sdsMakeRoomFor mem s (len - sdslen s) else Some (Some s)) (\<lambda>s'. len \<le> sdsalloc s')"
  proof (cases "sdsalloc s < len")
    case True
    then have "sdslen s \<le> len" using assms(1) by (simp add: sds_ok_def sdslen_def)
    then show ?thesis using sdsMakeRoomFor_ok [OF assms(1), of "len - sdslen s" mem] assms(3) True
      by (auto elim!: yields_mono)
  qed (use assms(1) in auto)
  show ?thesis
    unfolding sdscpylen_def Let_def
  proof (rule yields_bind [OF r], goal_cases)
    case (1 s1)
    define x where "x = take len t"
    have x: "rd_mem t 0 len = Some x" "length x = len" using assms(2) by (simp_all add: x_def)
    have l: "0 + len < length (s_buf s1)" using 1 by (simp add: sds_ok_def)
    note c = write_terminated [of 0 x "s_buf s1", unfolded x(2), OF l, unfolded add_0 take_0 append_Nil]
    show ?case using sds_set [OF 1 c(1,2)] c(3) x l by (simp add: x_def [symmetric])
  qed
qed

lemma sdsgrowzero_ok:
  assumes "sds_ok s" and "len < 2 ^ 61"
  shows "yields mem (sdsgrowzero mem s len) (\<lambda>s'. sval s' = sval s @ replicate (len - sdslen s) 0)"
proof (cases "len \<le> sdslen s")
  case True
  then show ?thesis using assms(1) by (simp add: sdsgrowzero_def)
next
  case False
  then have r: "yields mem (sdsMakeRoomFor mem s (len - sdslen s)) (\<lambda>s'. sval s' = sval s \<and> len \<le> sdsalloc s')"
    using sdsMakeRoomFor_ok [OF assms(1), of "len - sdslen s" mem] assms(2) by simp
  show ?thesis
    unfolding sdsgrowzero_def Let_def if_not_P [OF False]
  proof (rule yields_bind [OF r], elim conjE, goal_cases)
    case (1 s1)
    have l: "len < length (s_buf s1)" using 1(1,3) by (simp add: sds_ok_def)
    have sv: "take (sdslen s) (s_buf s1) = sval s" using 1 assms(1) sval_eq_len by (metis sval_def)
    let ?b = "take (sdslen s) (s_buf s1) @ replicate (len - sdslen s + 1) 0 @ drop (len + 1) (s_buf s1)"
    have rep: "replicate (Suc (len - sdslen s)) (0 :: u8) = replicate (len - sdslen s) 0 @ [0]"
      by (simp add: replicate_append_same)
    have b: "wr_mem (s_buf s1) (sdslen s) (replicate (len - sdslen s + 1) 0) = Some ?b"
      "length ?b = length (s_buf s1)" "?b ! len = 0" "take len ?b = sval s @ replicate (len - sdslen s) 0"
      using l False sv [symmetric] by (simp_all add: wr_mem_def nth_append rep del: replicate_Suc)
    show ?case using sds_set [OF 1(1,3) b(2,3)] b(1,4) by simp
  qed
qed

section \<open>Editing in place\<close>

lemma sdsclear_ok:
  assumes "sds_ok s"
  shows "\<exists>s'. sdsclear s = Some s' \<and> sds_ok s' \<and> sval s' = []"
proof -
  have "0 < length (s_buf s)" using assms by (auto simp: sds_ok_def)
  then show ?thesis using sds_set [OF assms, of 0 "(s_buf s)[0 := 0]"] by (simp add: sdsclear_def)
qed

text \<open>The bytes from \<open>sp\<close> are moved to the front and cut off after \<open>n\<close>.\<close>

lemma move_to_front:
  assumes "sds_ok s" and "sp + n \<le> sdslen s"
  obtains b where "memmove (s_buf s) 0 sp n = Some b" and "sp = 0 \<or> n = 0 \<Longrightarrow> b = s_buf s" and "n < length b"
    and "sds_ok (sdssetlen (s\<lparr>s_buf := b[n := 0]\<rparr>) n)"
    and "sval (sdssetlen (s\<lparr>s_buf := b[n := 0]\<rparr>) n) = take n (drop sp (sval s))"
proof -
  let ?x = "take n (drop sp (s_buf s))" and ?b = "take n (drop sp (s_buf s)) @ drop n (s_buf s)"
  have l: "sdslen s < length (s_buf s)" "n \<le> sdsalloc s" using assms by (auto simp: sds_ok_def sdslen_def)
  have x: "length ?x = n" using l assms(2) by simp
  have n: "0 + length ?x < length (s_buf s)" using l assms(2) x by simp
  note c = write_terminated [OF n, unfolded x add_0 take_0 append_Nil]
  have "memmove (s_buf s) 0 sp n = Some ?b" "sp = 0 \<or> n = 0 \<Longrightarrow> ?b = s_buf s" "n < length ?b"
    using l assms(2) by (auto simp: memmove_def)
  moreover have "?x = take n (drop sp (sval s))" using assms(2) by (simp add: sval_def drop_take min_def)
  ultimately show thesis
    using that [of ?b] sds_set [OF assms(1) l(2) c(1,2)] c(3) by simp
qed

definition strip :: "('a \<Rightarrow> bool) \<Rightarrow> 'a list \<Rightarrow> 'a list" where
  "strip P xs = rev (dropWhile P (rev (dropWhile P xs)))"

lemma trim_sp_ok:
  "sp \<le> len \<Longrightarrow> len \<le> length buf \<Longrightarrow>
   trim_sp buf cset (int sp) (int len - 1) = Some (int (sp + length (takeWhile (strchr cset) (drop sp (take len buf)))))"
proof (induction "len - sp" arbitrary: sp)
  case 0
  then show ?case by (subst trim_sp.simps) simp
next
  case (Suc k)
  then have lt: "sp < len" by simp
  have "drop sp (take len buf) = buf ! sp # drop (Suc sp) (take len buf)"
    using lt Suc.prems by (metis Cons_nth_drop_Suc length_take min.absorb2 nth_take)
  moreover have "trim_sp buf cset (int (Suc sp)) (int len - 1) =
      Some (int (Suc sp + length (takeWhile (strchr cset) (drop (Suc sp) (take len buf)))))"
    using Suc lt by (intro Suc.hyps) auto
  ultimately show ?case using lt Suc.prems by (subst trim_sp.simps) (simp add: add.commute)
qed

lemma trim_ep_ok:
  "sp < e \<Longrightarrow> e \<le> length buf \<Longrightarrow> \<not> strchr cset (buf ! sp) \<Longrightarrow>
   trim_ep buf cset (int sp) (int e - 1) =
     Some (int (sp + length (rev (dropWhile (strchr cset) (rev (drop sp (take e buf)))))) - 1)"
proof (induction e)
  case (Suc e)
  have d: "drop sp (take (Suc e) buf) = drop sp (take e buf) @ [buf ! e]"
    using Suc.prems by (simp add: take_Suc_conv_app_nth)
  show ?case
  proof (cases "sp = e")
    case True
    then show ?thesis using Suc.prems d by (subst trim_ep.simps) simp
  next
    case False
    then show ?thesis using Suc d by (subst trim_ep.simps) auto
  qed
qed simp

lemma rstrip_prefix: "rev (dropWhile P (rev xs)) = take (length (dropWhile P (rev xs))) xs"
  by (metis append_eq_conv_conj dropWhile_eq_drop length_rev rev_append rev_rev_ident takeWhile_dropWhile_id)

lemma sdstrim_ok:
  assumes "sds_ok s" and "sdslen s < 2 ^ 31"
  shows "\<exists>s'. sdstrim s cset = Some s' \<and> sds_ok s' \<and> sval s' = strip (strchr cset) (sval s)"
proof -
  define sp where "sp = length (takeWhile (strchr cset) (sval s))"
  define n where "n = length (strip (strchr cset) (sval s))"
  have len: "sdslen s \<le> length (s_buf s)" using assms(1) by (auto simp: sds_ok_def sdslen_def)
  have sp: "trim_sp (s_buf s) cset 0 (int (sdslen s) - 1) = Some (int sp)"
    using trim_sp_ok [of 0 "sdslen s" "s_buf s" cset] len by (simp add: sp_def sval_def)
  have dw: "dropWhile (strchr cset) (sval s) = drop sp (sval s)" by (simp add: sp_def dropWhile_eq_drop)
  have spl: "sp \<le> sdslen s"
    using length_takeWhile_le [of "strchr cset" "sval s"] sval_length [OF assms(1)] by (simp add: sp_def)
  have str: "strip (strchr cset) (sval s) = take n (drop sp (sval s))"
    unfolding n_def strip_def dw by (subst rstrip_prefix) simp
  have "n \<le> length (drop sp (sval s))" using arg_cong [OF str, of length] n_def by simp
  then have n: "sp + n \<le> sdslen s" using spl sval_length [OF assms(1)] by simp
  have "\<exists>ep. trim_ep (s_buf s) cset (int sp) (int (sdslen s) - 1) = Some ep \<and>
      (if ep < int sp then 0 else nat (ep - int sp + 1)) = n"
  proof (cases "sp = sdslen s")
    case True
    then show ?thesis using n by (subst trim_ep.simps) auto
  next
    case False
    then have lt: "sp < sdslen s" using spl by simp
    then have "\<not> strchr cset (sval s ! sp)"
      using nth_length_takeWhile [of "strchr cset" "sval s"] sval_length [OF assms(1)] by (simp add: sp_def)
    then have P: "\<not> strchr cset (s_buf s ! sp)" using lt len by (simp add: sval_def)
    have "drop sp (take (sdslen s) (s_buf s)) = dropWhile (strchr cset) (sval s)"
      unfolding dw by (simp add: sval_def)
    moreover have "drop sp (take (sdslen s) (s_buf s)) = s_buf s ! sp # drop (Suc sp) (take (sdslen s) (s_buf s))"
      using lt len by (metis Cons_nth_drop_Suc length_take min.absorb2 nth_take)
    then have "0 < n" using P dw by (auto simp: n_def strip_def sval_def)
    ultimately show ?thesis using trim_ep_ok [OF lt len P] by (simp add: n_def strip_def)
  qed
  then obtain ep where ep: "trim_ep (s_buf s) cset (int sp) (int (sdslen s) - 1) = Some ep"
    "(if ep < int sp then 0 else nat (ep - int sp + 1)) = n" by blast
  obtain b where b: "memmove (s_buf s) 0 sp n = Some b" "sp = 0 \<or> n = 0 \<Longrightarrow> b = s_buf s" "n < length b"
    "sds_ok (sdssetlen (s\<lparr>s_buf := b[n := 0]\<rparr>) n)"
    "sval (sdssetlen (s\<lparr>s_buf := b[n := 0]\<rparr>) n) = take n (drop sp (sval s))"
    using move_to_front [OF assms(1) n] by blast
  have "sdstrim s cset = Some (sdssetlen (s\<lparr>s_buf := b[n := 0]\<rparr>) n)"
    unfolding sdstrim_def Let_def sp ep(1) bind.bind_lunit ep(2)
    using b(1-3) by (cases "sp = 0") simp_all
  then show ?thesis using b(4,5) str by simp
qed

lemma c_int_id: "- (2 ^ 31) \<le> x \<Longrightarrow> x < 2 ^ 31 \<Longrightarrow> c_int x = x"
  by (simp add: c_int_def)

text \<open>The substring from \<open>i\<close> to \<open>j\<close>, both included, negative positions counted from the end.\<close>

definition from_end :: "int \<Rightarrow> int \<Rightarrow> int" where
  "from_end len i = (if i < 0 then max (len + i) 0 else i)"

definition substring :: "int \<Rightarrow> int \<Rightarrow> 'a list \<Rightarrow> 'a list" where
  "substring i j xs =
    (let len = int (length xs); i = from_end len i; j = min (from_end len j) (len - 1) in
     if j < i then [] else take (nat (j - i + 1)) (drop (nat i) xs))"

lemma sdsrange_ok:
  assumes "sds_ok s" and "sdslen s < 2 ^ 31" and "- (2 ^ 31) \<le> i" and "i < 2 ^ 31" and "- (2 ^ 31) \<le> j" and "j < 2 ^ 31 - 1"
  shows "\<exists>s'. sdsrange s i j = Some s' \<and> sds_ok s' \<and> sval s' = substring i j (sval s)"
proof (cases "sdslen s = 0")
  case True
  then show ?thesis using assms(1) by (simp add: sdsrange_def substring_def sval_def Let_def)
next
  case False
  define len where "len = int (sdslen s)"
  define a where "a = from_end len i"
  define e where "e = from_end len j"
  define b where "b = min e (len - 1)"
  define n where "n = (if b < a then 0 else nat (b - a + 1))"
  define sp where "sp = (if n = 0 then 0 else nat a)"
  have len: "0 < len" "len < 2 ^ 31" using False assms(2) by (simp_all add: len_def)
  have ab: "0 \<le> a" "a < 2 ^ 31" "0 \<le> e" "e < 2 ^ 31 - 1"
    using assms(3-6) len by (auto simp: a_def e_def from_end_def)
  have fe: "(if k < 0 then max (c_int (len + k)) 0 else k) = from_end len k" if "- (2 ^ 31) \<le> k" "k < 2 ^ 31" for k
    using that len c_int_id [of "len + k"] by (simp add: from_end_def)
  have feij: "(if i < 0 then max (c_int (len + i)) 0 else i) = a" "(if j < 0 then max (c_int (len + j)) 0 else j) = e"
    using fe [of i] fe [of j] assms(3-6) by (simp_all add: a_def e_def)
  have c: "c_int len = len" "c_int (len - 1) = len - 1" using len by (simp_all add: c_int_id)
  have rl: "range_len a x = Some (if x < a then 0 else nat (x - a + 1))" if "x < 2 ^ 31 - 1" for x
    using that ab(1) by (simp add: range_len_def)
  have n: "sp + n \<le> sdslen s"
    using ab len by (auto simp: sp_def n_def b_def len_def)
  have sub: "substring i j (sval s) = take n (drop sp (sval s))"
    using sval_length [OF assms(1)]
    by (simp add: substring_def Let_def n_def sp_def b_def a_def e_def len_def)
  obtain c where c': "memmove (s_buf s) 0 sp n = Some c" "sp = 0 \<or> n = 0 \<Longrightarrow> c = s_buf s" "n < length c"
    "sds_ok (sdssetlen (s\<lparr>s_buf := c[n := 0]\<rparr>) n)"
    "sval (sdssetlen (s\<lparr>s_buf := c[n := 0]\<rparr>) n) = take n (drop sp (sval s))"
    using move_to_front [OF assms(1) n] by blast
  have cut: "\<exists>st. (if (if e < a then 0 else nat (e - a + 1)) \<noteq> 0 then
            if len \<le> a then Some (a, 0)
            else if len \<le> e then do { newlen \<leftarrow> range_len a (len - 1); Some (a, newlen) }
            else Some (a, if e < a then 0 else nat (e - a + 1))
          else Some (0, if e < a then 0 else nat (e - a + 1))) = Some (st, n) \<and> (n \<noteq> 0 \<longrightarrow> st = a)"
    using ab len rl [of "len - 1"] by (auto simp: n_def b_def min_def)
  then obtain st where st: "(if (if e < a then 0 else nat (e - a + 1)) \<noteq> 0 then
            if len \<le> a then Some (a, 0)
            else if len \<le> e then do { newlen \<leftarrow> range_len a (len - 1); Some (a, newlen) }
            else Some (a, if e < a then 0 else nat (e - a + 1))
          else Some (0, if e < a then 0 else nat (e - a + 1))) = Some (st, n)" "n \<noteq> 0 \<Longrightarrow> st = a" by blast
  have mv: "(if st \<noteq> 0 \<and> n \<noteq> 0 then memmove (s_buf s) 0 (nat st) n else Some (s_buf s)) = Some c"
    using c'(1,2) st(2) ab(1) by (cases "n = 0") (auto simp: sp_def)
  have "sdsrange s i j = Some (sdssetlen (s\<lparr>s_buf := c[n := 0]\<rparr>) n)"
    unfolding sdsrange_def Let_def len_def [symmetric] feij c rl [OF ab(4)] bind.bind_lunit st(1) prod.case mv
    using len(1) c'(3) by simp
  then show ?thesis using c'(4,5) sub by simp
qed

lemma map_loop_ok:
  "j \<le> n \<Longrightarrow> n \<le> length buf \<Longrightarrow>
   map_loop f buf (int j) (int n) = Some (take j buf @ map f (drop j (take n buf)) @ drop n buf)"
proof (induction "n - j" arbitrary: j buf)
  case 0
  then show ?case by (subst map_loop.simps) simp
next
  case (Suc k)
  then have lt: "j < n" by simp
  let ?b = "buf[j := f (buf ! j)]"
  have IH: "map_loop f ?b (int (Suc j)) (int n) = Some (take (Suc j) ?b @ map f (drop (Suc j) (take n ?b)) @ drop n ?b)"
    using Suc lt by (intro Suc.hyps) auto
  have "take (Suc j) ?b = take j buf @ [f (buf ! j)]"
    using lt Suc.prems by (simp add: take_Suc_conv_app_nth)
  moreover have "drop (Suc j) (take n ?b) = drop (Suc j) (take n buf)" "drop n ?b = drop n buf"
    using lt by (simp_all add: drop_take)
  moreover have "drop j (take n buf) = buf ! j # drop (Suc j) (take n buf)"
    using lt Suc.prems by (metis Cons_nth_drop_Suc length_take min.absorb2 nth_take)
  ultimately show ?case
    using IH lt Suc.prems by (subst map_loop.simps) (simp add: add.commute)
qed

lemma sds_map:
  assumes "sds_ok s" and "n = sdslen s"
  shows "\<exists>b. map_loop f (s_buf s) 0 (int n) = Some b \<and> sds_ok (s\<lparr>s_buf := b\<rparr>) \<and> sval (s\<lparr>s_buf := b\<rparr>) = map f (sval s)"
proof -
  have l: "s_len s < length (s_buf s)" "s_len s < 2 ^ width (s_type s)" using assms(1) by (auto simp: sds_ok_def)
  let ?b = "map f (take (s_len s) (s_buf s)) @ drop (s_len s) (s_buf s)"
  have "map_loop f (s_buf s) 0 (int n) = Some ?b"
    using map_loop_ok [of 0 "sdslen s" "s_buf s" f] l assms(2) by (simp add: sdslen_def)
  moreover have "sds_ok (s\<lparr>s_buf := ?b\<rparr>)" "sval (s\<lparr>s_buf := ?b\<rparr>) = map f (sval s)"
    using assms(1) l by (auto simp: sds_ok_def sdsalloc_def sval_def sdslen_def nth_append min_def)
  ultimately show ?thesis by blast
qed

section \<open>Creation, reading in place, comparison\<close>

lemma sdsnewlen_ok:
  assumes "n \<le> length bs" and "n < 2 ^ 61"
  shows "yields mem (sdsnewlen mem (Some bs) n) (\<lambda>s. sval s = take n bs)"
proof -
  define t where "t = (if sdsReqType n = SDS_TYPE_5 \<and> n = 0 then SDS_TYPE_8 else sdsReqType n)"
  have w: "n < 2 ^ width t" using reqtype_width [of n] assms(2) by (auto simp: t_def)
  have room: "str_room (sdsHdrSize t) n = n + 1" using assms(2) by (intro room_ok) simp
  show ?thesis
  proof (cases "mem (sz (sdsHdrSize t + n + 1))")
    case None
    then show ?thesis by (auto simp: sdsnewlen_def Let_def t_def [symmetric] yields_def)
  next
    case (Some junk)
    define z where "z = map junk [0..<n + 1]"
    have z: "length z = n + 1" by (simp add: z_def)
    have zf: "map (if Some bs = None then (\<lambda>_. 0) else junk) [0..<n + 1] = z" by (simp add: z_def)
    have wr: "(if n \<noteq> 0 then do { bs \<leftarrow> rd_mem bs 0 n; wr_mem z 0 bs } else Some z) = Some (take n bs @ drop n z)"
      using assms(1) z by (auto simp: wr_mem_def)
    let ?b = "(take n bs @ drop n z)[n := 0]"
    let ?s = "\<lparr>s_type = t, s_len = n, s_alloc = (if t = SDS_TYPE_5 then 0 else n), s_buf = ?b\<rparr>"
    have b: "length ?b = n + 1" "take n ?b = take n bs" "?b ! n = 0" using assms(1) z by (simp_all add: min_def)
    have m: "n mod 2 ^ width t = n" using w by simp
    have "sdsnewlen mem (Some bs) n = Some (Some ?s)"
      unfolding sdsnewlen_def Let_def t_def [symmetric] Some option.case room m zf wr bind.bind_lunit
      using assms(1) z by simp
    moreover have "sds_ok ?s" "sval ?s = take n bs"
      using b w by (auto simp: sds_ok_def sdsalloc_def sval_def sdslen_def)
    ultimately show ?thesis by simp
  qed
qed

lemma strlen_ok: "0 \<notin> set xs \<Longrightarrow> strlen (xs @ 0 # ys) = Some (length xs)"
  by (simp add: strlen_def takeWhile_append)

text \<open>Bytes stored behind the end of a string with room for them become part of it by \<^verbatim>\<open>sdsIncrLen\<close>.\<close>

lemma sdsIncrLen_ok:
  assumes "sds_ok s" and "s_type s \<noteq> SDS_TYPE_5" and "sdslen s + length bs \<le> sdsalloc s" and "length bs < 2 ^ 31"
  defines "b \<equiv> take (sdslen s) (s_buf s) @ bs @ drop (sdslen s + length bs) (s_buf s)"
  shows "\<exists>s'. sdsIncrLen (s\<lparr>s_buf := b\<rparr>) (int (length bs)) = Some s' \<and> sds_ok s' \<and> sval s' = sval s @ bs"
proof -
  let ?n = "sdslen s + length bs"
  have l: "?n < length (s_buf s)" using assms(1,3) by (simp add: sds_ok_def)
  note c = write_terminated [OF l, folded b_def]
  have lb: "length b = length (s_buf s)" using l by (simp add: b_def)
  have w: "?n < 2 ^ width (s_type s)" using assms(1,3) by (simp add: sds_ok_def)
  have av: "sdsavail (s\<lparr>s_buf := b\<rparr>) = sdsavail s" by (simp add: sdsavail_def split: sds_type.split)
  have room: "int (length bs) \<le> int (s_alloc s) - int (s_len s)" "length bs \<le> sdsavail s"
    using assms(2,3) sdsavail_ok [OF assms(1)] by (simp_all add: sdslen_def sdsalloc_def)
  have "sdsIncrLen (s\<lparr>s_buf := b\<rparr>) (int (length bs)) = Some (sdssetlen (s\<lparr>s_buf := b[?n := 0]\<rparr>) ?n)"
    using assms(2,4) room av w l lb
    by (cases "s_type s") (simp_all add: sdsIncrLen_def sdssetlen_def sdslen_def nat_add_distrib)
  then show ?thesis
    using sds_set [OF assms(1,3) c(1,2)] c(3) by (simp add: sval_def)
qed

lemma memcmp_lexordp:
  "length as = length bs \<Longrightarrow>
   (memcmp as bs = 0 \<longleftrightarrow> as = bs) \<and> (memcmp as bs < 0 \<longleftrightarrow> ord_class.lexordp as bs)"
  by (induction as bs rule: list_induct2) (auto simp: word_less_def word_uint_eq_iff)

lemma lexordp_prefix_cases:
  fixes xs ys :: "'a :: linorder list"
  assumes "m = min (length xs) (length ys)"
  shows "ord_class.lexordp xs ys \<longleftrightarrow> ord_class.lexordp (take m xs) (take m ys) \<or> take m xs = take m ys \<and> length xs < length ys"
  using assms
proof (induction xs ys arbitrary: m rule: List.list_induct2')
  case (4 x xs y ys)
  then show ?case by (cases m) (auto simp: min_Suc_Suc)
qed (auto simp: ord_class.lexordp_simps)

lemma sdscmp_ok:
  assumes "sds_ok a" and "sds_ok b" and "\<bar>int (sdslen a) - int (sdslen b)\<bar> < 2 ^ 31"
  shows "\<exists>r. sdscmp a b = Some r \<and> (r = 0 \<longleftrightarrow> sval a = sval b) \<and> (r < 0 \<longleftrightarrow> ord_class.lexordp (sval a) (sval b))"
proof -
  define m where "m = min (sdslen a) (sdslen b)"
  have rd: "rd_mem (s_buf a) 0 m = Some (take m (sval a))" "rd_mem (s_buf b) 0 m = Some (take m (sval b))"
    using assms(1,2) by (auto simp: m_def sds_ok_def sval_def sdslen_def min_def)
  have l: "length (sval a) = sdslen a" "length (sval b) = sdslen b" using assms(1,2) by simp_all
  define c where "c = memcmp (take m (sval a)) (take m (sval b))"
  have c: "c = 0 \<longleftrightarrow> take m (sval a) = take m (sval b)" "c < 0 \<longleftrightarrow> ord_class.lexordp (take m (sval a)) (take m (sval b))"
    using memcmp_lexordp [of "take m (sval a)" "take m (sval b)"] l by (auto simp: c_def m_def)
  have r: "sdscmp a b = Some (if c = 0 then c_int (int (sdslen a) - int (sdslen b)) else c)"
    using rd by (simp add: sdscmp_def Let_def m_def [symmetric] c_def)
  have ci: "c_int (int (sdslen a) - int (sdslen b)) = int (sdslen a) - int (sdslen b)"
    using assms(3) by (intro c_int_id) auto
  have eq: "sval a = sval b \<longleftrightarrow> c = 0 \<and> sdslen a = sdslen b"
    using c(1) l by (auto simp: m_def)
  have lt: "ord_class.lexordp (sval a) (sval b) \<longleftrightarrow> c < 0 \<or> c = 0 \<and> sdslen a < sdslen b"
    using lexordp_prefix_cases [of m "sval a" "sval b"] c l by (simp add: m_def)
  show ?thesis using r ci eq lt by auto
qed

section \<open>Sequences of operations\<close>

datatype str_op =
    Cat "u8 list" | Cpy "u8 list" | GrowZero nat | Trim "u8 list" | Range int int
  | Clear | Lower | Upper | MapChars "u8 list" "u8 list" | Shrink | Room nat

definition in_place :: "sds option \<Rightarrow> sds option option" where
  "in_place r = map_option Some r"

fun sds_step :: "mem \<Rightarrow> sds \<Rightarrow> str_op \<Rightarrow> sds option option" where
  "sds_step mem s (Cat t) = sdscatlen mem s t (length t)"
| "sds_step mem s (Cpy t) = sdscpylen mem s t (length t)"
| "sds_step mem s (GrowZero n) = sdsgrowzero mem s n"
| "sds_step mem s (Trim cset) = in_place (sdstrim s cset)"
| "sds_step mem s (Range i j) = in_place (sdsrange s i j)"
| "sds_step mem s Clear = in_place (sdsclear s)"
| "sds_step mem s Lower = in_place (sdstolower s)"
| "sds_step mem s Upper = in_place (sdstoupper s)"
| "sds_step mem s (MapChars a b) = in_place (sdsmapchars s a b (length a))"
| "sds_step mem s Shrink = sdsRemoveFreeSpace mem s"
| "sds_step mem s (Room n) = sdsMakeRoomFor mem s n"

fun sds_run :: "mem \<Rightarrow> sds \<Rightarrow> str_op list \<Rightarrow> sds option option" where
  "sds_run mem s [] = Some (Some s)"
| "sds_run mem s (x # xs) =
    Option.bind (sds_step mem s x) (\<lambda>r. case r of None \<Rightarrow> Some None | Some s \<Rightarrow> sds_run mem s xs)"

fun str_step :: "u8 list \<Rightarrow> str_op \<Rightarrow> u8 list" where
  "str_step v (Cat t) = v @ t"
| "str_step v (Cpy t) = t"
| "str_step v (GrowZero n) = v @ replicate (n - length v) 0"
| "str_step v (Trim cset) = strip (\<lambda>c. c \<in> set cset) v"
| "str_step v (Range i j) = substring i j v"
| "str_step v Clear = []"
| "str_step v Lower = map tolower v"
| "str_step v Upper = map toupper v"
| "str_step v (MapChars a b) = map (\<lambda>c. case map_of (zip a b) c of None \<Rightarrow> c | Some d \<Rightarrow> d) v"
| "str_step v Shrink = v"
| "str_step v (Room n) = v"

text \<open>
  The arguments the operations are meant for, on strings below one gigabyte.  The end of a range is not
  INT_MAX, for which the length computation overflows.  The set of a trim is a C string, and no zero
  byte is left at the ends of the result: the code would remove it as well, although it is not in the
  set.
\<close>

fun args_ok :: "u8 list \<Rightarrow> str_op \<Rightarrow> bool" where
  "args_ok v (Range i j) \<longleftrightarrow> - (2 ^ 31) \<le> i \<and> i < 2 ^ 31 \<and> - (2 ^ 31) \<le> j \<and> j < 2 ^ 31 - 1"
| "args_ok v (Trim cset) \<longleftrightarrow> 0 \<notin> set cset \<and> (let w = strip (\<lambda>c. c \<in> set cset) v in w = [] \<or> hd w \<noteq> 0 \<and> last w \<noteq> 0)"
| "args_ok v (MapChars a b) \<longleftrightarrow> length a = length b"
| "args_ok v (GrowZero n) \<longleftrightarrow> n < 2 ^ 30"
| "args_ok v (Cat t) \<longleftrightarrow> length t < 2 ^ 30"
| "args_ok v (Cpy t) \<longleftrightarrow> length t < 2 ^ 30"
| "args_ok v (Room n) \<longleftrightarrow> n < 2 ^ 30"
| "args_ok v _ \<longleftrightarrow> True"

fun str_run :: "u8 list \<Rightarrow> str_op list \<Rightarrow> u8 list option" where
  "str_run v [] = Some v"
| "str_run v (x # xs) = (if length v < 2 ^ 30 \<and> args_ok v x then str_run (str_step v x) xs else None)"

text \<open>The code's test of a byte agrees with membership in the set when no zero byte is met.\<close>

lemma map_char_map_of: "map_char a b c = (case map_of (zip a b) c of None \<Rightarrow> c | Some d \<Rightarrow> d)"
  by (induction a b c rule: map_char.induct) auto

lemma dropWhile_stop:
  assumes "\<And>x. P x \<Longrightarrow> Q x" "dropWhile P xs = [] \<or> \<not> Q (hd (dropWhile P xs))"
  shows "dropWhile Q xs = dropWhile P xs"
  using assms(2) by (induction xs) (auto simp: assms(1))

lemma hd_strip: "strip P xs \<noteq> [] \<Longrightarrow> hd (strip P xs) = hd (dropWhile P xs)"
proof -
  assume ne: "strip P xs \<noteq> []"
  let ?y = "dropWhile P xs"
  have "?y = strip P xs @ rev (takeWhile P (rev ?y))"
    unfolding strip_def by (metis rev_append rev_rev_ident takeWhile_dropWhile_id)
  then show ?thesis using ne by (metis hd_append2)
qed

lemma strip_Nil: "strip P xs = [] \<longleftrightarrow> dropWhile P xs = []"
proof
  let ?y = "dropWhile P xs"
  assume "strip P xs = []"
  then have "dropWhile P (rev ?y) = []" by (simp only: strip_def rev_is_Nil_conv)
  then have "\<forall>x\<in>set ?y. P x" by (simp only: dropWhile_eq_Nil_conv set_rev)
  then show "?y = []" using hd_dropWhile [of P xs] hd_in_set [of ?y] by blast
qed (simp only: strip_def rev.simps dropWhile.simps)

lemma strip_strchr:
  assumes "0 \<notin> set cset" "strip (\<lambda>c. c \<in> set cset) v = [] \<or> hd (strip (\<lambda>c. c \<in> set cset) v) \<noteq> 0 \<and> last (strip (\<lambda>c. c \<in> set cset) v) \<noteq> 0"
  shows "strip (strchr cset) v = strip (\<lambda>c. c \<in> set cset) v"
proof -
  let ?P = "\<lambda>c. c \<in> set cset"
  have tw: "takeWhile (\<lambda>c. c \<noteq> 0) cset = cset" using assms(1) by auto
  have sc: "strchr cset c \<longleftrightarrow> c \<in> set cset \<or> c = 0" for c unfolding strchr_def tw ..
  have "dropWhile ?P v = [] \<or> \<not> strchr cset (hd (dropWhile ?P v))"
  proof (cases "dropWhile ?P v = []")
    case False
    then have "strip ?P v \<noteq> []" by (simp only: strip_Nil not_False_eq_True)
    then have "hd (dropWhile ?P v) \<noteq> 0" using assms(2) hd_strip [of ?P v] by simp
    then show ?thesis using hd_dropWhile [OF False] by (simp add: sc)
  qed (rule disjI1)
  then have front: "dropWhile (strchr cset) v = dropWhile ?P v" by (rule dropWhile_stop [rotated]) (simp add: sc)
  let ?y = "rev (dropWhile ?P v)"
  have "dropWhile ?P ?y = [] \<or> \<not> strchr cset (hd (dropWhile ?P ?y))"
  proof (cases "dropWhile ?P ?y = []")
    case False
    then have "hd (dropWhile ?P ?y) = last (strip ?P v)" "strip ?P v \<noteq> []"
      by (simp_all only: strip_def last_rev rev_is_Nil_conv not_False_eq_True)
    then show ?thesis using assms(2) hd_dropWhile [OF False] by (simp add: sc)
  qed (rule disjI1)
  then have "dropWhile (strchr cset) ?y = dropWhile ?P ?y" by (rule dropWhile_stop [rotated]) (simp add: sc)
  then show ?thesis by (simp only: strip_def front)
qed

lemma in_place_yields: "\<exists>s'. r = Some s' \<and> sds_ok s' \<and> P s' \<Longrightarrow> yields mem (in_place r) P"
  by (auto simp: in_place_def)

lemma sds_step_ok:
  assumes "sds_ok s" and "length (sval s) < 2 ^ 30" and "args_ok (sval s) x"
  shows "yields mem (sds_step mem s x) (\<lambda>s'. sval s' = str_step (sval s) x)"
proof -
  have len: "sdslen s < 2 ^ 30" using assms(1,2) by simp
  then have ci: "c_int (int (sdslen s)) = int (sdslen s)" by (intro c_int_id) auto
  show ?thesis
  proof (cases x)
    case (Cat t)
    then show ?thesis using sdscatlen_ok [of s "length t" t mem] assms len by simp
  next
    case (Cpy t)
    then show ?thesis using sdscpylen_ok [of s "length t" t mem] assms by simp
  next
    case (GrowZero n)
    then show ?thesis using sdsgrowzero_ok [of s n mem] assms by simp
  next
    case (Trim cset)
    then have "strip (strchr cset) (sval s) = strip (\<lambda>c. c \<in> set cset) (sval s)"
      using assms(3) by (intro strip_strchr) (auto simp: Let_def)
    then show ?thesis using Trim sdstrim_ok [of s cset] assms len by (simp add: in_place_yields)
  next
    case (Range i j)
    then show ?thesis using sdsrange_ok [of s i j] assms len by (simp add: in_place_yields)
  next
    case Clear
    then show ?thesis using sdsclear_ok [of s] assms by (simp add: in_place_yields)
  next
    case Lower
    obtain b where "map_loop tolower (s_buf s) 0 (int (sdslen s)) = Some b" "sds_ok (s\<lparr>s_buf := b\<rparr>)"
      "sval (s\<lparr>s_buf := b\<rparr>) = map tolower (sval s)" using sds_map [OF assms(1) refl] by blast
    then show ?thesis using Lower ci by (simp add: sdstolower_def in_place_def)
  next
    case Upper
    obtain b where "map_loop toupper (s_buf s) 0 (int (sdslen s)) = Some b" "sds_ok (s\<lparr>s_buf := b\<rparr>)"
      "sval (s\<lparr>s_buf := b\<rparr>) = map toupper (sval s)" using sds_map [OF assms(1) refl] by blast
    then show ?thesis using Upper ci by (simp add: sdstoupper_def in_place_def)
  next
    case (MapChars p q)
    obtain b where "map_loop (map_char p q) (s_buf s) 0 (int (sdslen s)) = Some b" "sds_ok (s\<lparr>s_buf := b\<rparr>)"
      "sval (s\<lparr>s_buf := b\<rparr>) = map (map_char p q) (sval s)" using sds_map [OF assms(1) refl] by blast
    then show ?thesis using MapChars assms(3) by (simp add: sdsmapchars_def in_place_def map_char_map_of)
  next
    case Shrink
    then show ?thesis using sdsRemoveFreeSpace_ok [of s mem] assms len by (auto elim!: yields_mono)
  next
    case (Room n)
    then show ?thesis using sdsMakeRoomFor_ok [of s n mem] assms len by (auto elim!: yields_mono)
  qed
qed

lemma sds_run_ok:
  "sds_ok s \<Longrightarrow> str_run (sval s) xs = Some v \<Longrightarrow> yields mem (sds_run mem s xs) (\<lambda>s'. sval s' = v)"
proof (induction xs arbitrary: s)
  case (Cons x xs)
  then have "length (sval s) < 2 ^ 30" "args_ok (sval s) x" and rest: "str_run (str_step (sval s) x) xs = Some v"
    by (simp_all split: if_splits)
  from sds_step_ok [OF Cons.prems(1) this(1,2)]
  have "yields mem (sds_step mem s x) (\<lambda>s'. sval s' = str_step (sval s) x)" .
  then show ?case
    unfolding sds_run.simps by (rule yields_bind) (use Cons.IH rest in simp)
qed simp

text \<open>
  C14. A string is created and a sequence of operations is applied.  As long as it stays below one
  gigabyte, nothing is read or written outside its allocation; either an allocation failed and the
  result is NULL, or it is a string whose header, terminator and capacity are consistent and whose bytes
  are those the operations give on a plain byte list.  Two kinds of call are left out: a range whose end
  is INT_MAX, which overflows, and a trim that would leave a zero byte at an end, which the code removes
  although its description keeps it.
\<close>

theorem sds_refines_bytes:
  assumes "length init < 2 ^ 30" and "str_run init xs = Some v"
  shows "yields mem (do {
      r \<leftarrow> sdsnewlen mem (Some init) (length init);
      case r of None \<Rightarrow> Some None | Some s \<Rightarrow> sds_run mem s xs
    }) (\<lambda>s. sval s = v)"
proof (rule yields_bind)
  show "yields mem (sdsnewlen mem (Some init) (length init)) (\<lambda>s. sval s = init)"
    using sdsnewlen_ok [of "length init" init mem] assms(1) by simp
qed (use sds_run_ok assms(2) in blast)

lemma demo_run: "str_run [1, 2, 3] [Cat [4, 5], Range 1 (-2), MapChars [4] [2], Trim [2], GrowZero 2] = Some [3, 0]"
  by (simp add: substring_def from_end_def strip_def numeral_3_eq_3)

theorem sds_refines_bytes_witness:
  "yields (\<lambda>n. Some (\<lambda>i. 7)) (do {
      r \<leftarrow> sdsnewlen (\<lambda>n. Some (\<lambda>i. 7)) (Some [1, 2, 3]) (length [1, 2, 3 :: u8]);
      case r of None \<Rightarrow> Some None | Some s \<Rightarrow> sds_run (\<lambda>n. Some (\<lambda>i. 7)) s [Cat [4, 5], Range 1 (-2), MapChars [4] [2], Trim [2], GrowZero 2]
    }) (\<lambda>s. sval s = [3, 0])"
  by (rule sds_refines_bytes [OF _ demo_run]) simp

text \<open>
  C24. \<^verbatim>\<open>sdscmp\<close> orders strings as byte sequences, lexicographically with a proper prefix first, when
  the lengths differ by less than two gigabytes.
\<close>

theorem sdscmp_lexicographic:
  assumes "sds_ok a" and "sds_ok b" and "\<bar>int (sdslen a) - int (sdslen b)\<bar> < 2 ^ 31"
  shows "\<exists>r. sdscmp a b = Some r \<and> (r = 0 \<longleftrightarrow> sval a = sval b) \<and> (r < 0 \<longleftrightarrow> ord_class.lexordp (sval a) (sval b))"
  using assms by (rule sdscmp_ok)

theorem sdscmp_lexicographic_witness:
  "\<exists>r. sdscmp \<lparr>s_type = SDS_TYPE_8, s_len = 1, s_alloc = 1, s_buf = [5, 0]\<rparr>
       \<lparr>s_type = SDS_TYPE_5, s_len = 2, s_alloc = 0, s_buf = [5, 6, 0]\<rparr> = Some r \<and> r < 0"
  using sdscmp_lexicographic [of "\<lparr>s_type = SDS_TYPE_8, s_len = 1, s_alloc = 1, s_buf = [5, 0]\<rparr>"
    "\<lparr>s_type = SDS_TYPE_5, s_len = 2, s_alloc = 0, s_buf = [5, 6, 0]\<rparr>"]
  by (auto simp: sds_ok_def sdsalloc_def sdslen_def sval_def)

end
