(* ===== verification/Sds_Text.thy ===== *)
theory Sds_Text
  imports Sds_Correct Util_Num
begin

text \<open>
  The text utilities of \<^verbatim>\<open>redis/redis/src/sds.c\<close>: integer printing, formatted appending, splitting by
  a separator, joining, quoting, and the argument splitter that reads quoted strings back.

  What \<^verbatim>\<open>vsnprintf\<close> renders is an argument of the formatted append.  An operation applied to a
  \<^verbatim>\<open>NULL\<close> string is \<^term>\<open>None\<close>; the results are stated for an allocator that does not
  run out of memory, as the one the server uses, which aborts instead.
\<close>

section \<open>Integer printing\<close>

definition SDS_LLSTR_SIZE :: nat where "SDS_LLSTR_SIZE = 21"

function digit_loop :: "u8 list \<Rightarrow> nat \<Rightarrow> int \<Rightarrow> (u8 list \<times> nat) option" where
  "digit_loop s p v = do {
     s \<leftarrow> upd_opt s p (48 + word_of_int (v mod 10));
     if 0 < v div 10 then digit_loop s (p + 1) (v div 10) else Some (s, p + 1)
   }"
  by pat_completeness auto
termination by (relation "measure (\<lambda>(s, p, v). nat v)") auto

function reverse_loop :: "u8 list \<Rightarrow> int \<Rightarrow> int \<Rightarrow> u8 list option" where
  "reverse_loop buf s p =
    (if s < p then do {
       aux \<leftarrow> nth_opt buf (nat s);
       b \<leftarrow> nth_opt buf (nat p);
       buf \<leftarrow> upd_opt buf (nat s) b;
       buf \<leftarrow> upd_opt buf (nat p) aux;
       reverse_loop buf (s + 1) (p - 1)
     } else Some buf)"
  by pat_completeness auto
termination by (relation "measure (\<lambda>(buf, s, p). nat (p - s))") auto

declare digit_loop.simps [simp del] reverse_loop.simps [simp del]

text \<open>Negating the least value overflows.\<close>

definition sdsll2str :: "u8 list \<Rightarrow> int \<Rightarrow> (u8 list \<times> nat) option" where
  "sdsll2str s value = do {
     assert_opt (value \<noteq> LLONG_MIN);
     (s, p) \<leftarrow> digit_loop s 0 (if value < 0 then - value else value);
     (s, p) \<leftarrow> (if value < 0 then do { s \<leftarrow> upd_opt s p 45; Some (s, p + 1) } else Some (s, p));
     s \<leftarrow> upd_opt s p 0;
     s \<leftarrow> reverse_loop s 0 (int p - 1);
     Some (s, p)
   }"

definition sdsull2str :: "u8 list \<Rightarrow> int \<Rightarrow> (u8 list \<times> nat) option" where
  "sdsull2str s v = do {
     (s, p) \<leftarrow> digit_loop s 0 v;
     s \<leftarrow> upd_opt s p 0;
     s \<leftarrow> reverse_loop s 0 (int p - 1);
     Some (s, p)
   }"

definition sdsfromlonglong :: "mem \<Rightarrow> u8 list \<Rightarrow> int \<Rightarrow> sds option option" where
  "sdsfromlonglong mem buf value = do {
     (buf, len) \<leftarrow> sdsll2str buf value;
     sdsnewlen mem (Some buf) len
   }"

section \<open>Formatted appending\<close>

text \<open>\<^verbatim>\<open>vsnprintf\<close> stores what fits of the rendered bytes and a zero byte.\<close>

definition vsnprintf :: "u8 list \<Rightarrow> u8 list \<Rightarrow> u8 list" where
  "vsnprintf buf out = (let t = take (length buf - 1) out in t @ 0 # drop (length t + 1) buf)"

partial_function (option) vprintf_loop :: "mem \<Rightarrow> u8 list \<Rightarrow> u8 list \<Rightarrow> u8 list option option" where
  "vprintf_loop mem buf out =
    Option.bind (upd_opt buf (length buf - 2) 0) (\<lambda>buf.
    let buf = vsnprintf buf out in
    Option.bind (nth_opt buf (length buf - 2)) (\<lambda>c.
    if c \<noteq> 0 then
      (case mem (sz (length buf * 2)) of
         None \<Rightarrow> Some None
       | Some junk \<Rightarrow> vprintf_loop mem (map junk [0..<sz (length buf * 2)]) out)
    else Some (Some buf)))"

declare vprintf_loop.simps [code]

text \<open>\<open>fmtlen\<close> is the length of the format and \<open>staticbuf\<close> the 1024 bytes on the stack.\<close>

definition sdscatvprintf :: "mem \<Rightarrow> u8 list \<Rightarrow> sds \<Rightarrow> nat \<Rightarrow> u8 list \<Rightarrow> sds option option" where
  "sdscatvprintf mem staticbuf s fmtlen out = do {
     let buflen = sz (fmtlen * 2);
     case (if length staticbuf < buflen then map_option (\<lambda>junk. map junk [0..<buflen]) (mem buflen) else Some staticbuf) of
       None \<Rightarrow> Some None
     | Some buf \<Rightarrow> do {
         r \<leftarrow> vprintf_loop mem buf out;
         case r of None \<Rightarrow> Some None | Some buf \<Rightarrow> sdscat mem s buf
       }
   }"

section \<open>Splitting and joining\<close>

text \<open>The array of tokens has \<open>slots\<close> places; storing past them is \<^term>\<open>None\<close>.\<close>

definition add_token :: "mem \<Rightarrow> sds list \<Rightarrow> nat \<Rightarrow> u8 list \<Rightarrow> nat \<Rightarrow> sds list option option" where
  "add_token mem tokens slots p n = do {
     assert_opt (length tokens < slots);
     r \<leftarrow> sdsnewlen mem (Some p) n;
     case r of None \<Rightarrow> Some None | Some t \<Rightarrow> Some (Some (tokens @ [t]))
   }"

function split_loop ::
  "mem \<Rightarrow> u8 list \<Rightarrow> nat \<Rightarrow> u8 list \<Rightarrow> nat \<Rightarrow> nat \<Rightarrow> nat \<Rightarrow> sds list \<Rightarrow> (sds list \<times> nat \<times> nat) option option" where
  "split_loop mem s len sep j start slots tokens =
    (if sep \<noteq> [] \<and> j + length sep \<le> len then
       let grow = slots < length tokens + 2; slots = (if grow then slots * 2 else slots) in
       if grow \<and> mem (8 * slots) = None then Some None
       else do {
         bs \<leftarrow> rd_mem s j (length sep);
         if bs = sep then do {
           r \<leftarrow> add_token mem tokens slots (drop start s) (j - start);
           case r of
             None \<Rightarrow> Some None
           | Some tokens \<Rightarrow> split_loop mem s len sep (j + length sep) (j + length sep) slots tokens
         }
         else split_loop mem s len sep (j + 1) start slots tokens
       }
     else Some (Some (tokens, start, slots)))"
  by pat_completeness auto
termination by (relation "measure (\<lambda>(mem, s, len, sep, j, start, slots, tokens). len + 1 - j)") (auto simp: neq_Nil_conv)

declare split_loop.simps [simp del]

text \<open>The lengths are those of the buffers; the separator is not empty here, as the code returns NULL then.\<close>

definition sdssplitlen :: "mem \<Rightarrow> u8 list \<Rightarrow> nat \<Rightarrow> u8 list \<Rightarrow> sds list option option" where
  "sdssplitlen mem s len sep =
    (if length sep < 1 then Some None
     else if mem (8 * 5) = None then Some None
     else if len = 0 then Some (Some [])
     else do {
       r \<leftarrow> split_loop mem s len sep 0 0 5 [];
       case r of
         None \<Rightarrow> Some None
       | Some (tokens, start, slots) \<Rightarrow> add_token mem tokens slots (drop start s) (len - start)
     })"

text \<open>A NULL string cannot be appended to.\<close>

definition must :: "sds option option \<Rightarrow> sds option" where
  "must r = Option.bind r id"

fun join_loop :: "mem \<Rightarrow> sds \<Rightarrow> sds list \<Rightarrow> u8 list \<Rightarrow> sds option" where
  "join_loop mem join [] sep = Some join"
| "join_loop mem join (a # argv) sep = do {
     join \<leftarrow> must (sdscatsds mem join a);
     join \<leftarrow> (if argv \<noteq> [] then must (sdscatlen mem join sep (length sep)) else Some join);
     join_loop mem join argv sep
   }"

definition sdsjoinsds :: "mem \<Rightarrow> sds list \<Rightarrow> u8 list \<Rightarrow> sds option" where
  "sdsjoinsds mem argv sep = do { join \<leftarrow> must (sdsempty mem); join_loop mem join argv sep }"

section \<open>Quoting\<close>

definition isprint :: "u8 \<Rightarrow> bool" where
  "isprint c \<longleftrightarrow> 32 \<le> c \<and> c \<le> 126"

definition hex_char :: "u8 \<Rightarrow> u8" where
  "hex_char n = (if n < 10 then 48 + n else 87 + n)"

definition repr_byte :: "mem \<Rightarrow> u8 list \<Rightarrow> sds \<Rightarrow> u8 \<Rightarrow> sds option option" where
  "repr_byte mem staticbuf s c =
    (if c = 92 \<or> c = 34 then sdscatvprintf mem staticbuf s 3 [92, c]
     else if c = 10 then sdscatlen mem s [92, 110] 2
     else if c = 13 then sdscatlen mem s [92, 114] 2
     else if c = 9 then sdscatlen mem s [92, 116] 2
     else if c = 7 then sdscatlen mem s [92, 97] 2
     else if c = 8 then sdscatlen mem s [92, 98] 2
     else if isprint c then sdscatvprintf mem staticbuf s 2 [c]
     else sdscatvprintf mem staticbuf s 6 [92, 120, hex_char (c div 16), hex_char (c mod 16)])"

fun repr_loop :: "mem \<Rightarrow> u8 list \<Rightarrow> sds \<Rightarrow> u8 list \<Rightarrow> sds option" where
  "repr_loop mem staticbuf s [] = Some s"
| "repr_loop mem staticbuf s (c # p) = do {
     s \<leftarrow> must (repr_byte mem staticbuf s c);
     repr_loop mem staticbuf s p
   }"

definition sdscatrepr :: "mem \<Rightarrow> u8 list \<Rightarrow> sds \<Rightarrow> u8 list \<Rightarrow> nat \<Rightarrow> sds option option" where
  "sdscatrepr mem staticbuf s p len = do {
     p \<leftarrow> rd_mem p 0 len;
     s \<leftarrow> must (sdscatlen mem s [34] 1);
     s \<leftarrow> repr_loop mem staticbuf s p;
     sdscatlen mem s [34] 1
   }"

section \<open>Splitting a line into arguments\<close>

definition is_hex_digit :: "u8 \<Rightarrow> bool" where
  "is_hex_digit c \<longleftrightarrow> 48 \<le> c \<and> c \<le> 57 \<or> 97 \<le> c \<and> c \<le> 102 \<or> 65 \<le> c \<and> c \<le> 70"

definition hex_digit_to_int :: "u8 \<Rightarrow> u8" where
  "hex_digit_to_int c =
    (if 48 \<le> c \<and> c \<le> 57 then c - 48
     else if 97 \<le> c \<and> c \<le> 102 then c - 87
     else if 65 \<le> c \<and> c \<le> 70 then c - 55
     else 0)"

definition isspace :: "u8 \<Rightarrow> bool" where
  "isspace c \<longleftrightarrow> c = 32 \<or> 9 \<le> c \<and> c \<le> 13"

datatype quote = Plain | InQ | InSq

text \<open>Does the pointer stand at an escape of the form \<^verbatim>\<open>\xHH\<close>?\<close>

definition at_hex :: "u8 list \<Rightarrow> bool option" where
  "at_hex p = do {
     c0 \<leftarrow> nth_opt p 0;
     if c0 \<noteq> 92 then Some False else do {
       c1 \<leftarrow> nth_opt p 1;
       if c1 \<noteq> 120 then Some False else do {
         c2 \<leftarrow> nth_opt p 2;
         if \<not> is_hex_digit c2 then Some False else do {
           c3 \<leftarrow> nth_opt p 3;
           Some (is_hex_digit c3) }}}
   }"

definition unescape :: "u8 \<Rightarrow> u8" where
  "unescape c =
    (if c = 110 then 10 else if c = 114 then 13 else if c = 116 then 9
     else if c = 98 then 8 else if c = 97 then 7 else c)"

text \<open>May a closing quote stand here: is it followed by a space or the end?\<close>

definition closes :: "u8 list \<Rightarrow> bool option" where
  "closes p = do { c \<leftarrow> nth_opt p 1; Some (c = 0 \<or> isspace c) }"

text \<open>
  The loop over one token.  The result is the token with the pointer behind it, or None where the code
  jumps to its error exit.
\<close>

function token_loop :: "mem \<Rightarrow> quote \<Rightarrow> u8 list \<Rightarrow> sds \<Rightarrow> (sds \<times> u8 list) option option" where
  "token_loop mem mode p current = (case p of [] \<Rightarrow> None | c # q \<Rightarrow>
    (case mode of
       InQ \<Rightarrow> do {
         hex \<leftarrow> at_hex p;
         c1 \<leftarrow> (if c = 92 then nth_opt p 1 else Some 0);
         if hex then do {
           current \<leftarrow> must (sdscatlen mem current [hex_digit_to_int (p ! 2) * 16 + hex_digit_to_int (p ! 3)] 1);
           token_loop mem InQ (drop 4 p) current
         }
         else if c = 92 \<and> c1 \<noteq> 0 then do {
           current \<leftarrow> must (sdscatlen mem current [unescape c1] 1);
           token_loop mem InQ (drop 2 p) current
         }
         else if c = 34 then do { ok \<leftarrow> closes p; Some (if ok then Some (current, q) else None) }
         else if c = 0 then Some None
         else do {
           current \<leftarrow> must (sdscatlen mem current p 1);
           token_loop mem InQ q current
         }
       }
     | InSq \<Rightarrow> do {
         c1 \<leftarrow> (if c = 92 then nth_opt p 1 else Some 0);
         if c = 92 \<and> c1 = 39 then do {
           current \<leftarrow> must (sdscatlen mem current [39] 1);
           token_loop mem InSq (drop 2 p) current
         }
         else if c = 39 then do { ok \<leftarrow> closes p; Some (if ok then Some (current, q) else None) }
         else if c = 0 then Some None
         else do {
           current \<leftarrow> must (sdscatlen mem current p 1);
           token_loop mem InSq q current
         }
       }
     | Plain \<Rightarrow>
         if c = 0 then Some (Some (current, p))
         else if c = 32 \<or> c = 10 \<or> c = 13 \<or> c = 9 then Some (Some (current, q))
         else if c = 34 then token_loop mem InQ q current
         else if c = 39 then token_loop mem InSq q current
         else do {
           current \<leftarrow> must (sdscatlen mem current p 1);
           token_loop mem Plain q current
         }))"
  by pat_completeness auto
termination by (relation "measure (\<lambda>(mem, mode, p, current). length p)") auto

declare token_loop.simps [simp del]

partial_function (option) args_loop :: "mem \<Rightarrow> u8 list \<Rightarrow> sds list \<Rightarrow> sds list option option" where
  "args_loop mem p vector =
    (let p = dropWhile (\<lambda>c. c \<noteq> 0 \<and> isspace c) p in
     Option.bind (nth_opt p 0) (\<lambda>c.
     if c \<noteq> 0 then
       Option.bind (must (sdsempty mem)) (\<lambda>current.
       Option.bind (token_loop mem Plain p current) (\<lambda>r.
       case r of
         None \<Rightarrow> Some None
       | Some (current, p) \<Rightarrow> args_loop mem p (vector @ [current])))
     else Some (Some vector)))"

declare args_loop.simps [code]

definition sdssplitargs :: "mem \<Rightarrow> u8 list \<Rightarrow> sds list option option" where
  "sdssplitargs mem line = args_loop mem line []"

end
