(* ===== verification/Sds_Text_Correct.thy ===== *)
theory Sds_Text_Correct
  imports Sds_Text
begin

text \<open>
  Correctness of the text utilities of \<open>Sds_Text\<close>: printing against decimal numerals, splitting
  and joining as inverses, and the round trip of quoting through the argument splitter.
\<close>

section \<open>Integer printing\<close>

lemma upd_opt_append [simp]: "upd_opt (xs @ y # ys) (length xs) v = Some (xs @ v # ys)"
  by (simp add: upd_opt_def)

lemma nth_opt_append [simp]: "nth_opt (xs @ y # ys) (length xs) = Some y"
  by (simp add: nth_opt_def)

lemma digit_loop_ok:
  "0 \<le> v \<Longrightarrow> length (dec v) \<le> length post \<Longrightarrow>
   digit_loop (pre @ post) (length pre) v =
     Some (pre @ rev (dec v) @ drop (length (dec v)) post, length pre + length (dec v))"
proof (induction v arbitrary: pre post rule: dec.induct)
  case (1 v)
  obtain y ys where post: "post = y # ys"
    using 1(3) dec_digits [OF 1(2)] by (cases post) auto
  show ?case
  proof (cases "v < 10")
    case True
    then have "v div 10 = 0" "v mod 10 = v" using 1(2) by auto
    then show ?thesis using True post by (subst digit_loop.simps) (simp add: dec_less_10)
  next
    case False
    let ?d = "48 + word_of_int (v mod 10) :: u8"
    have IH: "digit_loop ((pre @ [?d]) @ ys) (length (pre @ [?d])) (v div 10) =
      Some ((pre @ [?d]) @ rev (dec (v div 10)) @ drop (length (dec (v div 10))) ys, length (pre @ [?d]) + length (dec (v div 10)))"
      using 1 False post by (intro "1.IH") (auto simp: dec_ge_10)
    have "0 < v div 10" using False by auto
    then show ?thesis using IH False post by (subst digit_loop.simps) (simp add: dec_ge_10)
  qed
qed

lemma reverse_loop_ok:
  "reverse_loop (pre @ mid @ post) (int (length pre)) (int (length pre + length mid) - 1) = Some (pre @ rev mid @ post)"
proof (induction "length mid" arbitrary: pre mid post rule: less_induct)
  case less
  show ?case
  proof (cases "length mid \<le> 1")
    case True
    then have "rev mid = mid" by (cases mid) auto
    then show ?thesis using True by (subst reverse_loop.simps) simp
  next
    case False
    then obtain a m b where mid: "mid = a # m @ [b]"
      by (metis (no_types, opaque_lifting) append_butlast_last_id le_numeral_extra(4) length_0_conv length_Suc_conv
        list.size(3) nat_le_linear neq_Nil_conv One_nat_def zero_le)
    have IH: "reverse_loop ((pre @ [b]) @ m @ (a # post)) (int (length (pre @ [b]))) (int (length (pre @ [b]) + length m) - 1) =
      Some ((pre @ [b]) @ rev m @ (a # post))" using mid by (intro less.hyps) simp
    have p: "nat (int (length pre + length mid) - 1) = length (pre @ x # m)" for x using mid by simp
    have f: "nth_opt (pre @ mid @ post) (length pre) = Some a"
      "nth_opt (pre @ mid @ post) (length (pre @ a # m)) = Some b"
      "upd_opt (pre @ mid @ post) (length pre) b = Some ((pre @ b # m) @ b # post)"
      "upd_opt ((pre @ b # m) @ b # post) (length (pre @ b # m)) a = Some ((pre @ b # m) @ a # post)"
      using mid nth_opt_append [of "pre @ a # m" b post] upd_opt_append [of "pre @ b # m" b post a] by simp_all
    have "int (length pre) < int (length pre + length mid) - 1" using mid by simp
    then show ?thesis
      unfolding reverse_loop.simps [of "pre @ mid @ post"] p [of a] nat_int f(1,2) bind.bind_lunit f(3)
      unfolding p [of b, simplified] using IH mid f(4) p [of b] by (simp add: algebra_simps)
  qed
qed

lemma reverse_front: "reverse_loop (mid @ post) 0 (int (length mid) - 1) = Some (rev mid @ post)"
  using reverse_loop_ok [of "[]" mid post] by simp

lemma terminate_reverse:
  assumes "length mid < length buf"
  shows "do { s \<leftarrow> upd_opt (mid @ drop (length mid) buf) (length mid) 0;
              s \<leftarrow> reverse_loop s 0 (int (length mid) - 1); Some (s, length mid) } =
    Some (rev mid @ 0 # drop (Suc (length mid)) buf, length mid)"
proof -
  have "drop (length mid) buf = buf ! length mid # drop (Suc (length mid)) buf"
    using assms by (simp add: Cons_nth_drop_Suc)
  then show ?thesis using reverse_front by simp
qed

lemma sdsull2str_ok:
  assumes "0 \<le> v" and "v \<le> ULLONG_MAX" and "SDS_LLSTR_SIZE \<le> length buf"
  shows "sdsull2str buf v = Some (dec v @ 0 # drop (Suc (length (dec v))) buf, length (dec v))"
proof -
  have l: "length (dec v) \<le> 20" using length_dec_le [of v 19] assms(2) by (simp add: ULLONG_MAX_def)
  then have "digit_loop buf 0 v = Some (rev (dec v) @ drop (length (dec v)) buf, length (dec v))"
    using digit_loop_ok [of v buf "[]"] assms by (simp add: SDS_LLSTR_SIZE_def)
  then show ?thesis
    using terminate_reverse [of "rev (dec v)" buf] l assms(3) by (simp add: sdsull2str_def SDS_LLSTR_SIZE_def)
qed

lemma sdsll2str_ok:
  assumes "LLONG_MIN < v" and "v \<le> LLONG_MAX" and "SDS_LLSTR_SIZE \<le> length buf"
  shows "sdsll2str buf v = Some (numeral_of v @ 0 # drop (Suc (length (numeral_of v))) buf, length (numeral_of v))"
proof -
  define w where "w = (if v < 0 then - v else v)"
  have w: "0 \<le> w" "w \<le> LLONG_MAX" using assms by (auto simp: w_def LLONG_MIN_def LLONG_MAX_def)
  have l: "length (dec w) \<le> 19" using length_dec_le [of w 18] w(2) by (simp add: LLONG_MAX_def)
  have d: "digit_loop buf 0 w = Some (rev (dec w) @ drop (length (dec w)) buf, length (dec w))"
    using digit_loop_ok [of w buf "[]"] assms(3) w l by (simp add: SDS_LLSTR_SIZE_def)
  have n: "rev (numeral_of v) = (if v < 0 then rev (dec w) @ [45] else rev (dec w))"
    by (simp add: numeral_of_def w_def)
  have nl: "length (numeral_of v) = (if v < 0 then Suc (length (dec w)) else length (dec w))"
    by (simp add: numeral_of_def w_def)
  have sgn: "(if v < 0 then do { s \<leftarrow> upd_opt (rev (dec w) @ drop (length (dec w)) buf) (length (dec w)) 45; Some (s, length (dec w) + 1) }
      else Some (rev (dec w) @ drop (length (dec w)) buf, length (dec w))) =
    Some (rev (numeral_of v) @ drop (length (numeral_of v)) buf, length (numeral_of v))"
  proof -
    have "drop (length (dec w)) buf = buf ! length (dec w) # drop (Suc (length (dec w))) buf"
      using l assms(3) by (simp add: Cons_nth_drop_Suc SDS_LLSTR_SIZE_def)
    then show ?thesis
      using upd_opt_append [of "rev (dec w)" "buf ! length (dec w)" "drop (Suc (length (dec w))) buf" 45]
      by (cases "v < 0") (simp_all add: n nl)
  qed
  have "length (rev (numeral_of v)) < length buf" using l assms(3) by (auto simp: numeral_of_def w_def SDS_LLSTR_SIZE_def)
  from terminate_reverse [OF this] show ?thesis
    unfolding sdsll2str_def w_def [symmetric] d bind.bind_lunit prod.case sgn
    using assms(1) by (simp add: LLONG_MIN_def)
qed

section \<open>An allocator that does not fail\<close>

definition mem_total :: "mem \<Rightarrow> bool" where
  "mem_total mem \<longleftrightarrow> (\<forall>n. mem n \<noteq> None)"

lemma yields_total: "mem_total mem \<Longrightarrow> yields mem r P \<Longrightarrow> \<exists>s. r = Some (Some s) \<and> sds_ok s \<and> P s"
  unfolding yields_def mem_total_def by (cases r; cases "the r") (simp_all del: not_None_eq)

lemma must_Some [simp]: "must (Some (Some s)) = Some s"
  by (simp add: must_def)

lemma sdscatlen_must:
  assumes "mem_total mem" and "sds_ok s" and "len \<le> length t" and "sdslen s + len < 2 ^ 62"
  shows "\<exists>s'. sdscatlen mem s t len = Some (Some s') \<and> sds_ok s' \<and> sval s' = sval s @ take len t \<and>
    sdslen s' = sdslen s + len"
proof -
  obtain s' where s': "sdscatlen mem s t len = Some (Some s')" "sds_ok s'" "sval s' = sval s @ take len t"
    using yields_total [OF assms(1) sdscatlen_ok [OF assms(2-4)]] by blast
  have "length (sval s') = length (sval s) + len" using s'(3) assms(3) by simp
  then have "sdslen s' = sdslen s + len" unfolding sval_length [OF s'(2)] sval_length [OF assms(2)] .
  then show ?thesis using s' by blast
qed

lemma sdsempty_must: "mem_total mem \<Longrightarrow> \<exists>s. sdsempty mem = Some (Some s) \<and> sds_ok s \<and> sval s = [] \<and> sdslen s = 0"
proof -
  assume "mem_total mem"
  from yields_total [OF this, of "sdsempty mem" "\<lambda>s. sval s = []"] sdsnewlen_ok [of 0 "[0]" mem]
  obtain s where s: "sdsempty mem = Some (Some s)" "sds_ok s" "sval s = []" by (auto simp: sdsempty_def)
  then have "sdslen s = 0" using sval_length by (metis list.size(3))
  with s show ?thesis by blast
qed

section \<open>Formatted appending\<close>

lemma vsnprintf_length [simp]: "buf \<noteq> [] \<Longrightarrow> length (vsnprintf buf out) = length buf"
  by (cases buf) (auto simp: vsnprintf_def Let_def)

text \<open>The test of the last byte but one tells whether everything up to the first zero byte was stored.\<close>

lemma vsnprintf_cut:
  assumes "2 \<le> length buf" and "buf ! (length buf - 2) = 0" and "vsnprintf buf out ! (length buf - 2) = 0"
  shows "\<exists>rest. vsnprintf buf out = takeWhile (\<lambda>c. c \<noteq> 0) out @ 0 # rest"
proof (cases "length out \<le> length buf - 2")
  case True
  then have "vsnprintf buf out = out @ 0 # drop (length out + 1) buf" by (simp add: vsnprintf_def)
  moreover have "\<exists>rest. out @ [0] = takeWhile (\<lambda>c. c \<noteq> 0) out @ 0 # rest" for out :: "u8 list"
    by (induction out) auto
  ultimately show ?thesis by (metis append.assoc append_Cons append_Nil)
next
  case False
  obtain n where n: "length buf = Suc (Suc n)" using assms(1) by (metis One_nat_def Suc_1 Suc_le_D Suc_le_mono)
  have l: "n < length out" using False n by simp
  then have v: "vsnprintf buf out = take n out @ out ! n # 0 # drop (Suc (Suc n)) buf"
    using n by (simp add: vsnprintf_def Let_def take_Suc_conv_app_nth)
  then have z: "out ! n = 0" using assms(3) n l by (simp add: nth_append)
  have "takeWhile (\<lambda>c. c \<noteq> 0) (xs @ 0 # ys) = takeWhile (\<lambda>c. c \<noteq> 0) xs" for xs ys :: "u8 list"
    by (induction xs) auto
  then have "takeWhile (\<lambda>c. c \<noteq> 0) out = takeWhile (\<lambda>c. c \<noteq> 0) (take n out)"
    using id_take_nth_drop [OF l] z by metis
  moreover have "\<exists>rest. xs @ 0 # ys = takeWhile (\<lambda>c. c \<noteq> 0) xs @ 0 # rest" for xs ys :: "u8 list"
    by (induction xs) auto
  ultimately show ?thesis using v z by metis
qed

lemma vprintf_loop_ok:
  "mem_total mem \<Longrightarrow> length out < 2 ^ 60 \<Longrightarrow> 2 \<le> length buf \<Longrightarrow> length buf < 2 ^ 62 \<Longrightarrow>
   \<exists>rest. vprintf_loop mem buf out = Some (Some (takeWhile (\<lambda>c. c \<noteq> 0) out @ 0 # rest))"
proof (induction "length out + 2 - length buf" arbitrary: buf rule: less_induct)
  case less
  define b where "b = buf[length buf - 2 := 0]"
  have b: "length b = length buf" "b ! (length b - 2) = 0" "upd_opt buf (length buf - 2) 0 = Some b"
    using less.prems(3) by (simp_all add: b_def)
  define v where "v = vsnprintf b out"
  have v: "length v = length buf" using b(1) less.prems(3) by (simp add: v_def) (metis b(1) list.size(3) not_numeral_le_zero vsnprintf_length)
  show ?case
  proof (cases "v ! (length v - 2) = 0")
    case True
    then have "vprintf_loop mem buf out = Some (Some v)"
      using b v less.prems(3) by (subst vprintf_loop.simps) (simp add: v_def [symmetric])
    then show ?thesis using vsnprintf_cut [of b out] True b v less.prems(3) by (simp add: v_def)
  next
    case False
    have big: "length buf \<le> length out + 1"
    proof (rule ccontr)
      assume "\<not> ?thesis"
      then obtain n where n: "length b = Suc (Suc n)" "length out \<le> n"
        using b(1) less.prems(3) by (metis One_nat_def Suc_1 Suc_eq_plus1 Suc_le_D Suc_le_mono not_less_eq_eq)
      then have "v = out @ 0 # drop (Suc (length out)) b" by (simp add: v_def vsnprintf_def)
      then have "v ! n = 0" using n b(2) by (cases "n = length out") (auto simp: nth_append nth_Cons')
      with False n v b(1) show False by simp
    qed
    obtain junk where j: "mem (sz (length v * 2)) = Some junk" using less.prems(1) by (auto simp: mem_total_def)
    have sz: "sz (length v * 2) = length buf * 2" using v big less.prems(2) by (simp add: sz_def)
    have "vprintf_loop mem buf out = vprintf_loop mem (map junk [0..<length buf * 2]) out"
      using b v less.prems(3) False j sz by (subst vprintf_loop.simps) (simp add: v_def [symmetric])
    moreover have "\<exists>rest. vprintf_loop mem (map junk [0..<length buf * 2]) out = Some (Some (takeWhile (\<lambda>c. c \<noteq> 0) out @ 0 # rest))"
      using less.prems big by (intro less.hyps) auto
    ultimately show ?thesis by simp
  qed
qed

lemma sdscatvprintf_ok:
  assumes "mem_total mem" and "sds_ok s" and "length staticbuf = 1024" and "fmtlen < 2 ^ 60" and "length out < 2 ^ 60"
    and "sdslen s < 2 ^ 61"
  shows "\<exists>s'. sdscatvprintf mem staticbuf s fmtlen out = Some (Some s') \<and> sds_ok s' \<and>
    sval s' = sval s @ takeWhile (\<lambda>c. c \<noteq> 0) out \<and> sdslen s' = sdslen s + length (takeWhile (\<lambda>c. c \<noteq> 0) out)"
proof -
  let ?t = "takeWhile (\<lambda>c. c \<noteq> 0) out"
  have sz: "sz (fmtlen * 2) = fmtlen * 2" using assms(4) by (simp add: sz_def)
  obtain buf where buf: "(if length staticbuf < fmtlen * 2 then map_option (\<lambda>junk. map junk [0..<fmtlen * 2]) (mem (fmtlen * 2)) else Some staticbuf) = Some buf"
    "2 \<le> length buf" "length buf < 2 ^ 62"
    using assms(1,3,4) unfolding mem_total_def by (cases "length staticbuf < fmtlen * 2") fastforce+
  obtain rest where v: "vprintf_loop mem buf out = Some (Some (?t @ 0 # rest))"
    using vprintf_loop_ok [OF assms(1) _ buf(2,3), of out] assms(5) by auto
  have "0 \<notin> set ?t" by (auto dest: set_takeWhileD)
  then have "sdscat mem s (?t @ 0 # rest) = sdscatlen mem s (?t @ 0 # rest) (length ?t)"
    by (simp add: sdscat_def strlen_ok)
  moreover have "length ?t \<le> length out" by (rule length_takeWhile_le)
  then obtain s' where "sdscatlen mem s (?t @ 0 # rest) (length ?t) = Some (Some s')" "sds_ok s'" "sval s' = sval s @ ?t"
    "sdslen s' = sdslen s + length ?t"
    using sdscatlen_must [OF assms(1,2), of "length ?t" "?t @ 0 # rest"] assms(5,6) by auto
  ultimately show ?thesis using buf(1) v by (simp add: sdscatvprintf_def sz)
qed

section \<open>Splitting and joining\<close>

fun joined :: "'a list \<Rightarrow> 'a list list \<Rightarrow> 'a list" where
  "joined sep [] = []"
| "joined sep [t] = t"
| "joined sep (t # ts) = t @ sep @ joined sep ts"

definition occurs :: "'a list \<Rightarrow> 'a list \<Rightarrow> bool" where
  "occurs sep t \<longleftrightarrow> (\<exists>a b. t = a @ sep @ b)"

lemma joined_snoc: "joined sep (ts @ [t]) = concat (map (\<lambda>t. t @ sep) ts) @ t"
  by (induction sep ts rule: joined.induct) auto

definition split_inv :: "u8 list \<Rightarrow> u8 list \<Rightarrow> nat \<Rightarrow> nat \<Rightarrow> nat \<Rightarrow> sds list \<Rightarrow> bool" where
  "split_inv sep xs j start slots tokens \<longleftrightarrow>
    (\<forall>t \<in> set tokens. sds_ok t \<and> \<not> occurs sep (sval t)) \<and>
    concat (map (\<lambda>t. sval t @ sep) tokens) = take start xs \<and> start \<le> j \<and> j \<le> length xs \<and> length tokens < slots \<and>
    (\<forall>k. start \<le> k \<longrightarrow> k < j \<longrightarrow> take (length sep) (drop k xs) \<noteq> sep)"

lemma no_occurrence:
  assumes "\<forall>k. start \<le> k \<longrightarrow> k < j \<longrightarrow> take (length sep) (drop k xs) \<noteq> sep" and "sep \<noteq> []" and "j \<le> length xs"
  shows "\<not> occurs sep (take (j - start) (drop start xs))"
proof
  assume "occurs sep (take (j - start) (drop start xs))"
  then obtain a b where ab: "take (j - start) (drop start xs) = a @ sep @ b" by (auto simp: occurs_def)
  have "length (take (j - start) (drop start xs)) = length (a @ sep @ b)" using ab by simp
  then have l: "length a + length sep + length b \<le> j - start" by simp
  have "drop start xs = (a @ sep @ b) @ drop (j - start) (drop start xs)" using ab by (metis append_take_drop_id)
  then have "drop (start + length a) xs = sep @ b @ drop (j - start) (drop start xs)"
    by (metis append.assoc append_eq_conv_conj drop_drop add.commute)
  then have "take (length sep) (drop (start + length a) xs) = sep" by simp
  moreover have "0 < length sep" using assms(2) by simp
  then have "start + length a < j" using l by linarith
  ultimately show False using assms(1) by (metis le_add1)
qed

lemma add_token_ok:
  assumes "mem_total mem" and "length tokens < slots" and "n \<le> length p" and "n < 2 ^ 61"
  shows "\<exists>t. add_token mem tokens slots p n = Some (Some (tokens @ [t])) \<and> sds_ok t \<and> sval t = take n p"
  using yields_total [OF assms(1) sdsnewlen_ok [OF assms(3,4)]] assms(2) by (auto simp: add_token_def)

lemma split_loop_ok:
  assumes "mem_total mem" and "sep \<noteq> []" and "len \<le> length s" and "len < 2 ^ 61"
  shows "split_inv sep (take len s) j start slots tokens \<Longrightarrow>
    \<exists>j' start' slots' tokens'. split_loop mem s len sep j start slots tokens = Some (Some (tokens', start', slots')) \<and>
      split_inv sep (take len s) j' start' slots' tokens' \<and> len < j' + length sep"
proof (induction "len - j" arbitrary: j start slots tokens rule: less_induct)
  case less
  let ?xs = "take len s"
  note inv = less.prems [unfolded split_inv_def]
  show ?case
  proof (cases "j + length sep \<le> len")
    case False
    then show ?thesis using less.prems by (subst split_loop.simps) auto
  next
    case True
    define sl where "sl = (if slots < length tokens + 2 then slots * 2 else slots)"
    have sl: "length tokens + 2 \<le> sl" using inv by (auto simp: sl_def)
    have mm: "mem n \<noteq> None" for n using assms(1) by (simp add: mem_total_def)
    have rd: "rd_mem s j (length sep) = Some (take (length sep) (drop j ?xs))"
      using True assms(3) by (simp add: drop_take min_def)
    have pos: "0 < length sep" using assms(2) by simp
    have cond: "(sep \<noteq> [] \<and> j + length sep \<le> len) = True" "(slots < length tokens + 2 \<and> mem (8 * sl) = None) = False"
      using assms(2) True mm by (simp_all del: not_None_eq)
    note unfolded = split_loop.simps [of mem s len sep j start slots tokens, unfolded Let_def, folded sl_def,
      unfolded cond if_True if_False rd bind.bind_lunit]
    show ?thesis
    proof (cases "take (length sep) (drop j ?xs) = sep")
      case m: True
      have "\<exists>t. add_token mem tokens sl (drop start s) (j - start) = Some (Some (tokens @ [t])) \<and> sds_ok t \<and>
          sval t = take (j - start) (drop start s)"
        using add_token_ok [OF assms(1), of tokens sl "j - start" "drop start s"] sl inv True assms(3,4) by auto
      then obtain t where t: "add_token mem tokens sl (drop start s) (j - start) = Some (Some (tokens @ [t]))"
        "sds_ok t" "sval t = take (j - start) (drop start ?xs)"
        using inv True by (auto simp: drop_take min_def)
      have step: "split_loop mem s len sep j start slots tokens =
          split_loop mem s len sep (j + length sep) (j + length sep) sl (tokens @ [t])"
        using unfolded m t(1) by simp
      have cat: "take start ?xs @ sval t @ sep = take (j + length sep) ?xs"
        using t(3) m inv by (metis append.assoc le_add_diff_inverse take_add)
      have "split_inv sep ?xs (j + length sep) (j + length sep) sl (tokens @ [t])"
        using inv sl t cat True no_occurrence [of start j sep ?xs] assms(2,3) by (auto simp: split_inv_def)
      then show ?thesis unfolding step by (rule less.hyps [rotated]) (use True pos in linarith)
    next
      case m: False
      have step: "split_loop mem s len sep j start slots tokens = split_loop mem s len sep (j + 1) start sl tokens"
        using unfolded m by simp
      have "j + 1 \<le> len" using True pos by linarith
      then have "split_inv sep ?xs (j + 1) start sl tokens"
        using inv sl m assms(3) by (auto simp: split_inv_def less_Suc_eq)
      then show ?thesis unfolding step by (rule less.hyps [rotated]) (use True pos in linarith)
    qed
  qed
qed

lemma sdssplitlen_ok:
  assumes "mem_total mem" and "sep \<noteq> []" and "0 < len" and "len \<le> length s" and "len < 2 ^ 61"
  shows "\<exists>ts. sdssplitlen mem s len sep = Some (Some ts) \<and> (\<forall>t \<in> set ts. sds_ok t \<and> \<not> occurs sep (sval t)) \<and>
    joined sep (map sval ts) = take len s"
proof -
  let ?xs = "take len s"
  have "split_inv sep ?xs 0 0 5 []" by (simp add: split_inv_def)
  from split_loop_ok [OF assms(1,2,4,5) this] obtain j start slots tokens where
    l: "split_loop mem s len sep 0 0 5 [] = Some (Some (tokens, start, slots))"
      "split_inv sep ?xs j start slots tokens" "len < j + length sep" by blast
  note inv = l(2) [unfolded split_inv_def]
  have "\<exists>t. add_token mem tokens slots (drop start s) (len - start) = Some (Some (tokens @ [t])) \<and> sds_ok t \<and>
      sval t = take (len - start) (drop start s)"
    using add_token_ok [OF assms(1), of tokens slots "len - start" "drop start s"] inv assms(4,5) by auto
  then obtain t where t: "add_token mem tokens slots (drop start s) (len - start) = Some (Some (tokens @ [t]))"
    "sds_ok t" "sval t = drop start ?xs" by (auto simp: drop_take)
  have tail: "\<forall>k. start \<le> k \<longrightarrow> k < len \<longrightarrow> take (length sep) (drop k ?xs) \<noteq> sep"
  proof (intro allI impI)
    fix k
    assume k: "start \<le> k" "k < len"
    show "take (length sep) (drop k ?xs) \<noteq> sep"
    proof (cases "k < j")
      case False
      then have "length (take (length sep) (drop k ?xs)) < length sep" using l(3) assms(4) k by simp
      then show ?thesis by auto
    qed (use inv k in blast)
  qed
  have no: "\<not> occurs sep (sval t)"
    using no_occurrence [OF tail assms(2)] assms(4) t(3) by (simp add: drop_take)
  have "joined sep (map sval (tokens @ [t])) = concat (map (\<lambda>t. sval t @ sep) tokens) @ sval t"
    by (simp add: joined_snoc comp_def)
  also have "\<dots> = take start ?xs @ drop start ?xs" using inv t(3) by simp
  finally have "joined sep (map sval (tokens @ [t])) = ?xs" unfolding append_take_drop_id .
  moreover have "mem (8 * 5) \<noteq> None" using assms(1) by (simp add: mem_total_def)
  ultimately show ?thesis
    using l(1) t no inv assms(2,3) by (intro exI [of _ "tokens @ [t]"]) (auto simp: sdssplitlen_def Suc_le_eq)
qed

lemma join_loop_ok:
  "mem_total mem \<Longrightarrow> sds_ok s \<Longrightarrow> \<forall>t \<in> set ts. sds_ok t \<Longrightarrow> sdslen s + length (joined sep (map sval ts)) < 2 ^ 62 \<Longrightarrow>
   \<exists>s'. join_loop mem s ts sep = Some s' \<and> sds_ok s' \<and> sval s' = sval s @ joined sep (map sval ts)"
proof (induction ts arbitrary: s)
  case (Cons t ts)
  have j: "joined sep (map sval (t # ts)) = sval t @ (if ts = [] then [] else sep @ joined sep (map sval ts))"
    by (cases ts) auto
  have t: "sds_ok t" "take (sdslen t) (s_buf t) = sval t" "sdslen t \<le> length (s_buf t)" "length (sval t) = sdslen t"
    using Cons.prems(3) by (auto simp: sval_def sds_ok_def sdslen_def)
  obtain s1 where s1: "sdscatsds mem s t = Some (Some s1)" "sds_ok s1" "sval s1 = sval s @ sval t" "sdslen s1 = sdslen s + sdslen t"
    using sdscatlen_must [OF Cons.prems(1,2) t(3)] Cons.prems(4) j t by (auto simp: sdscatsds_def)
  show ?case
  proof (cases "ts = []")
    case True
    then show ?thesis using s1 by simp
  next
    case False
    obtain s2 where s2: "sdscatlen mem s1 sep (length sep) = Some (Some s2)" "sds_ok s2" "sval s2 = sval s1 @ sep"
      "sdslen s2 = sdslen s1 + length sep"
      using sdscatlen_must [OF Cons.prems(1) s1(2), of "length sep" sep] Cons.prems(4) j t(4) s1(4) False by auto
    then obtain s3 where "join_loop mem s2 ts sep = Some s3" "sds_ok s3" "sval s3 = sval s2 @ joined sep (map sval ts)"
      using Cons.IH [OF Cons.prems(1) s2(2)] Cons.prems(3,4) j t(4) s1(4) False by auto
    then show ?thesis using s1 s2 j False by simp
  qed
qed simp

lemma sdsjoinsds_ok:
  assumes "mem_total mem" and "\<forall>t \<in> set ts. sds_ok t" and "length (joined sep (map sval ts)) < 2 ^ 62"
  shows "\<exists>s. sdsjoinsds mem ts sep = Some s \<and> sds_ok s \<and> sval s = joined sep (map sval ts)"
proof -
  obtain e where e: "sdsempty mem = Some (Some e)" "sds_ok e" "sval e = []" "sdslen e = 0"
    using sdsempty_must [OF assms(1)] by blast
  from join_loop_ok [OF assms(1) e(2) assms(2), of sep] assms(3) e show ?thesis by (simp add: sdsjoinsds_def)
qed

section \<open>Quoting\<close>

definition quote_byte :: "u8 \<Rightarrow> u8 list" where
  "quote_byte c =
    (if c = 92 \<or> c = 34 then [92, c]
     else if c = 10 then [92, 110]
     else if c = 13 then [92, 114]
     else if c = 9 then [92, 116]
     else if c = 7 then [92, 97]
     else if c = 8 then [92, 98]
     else if isprint c then [c]
     else [92, 120, hex_char (c div 16), hex_char (c mod 16)])"

definition quoted :: "u8 list \<Rightarrow> u8 list" where
  "quoted x = 34 # concat (map quote_byte x) @ [34]"

lemma quote_byte_length: "length (quote_byte c) \<le> 4"
  by (simp add: quote_byte_def)

lemma concat_quote_length: "length (concat (map quote_byte x)) \<le> 4 * length x"
  using quote_byte_length by (induction x) (auto intro: add_mono)

text \<open>Hexadecimal digits are read back.\<close>

lemma nibbles: "c div 16 < (16 :: u8)" "c mod 16 < (16 :: u8)"
proof -
  have "unat c < 2 ^ LENGTH(8)" by (rule unsigned_less)
  then have "unat c div 16 < 16" by simp
  then show "c div 16 < (16 :: u8)" "c mod 16 < (16 :: u8)" by (simp_all add: word_less_nat_alt unat_div unat_mod)
qed

lemma hex_char_read:
  assumes "n < 16"
  shows "is_hex_digit (hex_char n)" and "hex_digit_to_int (hex_char n) = n" and "hex_char n \<noteq> 0"
proof -
  have "list_all (\<lambda>k. let n = (word_of_nat k :: u8) in
      is_hex_digit (hex_char n) \<and> hex_digit_to_int (hex_char n) = n \<and> hex_char n \<noteq> 0) [0..<16]"
    by (simp add: upt_rec hex_char_def is_hex_digit_def hex_digit_to_int_def)
  moreover have "word_of_nat (unat n) = n" by simp
  moreover have "unat n \<in> set [0..<16]" using assms by (simp add: word_less_nat_alt)
  ultimately show "is_hex_digit (hex_char n)" "hex_digit_to_int (hex_char n) = n" "hex_char n \<noteq> 0"
    unfolding list_all_iff Let_def by metis+
qed

lemma hex_pair: "hex_digit_to_int (hex_char (c div 16)) * 16 + hex_digit_to_int (hex_char (c mod 16)) = c"
  using hex_char_read(2) [OF nibbles(1)] hex_char_read(2) [OF nibbles(2)] div_mult_mod_eq [of c 16] by simp

lemma quote_byte_nonzero: "0 \<notin> set (quote_byte c)"
  using hex_char_read(3) [OF nibbles(1) [of c]] hex_char_read(3) [OF nibbles(2) [of c]]
  by (auto simp: quote_byte_def isprint_def)

lemma takeWhile_nonzero: "0 \<notin> set xs \<Longrightarrow> takeWhile (\<lambda>c. c \<noteq> 0) xs = (xs :: u8 list)"
  by (induction xs) auto

lemma repr_byte_ok:
  assumes "mem_total mem" and "sds_ok s" and "length staticbuf = 1024" and "sdslen s < 2 ^ 60"
  shows "\<exists>s'. repr_byte mem staticbuf s c = Some (Some s') \<and> sds_ok s' \<and> sval s' = sval s @ quote_byte c \<and>
    sdslen s' = sdslen s + length (quote_byte c)"
proof -
  have p: "\<exists>s'. sdscatvprintf mem staticbuf s n out = Some (Some s') \<and> sds_ok s' \<and> sval s' = sval s @ out \<and>
      sdslen s' = sdslen s + length out" if "n \<le> 6" "0 \<notin> set out" "length out \<le> 4" for n out
    using sdscatvprintf_ok [OF assms(1-3), of n out] assms(4) that takeWhile_nonzero [OF that(2)] by simp
  have l: "\<exists>s'. sdscatlen mem s t 2 = Some (Some s') \<and> sds_ok s' \<and> sval s' = sval s @ t \<and> sdslen s' = sdslen s + 2"
    if "length t = 2" for t
    using sdscatlen_must [OF assms(1,2), of 2 t] assms(4) that by simp
  note nz = quote_byte_nonzero [of c, unfolded quote_byte_def]
  consider "c = 92 \<or> c = 34" | "c = 10 \<or> c = 13 \<or> c = 9 \<or> c = 7 \<or> c = 8"
    | "c \<noteq> 92" "c \<noteq> 34" "c \<noteq> 10" "c \<noteq> 13" "c \<noteq> 9" "c \<noteq> 7" "c \<noteq> 8" by blast
  then show ?thesis
  proof cases
    case 1
    then show ?thesis using p [of 3 "[92, c]"] nz by (auto simp: repr_byte_def quote_byte_def)
  next
    case 2
    then show ?thesis using l [of "[92, 110]"] l [of "[92, 114]"] l [of "[92, 116]"] l [of "[92, 97]"] l [of "[92, 98]"]
      by (auto simp: repr_byte_def quote_byte_def)
  next
    case 3
    then show ?thesis
      using p [of 2 "[c]"] p [of 6 "[92, 120, hex_char (c div 16), hex_char (c mod 16)]"] nz
      by (cases "isprint c") (simp_all add: repr_byte_def quote_byte_def)
  qed
qed

lemma repr_loop_ok:
  "mem_total mem \<Longrightarrow> sds_ok s \<Longrightarrow> length staticbuf = 1024 \<Longrightarrow> sdslen s + 4 * length x < 2 ^ 60 \<Longrightarrow>
   \<exists>s'. repr_loop mem staticbuf s x = Some s' \<and> sds_ok s' \<and> sval s' = sval s @ concat (map quote_byte x) \<and>
     sdslen s' \<le> sdslen s + 4 * length x"
proof (induction x arbitrary: s)
  case (Cons c x)
  then obtain s1 where s1: "repr_byte mem staticbuf s c = Some (Some s1)" "sds_ok s1" "sval s1 = sval s @ quote_byte c"
    "sdslen s1 = sdslen s + length (quote_byte c)"
    using repr_byte_ok [OF Cons.prems(1-3), of c] by auto
  then have l: "sdslen s1 \<le> sdslen s + 4" using quote_byte_length [of c] by simp
  then obtain s2 where "repr_loop mem staticbuf s1 x = Some s2" "sds_ok s2" "sval s2 = sval s1 @ concat (map quote_byte x)"
    "sdslen s2 \<le> sdslen s1 + 4 * length x"
    using Cons.IH [OF Cons.prems(1) s1(2) Cons.prems(3)] Cons.prems(4) by auto
  then show ?case using s1 l by auto
qed simp

lemma sdscatrepr_ok:
  assumes "mem_total mem" and "sds_ok s" and "length staticbuf = 1024" and "sdslen s + 4 * length x < 2 ^ 59"
  shows "\<exists>s'. sdscatrepr mem staticbuf s x (length x) = Some (Some s') \<and> sds_ok s' \<and> sval s' = sval s @ quoted x"
proof -
  obtain s1 where s1: "sdscatlen mem s [34] 1 = Some (Some s1)" "sds_ok s1" "sval s1 = sval s @ [34]" "sdslen s1 = sdslen s + 1"
    using sdscatlen_must [OF assms(1,2), of 1 "[34]"] assms(4) by auto
  obtain s2 where s2: "repr_loop mem staticbuf s1 x = Some s2" "sds_ok s2" "sval s2 = sval s1 @ concat (map quote_byte x)"
    "sdslen s2 \<le> sdslen s1 + 4 * length x"
    using repr_loop_ok [OF assms(1) s1(2) assms(3), of x] s1(4) assms(4) by auto
  obtain s3 where "sdscatlen mem s2 [34] 1 = Some (Some s3)" "sds_ok s3" "sval s3 = sval s2 @ [34]"
    using sdscatlen_must [OF assms(1) s2(2), of 1 "[34]"] s1(4) s2(4) assms(4) by auto
  then show ?thesis using s1 s2 by (simp add: sdscatrepr_def quoted_def)
qed

section \<open>Reading arguments\<close>

lemma sdscatlen_prefix: "n \<le> length t \<Longrightarrow> sdscatlen mem s t n = sdscatlen mem s (take n t) n"
  by (simp add: sdscatlen_def)

text \<open>The steps of the token loop.\<close>

lemma token_InQ_escape:
  "c1 \<noteq> 0 \<Longrightarrow> c1 \<noteq> 120 \<Longrightarrow> token_loop mem InQ (92 # c1 # p) current =
   Option.bind (must (sdscatlen mem current [unescape c1] 1)) (token_loop mem InQ p)"
  by (subst token_loop.simps) (simp add: at_hex_def)

lemma token_InQ_hex:
  "is_hex_digit h \<Longrightarrow> is_hex_digit l \<Longrightarrow> token_loop mem InQ (92 # 120 # h # l # p) current =
   Option.bind (must (sdscatlen mem current [hex_digit_to_int h * 16 + hex_digit_to_int l] 1)) (token_loop mem InQ p)"
  by (subst token_loop.simps) (simp add: at_hex_def numeral_2_eq_2 numeral_3_eq_3)

lemma token_InQ_plain:
  "c \<noteq> 92 \<Longrightarrow> c \<noteq> 34 \<Longrightarrow> c \<noteq> 0 \<Longrightarrow> token_loop mem InQ (c # p) current =
   Option.bind (must (sdscatlen mem current [c] 1)) (token_loop mem InQ p)"
  using sdscatlen_prefix [of 1 "c # p" mem current] by (subst token_loop.simps) (simp add: at_hex_def)

lemma token_InQ_close:
  "d = 0 \<or> isspace d \<Longrightarrow> token_loop mem InQ (34 # d # rest) current = Some (Some (current, d # rest))"
  by (subst token_loop.simps) (auto simp: at_hex_def closes_def)

lemma token_Plain_quote: "token_loop mem Plain (34 # p) current = token_loop mem InQ p current"
  by (subst token_loop.simps) simp

lemma token_quote_byte:
  "token_loop mem InQ (quote_byte c @ p) current =
   Option.bind (must (sdscatlen mem current [c] 1)) (\<lambda>current. token_loop mem InQ p current)"
proof -
  consider "c = 92 \<or> c = 34 \<or> c = 10 \<or> c = 13 \<or> c = 9 \<or> c = 7 \<or> c = 8"
    | (plain) "quote_byte c = [c]" "c \<noteq> 92" "c \<noteq> 34" "c \<noteq> 0"
    | (hex) "quote_byte c = [92, 120, hex_char (c div 16), hex_char (c mod 16)]"
  proof (cases "c = 92 \<or> c = 34 \<or> c = 10 \<or> c = 13 \<or> c = 9 \<or> c = 7 \<or> c = 8")
    case False
    moreover have "\<not> isprint 0" by (simp add: isprint_def)
    then have "isprint c \<Longrightarrow> c \<noteq> 0" by auto
    ultimately show ?thesis
      using that(2,3) by (cases "isprint c") (auto simp: quote_byte_def)
  qed (use that(1) in blast)
  then show ?thesis
  proof cases
    case 1
    then show ?thesis by (elim disjE) (simp_all add: quote_byte_def token_InQ_escape unescape_def)
  next
    case plain
    then show ?thesis by (simp add: token_InQ_plain)
  next
    case hex
    then show ?thesis
      using hex_char_read(1) [OF nibbles(1) [of c]] hex_char_read(1) [OF nibbles(2) [of c]] hex_pair [of c]
      by (simp add: token_InQ_hex)
  qed
qed

lemma token_loop_quoted:
  "mem_total mem \<Longrightarrow> sds_ok s \<Longrightarrow> sdslen s + length x < 2 ^ 60 \<Longrightarrow> d = 0 \<or> isspace d \<Longrightarrow>
   \<exists>s'. token_loop mem InQ (concat (map quote_byte x) @ 34 # d # rest) s = Some (Some (s', d # rest)) \<and>
     sds_ok s' \<and> sval s' = sval s @ x"
proof (induction x arbitrary: s)
  case Nil
  then show ?case by (simp add: token_InQ_close)
next
  case (Cons c x)
  obtain s1 where s1: "sdscatlen mem s [c] 1 = Some (Some s1)" "sds_ok s1" "sval s1 = sval s @ [c]" "sdslen s1 = sdslen s + 1"
    using sdscatlen_must [OF Cons.prems(1,2), of 1 "[c]"] Cons.prems(3) by auto
  from Cons.IH [OF Cons.prems(1) s1(2) _ Cons.prems(4)] Cons.prems(3) s1(4)
  obtain s2 where "token_loop mem InQ (concat (map quote_byte x) @ 34 # d # rest) s1 = Some (Some (s2, d # rest))"
    "sds_ok s2" "sval s2 = sval s1 @ x" by auto
  then show ?case using s1 token_quote_byte [of mem c "concat (map quote_byte x) @ 34 # d # rest" s] by simp
qed

lemma args_loop_quoted:
  assumes "mem_total mem" and "length x < 2 ^ 59" and "d = 0 \<or> isspace d"
  shows "\<exists>t. args_loop mem (quoted x @ d # rest) vector = args_loop mem (d # rest) (vector @ [t]) \<and> sds_ok t \<and> sval t = x"
proof -
  obtain e where e: "sdsempty mem = Some (Some e)" "sds_ok e" "sval e = []" "sdslen e = 0"
    using sdsempty_must [OF assms(1)] by blast
  obtain t where t: "token_loop mem InQ (concat (map quote_byte x) @ 34 # d # rest) e = Some (Some (t, d # rest))"
    "sds_ok t" "sval t = x"
    using token_loop_quoted [OF assms(1) e(2) _ assms(3), of x rest] assms(2) e by auto
  have "token_loop mem Plain (quoted x @ d # rest) e = Some (Some (t, d # rest))"
    using t(1) by (simp add: quoted_def token_Plain_quote)
  moreover have "dropWhile (\<lambda>c. c \<noteq> 0 \<and> isspace c) (quoted x @ d # rest) = quoted x @ d # rest"
    by (simp add: quoted_def isspace_def)
  moreover have "nth_opt (quoted x @ d # rest) 0 = Some 34" by (simp add: quoted_def)
  ultimately have "args_loop mem (quoted x @ d # rest) vector = args_loop mem (d # rest) (vector @ [t])"
    using e(1) by (subst args_loop.simps) simp
  then show ?thesis using t(2,3) by blast
qed

lemma args_loop_end: "args_loop mem (0 # rest) vector = Some (Some vector)"
  by (subst args_loop.simps) simp

lemma args_loop_space: "isspace c \<Longrightarrow> c \<noteq> 0 \<Longrightarrow> args_loop mem (c # p) vector = args_loop mem p vector"
  by (subst args_loop.simps, subst (2) args_loop.simps) simp

lemma args_loop_line:
  "mem_total mem \<Longrightarrow> \<forall>x \<in> set xs. length x < 2 ^ 59 \<Longrightarrow>
   \<exists>ts. args_loop mem (joined [32] (map quoted xs) @ 0 # rest) vector = Some (Some (vector @ ts)) \<and>
     (\<forall>t \<in> set ts. sds_ok t) \<and> map sval ts = xs"
proof (induction xs arbitrary: vector)
  case Nil
  then show ?case by (simp add: args_loop_end)
next
  case (Cons x xs)
  show ?case
  proof (cases xs)
    case Nil
    then show ?thesis
      using args_loop_quoted [OF Cons.prems(1), of x 0 rest vector] Cons.prems(2) args_loop_end by fastforce
  next
    case (Cons y ys)
    let ?l = "joined [32] (map quoted xs) @ 0 # rest"
    obtain t where t: "args_loop mem (quoted x @ 32 # ?l) vector = args_loop mem (32 # ?l) (vector @ [t])" "sds_ok t" "sval t = x"
      using args_loop_quoted [OF Cons.prems(1), of x 32 ?l vector] Cons.prems(2) by (auto simp: isspace_def)
    obtain ts where "args_loop mem ?l (vector @ [t]) = Some (Some ((vector @ [t]) @ ts))" "\<forall>t \<in> set ts. sds_ok t" "map sval ts = xs"
      using Cons.IH [OF Cons.prems(1), of "vector @ [t]"] Cons.prems(2) by auto
    then show ?thesis
      using t Cons args_loop_space [of 32 mem ?l "vector @ [t]"]
      by (intro exI [of _ "t # ts"]) (simp add: isspace_def)
  qed
qed

section \<open>The argument splitter always returns\<close>

lemma not_hex_0: "\<not> is_hex_digit 0"
  by (simp add: is_hex_digit_def)

lemma at_hex_total:
  assumes "0 \<in> set p"
  shows "\<exists>b. at_hex p = Some b \<and> (b \<longrightarrow> (\<exists>h l r. p = 92 # 120 # h # l # r \<and> 0 \<in> set r))"
proof -
  obtain c q where p: "p = c # q" using assms by (cases p) auto
  show ?thesis
  proof (cases "c = 92 \<and> hd q = 120 \<and> q \<noteq> []")
    case False
    then show ?thesis using assms p by (cases q) (auto simp: at_hex_def)
  next
    case True
    then obtain h r where q: "q = 120 # h # r" using assms p by (cases q; cases "tl q") auto
    show ?thesis
    proof (cases "is_hex_digit h")
      case True
      with not_hex_0 have "h \<noteq> 0" by auto
      then obtain l r' where r: "r = l # r'" using assms p q \<open>c = 92 \<and> _\<close> by (cases r) auto
      have "at_hex p = Some (is_hex_digit l)"
        using p q r True \<open>c = 92 \<and> _\<close> by (simp add: at_hex_def numeral_2_eq_2 numeral_3_eq_3)
      moreover have "0 \<in> set r'" if "is_hex_digit l"
      proof -
        have "l \<noteq> 0" using that not_hex_0 by auto
        then show ?thesis using assms p q r \<open>h \<noteq> 0\<close> \<open>c = 92 \<and> _\<close> by simp
      qed
      ultimately show ?thesis using p q r \<open>c = 92 \<and> _\<close> by auto
    qed (use p q True in \<open>auto simp: at_hex_def numeral_2_eq_2\<close>)
  qed
qed

definition token_fine :: "nat \<Rightarrow> (sds \<times> u8 list) option option \<Rightarrow> bool" where
  "token_fine n res \<longleftrightarrow> (\<exists>r. res = Some r \<and> (\<forall>cur p. r = Some (cur, p) \<longrightarrow> sds_ok cur \<and> 0 \<in> set p \<and> length p \<le> n))"

lemma token_fine_mono: "token_fine n r \<Longrightarrow> n \<le> m \<Longrightarrow> token_fine m r"
  unfolding token_fine_def by fastforce

lemma token_fine_error: "token_fine n (Some None)"
  by (simp add: token_fine_def)

lemma token_fine_done: "sds_ok cur \<Longrightarrow> 0 \<in> set p \<Longrightarrow> length p \<le> n \<Longrightarrow> token_fine n (Some (Some (cur, p)))"
  by (simp add: token_fine_def)

lemma token_loop_total:
  "mem_total mem \<Longrightarrow> sds_ok cur \<Longrightarrow> 0 \<in> set p \<Longrightarrow> sdslen cur + length p < 2 ^ 60 \<Longrightarrow> token_fine (length p) (token_loop mem mode p cur)"
proof (induction "length p" arbitrary: mode p cur rule: less_induct)
  case less
  obtain c q where p: "p = c # q" using less.prems(3) by (cases p) auto
  have go: "token_fine (length p) (Option.bind (must (sdscatlen mem cur t 1)) (token_loop mem m r))"
    if "length r < length p" "0 \<in> set r" "t \<noteq> []" for m r t
  proof -
    note r = that
    obtain s1 where s1: "sdscatlen mem cur t 1 = Some (Some s1)" "sds_ok s1" "sdslen s1 = sdslen cur + 1"
      using sdscatlen_must [OF less.prems(1,2), of 1 t] less.prems(4) r(1,3) by (auto simp: Suc_le_eq)
    have "token_fine (length r) (token_loop mem m r s1)"
      using less.hyps [OF r(1) less.prems(1) s1(2) r(2)] s1(3) less.prems(4) r(1) by simp
    then show ?thesis using s1(1) r(1) by (auto elim: token_fine_mono)
  qed
  have nxt: "token_fine (length p) (token_loop mem m q cur)" if "c \<noteq> 0" for m
    using less.hyps [of q cur m] less.prems that p by (auto elim: token_fine_mono)
  have q0: "c \<noteq> 0 \<Longrightarrow> 0 \<in> set q" using less.prems(3) p by auto
  have close: "token_fine (length p) (do { ok \<leftarrow> closes p; Some (if ok then Some (cur, q) else None) })" if "c \<noteq> 0"
  proof -
    have q: "0 \<in> set q" using q0 [OF that] .
    then obtain d r where "q = d # r" by (cases q) auto
    then show ?thesis using p q less.prems(2)
      by (auto simp: closes_def token_fine_error intro!: token_fine_done)
  qed
  obtain b where b: "at_hex p = Some b" "b \<Longrightarrow> \<exists>h l r. p = 92 # 120 # h # l # r \<and> 0 \<in> set r"
    using at_hex_total [OF less.prems(3)] by blast
  have esc: "\<exists>c1 r. q = c1 # r \<and> (c1 \<noteq> 0 \<longrightarrow> 0 \<in> set r)" if "c = 92"
    using q0 that by (cases q) auto
  show ?case
  proof (cases mode)
    case Plain
    show ?thesis
    proof (cases "c = 0")
      case True
      then show ?thesis using Plain p less.prems(2) by (subst token_loop.simps) (simp add: token_fine_done)
    next
      case False
      then show ?thesis using Plain p nxt go [of q p Plain] q0 less.prems(2)
        by (subst token_loop.simps) (simp add: token_fine_done)
    qed
  next
    case InQ
    show ?thesis
    proof (cases b)
      case True
      then obtain h l r where "p = 92 # 120 # h # l # r" "0 \<in> set r" using b(2) by blast
      then show ?thesis using InQ b(1) True go [of r _ InQ] by (subst token_loop.simps) simp
    next
      case False
      show ?thesis
      proof (cases "c = 92")
        case True
        then obtain c1 r where r: "q = c1 # r" "c1 \<noteq> 0 \<longrightarrow> 0 \<in> set r" using esc by blast
        then show ?thesis using InQ b(1) False True p go [of r _ InQ] go [of q p InQ] q0
          by (subst token_loop.simps, cases "c1 = 0") (simp_all)
      next
        case c: False
        then show ?thesis using InQ b(1) False p go [of q p InQ] q0 close
          by (subst token_loop.simps, cases "c = 0"; cases "c = 34") (simp_all add: token_fine_error)
      qed
    qed
  next
    case InSq
    show ?thesis
    proof (cases "c = 92")
      case True
      then obtain c1 r where r: "q = c1 # r" "c1 \<noteq> 0 \<longrightarrow> 0 \<in> set r" using esc by blast
      then show ?thesis using InSq True p go [of r "[39]" InSq] go [of q p InSq] q0
        by (subst token_loop.simps, cases "c1 = 39") (simp_all)
    next
      case c: False
      then show ?thesis using InSq p go [of q p InSq] q0 close
        by (subst token_loop.simps, cases "c = 0"; cases "c = 39") (simp_all add: token_fine_error)
    qed
  qed
qed

lemma args_loop_total:
  "mem_total mem \<Longrightarrow> 0 \<in> set p \<Longrightarrow> length p < 2 ^ 59 \<Longrightarrow> \<forall>t \<in> set vector. sds_ok t \<Longrightarrow>
   \<exists>r. args_loop mem p vector = Some r \<and> (\<forall>ts. r = Some ts \<longrightarrow> (\<forall>t \<in> set ts. sds_ok t))"
proof (induction "length p" arbitrary: p vector rule: less_induct)
  case less
  define p1 where "p1 = dropWhile (\<lambda>c. c \<noteq> 0 \<and> isspace c) p"
  have z: "0 \<in> set p1"
  proof -
    have "0 \<notin> set (takeWhile (\<lambda>c. c \<noteq> 0 \<and> isspace c) p)" by (auto dest: set_takeWhileD)
    moreover have "0 \<in> set (takeWhile (\<lambda>c. c \<noteq> 0 \<and> isspace c) p @ p1)"
      using less.prems(2) by (simp add: p1_def)
    ultimately show ?thesis by simp
  qed
  have len: "length p1 \<le> length p" by (simp add: p1_def length_dropWhile_le)
  obtain c q where p1: "p1 = c # q" using z by (cases p1) auto
  show ?case
  proof (cases "c = 0")
    case True
    then have "args_loop mem p vector = Some (Some vector)"
      using p1 by (subst args_loop.simps) (simp add: p1_def [symmetric])
    then show ?thesis using less.prems(4) by simp
  next
    case False
    then have nsp: "\<not> isspace c" using hd_dropWhile [of "\<lambda>c. c \<noteq> 0 \<and> isspace c" p] p1
      unfolding p1_def by (metis list.discI list.sel(1))
    obtain e where e: "sdsempty mem = Some (Some e)" "sds_ok e" "sdslen e = 0" using sdsempty_must [OF less.prems(1)] by blast
    have q: "0 \<in> set q" using z p1 False by auto
    have "token_fine (length q) (token_loop mem Plain p1 e)"
    proof -
      obtain s1 where s1: "sdscatlen mem e p1 1 = Some (Some s1)" "sds_ok s1" "sdslen s1 = 1"
        using sdscatlen_must [OF less.prems(1) e(2), of 1 p1] p1 e(3) by auto
      have t: "token_fine (length q) (token_loop mem m q cur)" if "sds_ok cur" "sdslen cur \<le> 1" for m cur
        using token_loop_total [OF less.prems(1) that(1) q, of m] that(2) len p1 less.prems(3) by simp
      show ?thesis
        using p1 False nsp s1 t [of e] t [of s1] e q by (subst token_loop.simps) (simp add: isspace_def token_fine_done)
    qed
    then obtain r where r: "token_loop mem Plain p1 e = Some r"
      "\<And>cur p'. r = Some (cur, p') \<Longrightarrow> sds_ok cur \<and> 0 \<in> set p' \<and> length p' \<le> length q"
      unfolding token_fine_def by blast
    have step: "args_loop mem p vector = (case r of None \<Rightarrow> Some None | Some (cur, p') \<Rightarrow> args_loop mem p' (vector @ [cur]))"
      using p1 False e(1) r(1) by (subst args_loop.simps) (simp add: p1_def [symmetric])
    show ?thesis
    proof (cases r)
      case None
      then show ?thesis using step by simp
    next
      case (Some cp)
      obtain cur p' where cp: "cp = (cur, p')" by (cases cp) auto
      have "\<exists>r. args_loop mem p' (vector @ [cur]) = Some r \<and> (\<forall>ts. r = Some ts \<longrightarrow> (\<forall>t \<in> set ts. sds_ok t))"
        using r(2) [of cur p'] Some cp less.prems len p1 by (intro less.hyps) auto
      then show ?thesis using step Some cp by simp
    qed
  qed
qed

section \<open>Properties\<close>

text \<open>
  C15. The argument splitter inverts quoting.  Strings quoted by \<^verbatim>\<open>sdscatrepr\<close> and separated by
  blanks are read back by \<^verbatim>\<open>sdssplitargs\<close> byte for byte, whatever bytes they hold.
\<close>

theorem repr_splitargs_roundtrip:
  assumes "mem_total mem" and "length staticbuf = 1024" and "\<forall>x \<in> set xs. length x < 2 ^ 50"
    and "sds_ok s" and "sdslen s < 2 ^ 50"
  shows "(\<forall>x \<in> set xs. \<exists>s'. sdscatrepr mem staticbuf s x (length x) = Some (Some s') \<and> sds_ok s' \<and>
      sval s' = sval s @ quoted x) \<and>
    (\<exists>ts. sdssplitargs mem (joined [32] (map quoted xs) @ 0 # rest) = Some (Some ts) \<and> map sval ts = xs)"
proof (intro conjI ballI)
  fix x
  assume "x \<in> set xs"
  then show "\<exists>s'. sdscatrepr mem staticbuf s x (length x) = Some (Some s') \<and> sds_ok s' \<and> sval s' = sval s @ quoted x"
    using sdscatrepr_ok [OF assms(1,4,2), of x] assms(3,5) by fastforce
next
  have "\<forall>x \<in> set xs. length x < 2 ^ 59" using assms(3) by fastforce
  then show "\<exists>ts. sdssplitargs mem (joined [32] (map quoted xs) @ 0 # rest) = Some (Some ts) \<and> map sval ts = xs"
    using args_loop_line [OF assms(1), of xs rest "[]"] by (auto simp: sdssplitargs_def)
qed

definition demo_mem :: mem where "demo_mem n = Some (\<lambda>i. 170)"

lemma demo_mem_total: "mem_total demo_mem"
  by (simp add: mem_total_def demo_mem_def)

definition demo_sds :: sds where
  "demo_sds = \<lparr>s_type = SDS_TYPE_8, s_len = 0, s_alloc = 0, s_buf = [0]\<rparr>"

lemma demo_sds_ok: "sds_ok demo_sds" "sdslen demo_sds = 0" "sval demo_sds = []"
  by (simp_all add: demo_sds_def sds_ok_def sdsalloc_def sdslen_def sval_def)

theorem repr_splitargs_roundtrip_witness:
  "\<exists>ts. sdssplitargs demo_mem (joined [32] (map quoted [[104, 0, 34], [10]]) @ 0 # []) = Some (Some ts) \<and>
     map sval ts = [[104, 0, 34], [10]]"
  using repr_splitargs_roundtrip [OF demo_mem_total, of "replicate 1024 0" "[[104, 0, 34], [10]]" demo_sds "[]"] demo_sds_ok
  by (simp del: joined.simps)

text \<open>
  C16. \<^verbatim>\<open>sdssplitargs\<close> returns on every zero-terminated line, well-formed or not, without reading past
  its terminator: either the error result or a vector of consistent strings.
\<close>

theorem sdssplitargs_returns:
  assumes "mem_total mem" and "0 \<in> set line" and "length line < 2 ^ 59"
  shows "\<exists>r. sdssplitargs mem line = Some r \<and> (\<forall>ts. r = Some ts \<longrightarrow> (\<forall>t \<in> set ts. sds_ok t))"
  using args_loop_total [OF assms, of "[]"] by (simp add: sdssplitargs_def)

theorem sdssplitargs_returns_witness: "\<exists>r. sdssplitargs demo_mem [34, 97, 0] = Some r"
  using sdssplitargs_returns [OF demo_mem_total, of "[34, 97, 0]"] by auto

text \<open>
  C17. \<^verbatim>\<open>sdssplitlen\<close> and \<^verbatim>\<open>sdsjoinsds\<close> are inverse: the tokens of a non-empty string joined with
  the separator give the string back, no token contains the separator, and the token array is never
  overrun.
\<close>

theorem split_join_roundtrip:
  assumes "mem_total mem" and "sep \<noteq> []" and "0 < len" and "len \<le> length s" and "len < 2 ^ 61"
  shows "\<exists>ts j. sdssplitlen mem s len sep = Some (Some ts) \<and> (\<forall>t \<in> set ts. \<not> occurs sep (sval t)) \<and>
    sdsjoinsds mem ts sep = Some j \<and> sval j = take len s"
proof -
  obtain ts where ts: "sdssplitlen mem s len sep = Some (Some ts)" "\<forall>t \<in> set ts. sds_ok t \<and> \<not> occurs sep (sval t)"
    "joined sep (map sval ts) = take len s" using sdssplitlen_ok [OF assms] by blast
  moreover have "length (joined sep (map sval ts)) < 2 ^ 62" using ts(3) assms(4,5) by simp
  ultimately show ?thesis using sdsjoinsds_ok [OF assms(1), of ts sep] by auto
qed

theorem split_join_roundtrip_witness:
  "\<exists>ts j. sdssplitlen demo_mem [1, 9, 2, 9] 4 [9] = Some (Some ts) \<and> sdsjoinsds demo_mem ts [9] = Some j \<and>
     sval j = [1, 9, 2, 9]"
  using split_join_roundtrip [OF demo_mem_total, of "[9]" 4 "[1, 9, 2, 9]"] by auto

text \<open>
  C25. \<^verbatim>\<open>sdsfromlonglong\<close> gives the canonical decimal numeral of every integer but the least, whose
  negation overflows.
\<close>

theorem sdsfromlonglong_numeral:
  assumes "mem_total mem" and "LLONG_MIN < v" and "v \<le> LLONG_MAX" and "length buf = SDS_LLSTR_SIZE"
  shows "\<exists>s. sdsfromlonglong mem buf v = Some (Some s) \<and> sds_ok s \<and> sval s = numeral_of v"
proof -
  have l: "sdsll2str buf v = Some (numeral_of v @ 0 # drop (Suc (length (numeral_of v))) buf, length (numeral_of v))"
    using sdsll2str_ok assms by simp
  have "length (numeral_of v) \<le> 21"
    using length_dec_le [of "\<bar>v\<bar>" 18] assms(2,3) by (auto simp: numeral_of_def LLONG_MIN_def LLONG_MAX_def abs_if)
  then show ?thesis
    using yields_total [OF assms(1) sdsnewlen_ok [of "length (numeral_of v)" "numeral_of v @ 0 # drop (Suc (length (numeral_of v))) buf"]] l
    by (simp add: sdsfromlonglong_def)
qed

theorem sdsfromlonglong_numeral_witness:
  "\<exists>s. sdsfromlonglong demo_mem (replicate 21 0) (-42) = Some (Some s) \<and> sval s = [45, 52, 50]"
  using sdsfromlonglong_numeral [OF demo_mem_total, of "-42" "replicate 21 0"]
  by (auto simp: SDS_LLSTR_SIZE_def LLONG_MIN_def LLONG_MAX_def numeral_of_def dec.simps)

end
