(* ===== verification/Level_Coding.thy ===== *)
theory Level_Coding
  imports Bytes
begin

text \<open>
  The encodings of LevelDB (util/coding.cc, util/coding.h): fixed-width integers, variable-length
  integers and length-prefixed byte strings. A destination string is a byte list that grows at its
  end; an input slice is the list of the bytes between the pointer and the limit, so that a routine
  that reads past its limit has nothing to read. The decoders return None where the code returns
  NULL or false. The flag kLittleEndian is the one of the port layer.
\<close>

unbundle bit_operations_syntax

section \<open>Fixed-width integers\<close>

definition EncodeFixed32 :: "bool \<Rightarrow> u32 \<Rightarrow> u8 list" where
  "EncodeFixed32 kLittleEndian value =
     (if kLittleEndian then le_bytes 4 (uint value)
      else [ucast (value AND 0xff), ucast (drop_bit 8 value AND 0xff),
            ucast (drop_bit 16 value AND 0xff), ucast (drop_bit 24 value AND 0xff)])"

definition EncodeFixed64 :: "bool \<Rightarrow> u64 \<Rightarrow> u8 list" where
  "EncodeFixed64 kLittleEndian value =
     (if kLittleEndian then le_bytes 8 (uint value)
      else [ucast (value AND 0xff), ucast (drop_bit 8 value AND 0xff),
            ucast (drop_bit 16 value AND 0xff), ucast (drop_bit 24 value AND 0xff),
            ucast (drop_bit 32 value AND 0xff), ucast (drop_bit 40 value AND 0xff),
            ucast (drop_bit 48 value AND 0xff), ucast (drop_bit 56 value AND 0xff)])"

definition PutFixed32 :: "bool \<Rightarrow> u8 list \<Rightarrow> u32 \<Rightarrow> u8 list" where
  "PutFixed32 kLittleEndian dst value = dst @ EncodeFixed32 kLittleEndian value"

definition PutFixed64 :: "bool \<Rightarrow> u8 list \<Rightarrow> u64 \<Rightarrow> u8 list" where
  "PutFixed64 kLittleEndian dst value = dst @ EncodeFixed64 kLittleEndian value"

text \<open>The decoders read without a bounds check: None is a read past the bytes there are.\<close>

definition DecodeFixed32 :: "bool \<Rightarrow> u8 list \<Rightarrow> u32 option" where
  "DecodeFixed32 kLittleEndian ptr =
     (if kLittleEndian then do { bs \<leftarrow> rd_mem ptr 0 4; Some (word_of_int (le_int bs)) }
      else do {
        b0 \<leftarrow> nth_opt ptr 0; b1 \<leftarrow> nth_opt ptr 1; b2 \<leftarrow> nth_opt ptr 2; b3 \<leftarrow> nth_opt ptr 3;
        Some (((ucast b0 OR push_bit 8 (ucast b1)) OR push_bit 16 (ucast b2)) OR push_bit 24 (ucast b3)) })"

definition DecodeFixed64 :: "bool \<Rightarrow> u8 list \<Rightarrow> u64 option" where
  "DecodeFixed64 kLittleEndian ptr =
     (if kLittleEndian then do { bs \<leftarrow> rd_mem ptr 0 8; Some (word_of_int (le_int bs)) }
      else do {
        lo \<leftarrow> DecodeFixed32 kLittleEndian ptr;
        hi \<leftarrow> DecodeFixed32 kLittleEndian (drop 4 ptr);
        Some (push_bit 32 (ucast hi) OR ucast lo) })"

section \<open>Variable-length integers\<close>

definition EncodeVarint32 :: "u32 \<Rightarrow> u8 list" where
  "EncodeVarint32 v =
     (if v < 2 ^ 7 then [ucast v]
      else if v < 2 ^ 14 then [ucast (v OR 128), ucast (drop_bit 7 v)]
      else if v < 2 ^ 21 then [ucast (v OR 128), ucast (drop_bit 7 v OR 128), ucast (drop_bit 14 v)]
      else if v < 2 ^ 28 then
        [ucast (v OR 128), ucast (drop_bit 7 v OR 128), ucast (drop_bit 14 v OR 128), ucast (drop_bit 21 v)]
      else
        [ucast (v OR 128), ucast (drop_bit 7 v OR 128), ucast (drop_bit 14 v OR 128),
         ucast (drop_bit 21 v OR 128), ucast (drop_bit 28 v)])"

definition PutVarint32 :: "u8 list \<Rightarrow> u32 \<Rightarrow> u8 list" where
  "PutVarint32 dst v = dst @ EncodeVarint32 v"

lemma drop_bit_7_less: "128 \<le> (v :: u64) \<Longrightarrow> unat (drop_bit 7 v) < unat v"
  by (simp add: word_le_nat_alt unat_drop_bit_eq) (simp add: drop_bit_eq_div)

function EncodeVarint64 :: "u64 \<Rightarrow> u8 list" where
  "EncodeVarint64 v =
     (if v \<ge> 128 then ucast ((v AND 127) OR 128) # EncodeVarint64 (drop_bit 7 v) else [ucast v])"
  by auto
termination by (relation "measure unat") (auto intro: drop_bit_7_less)

declare EncodeVarint64.simps [simp del]

definition PutVarint64 :: "u8 list \<Rightarrow> u64 \<Rightarrow> u8 list" where
  "PutVarint64 dst v = dst @ EncodeVarint64 v"

function varint_len_loop :: "u64 \<Rightarrow> nat \<Rightarrow> nat" where
  "varint_len_loop v len = (if v \<ge> 128 then varint_len_loop (drop_bit 7 v) (len + 1) else len)"
  by auto
termination by (relation "measure (\<lambda>(v, len). unat v)") (auto intro: drop_bit_7_less)

declare varint_len_loop.simps [simp del]

definition VarintLength :: "u64 \<Rightarrow> nat" where
  "VarintLength v = varint_len_loop v 1"

text \<open>The loop shared by the two decoders: the last shift allowed, the shift and the result so far.\<close>

fun varint_loop :: "nat \<Rightarrow> nat \<Rightarrow> 'a::len word \<Rightarrow> u8 list \<Rightarrow> ('a word \<times> u8 list) option" where
  "varint_loop bound shift result [] = None"
| "varint_loop bound shift result (byte # p) =
     (if shift \<le> bound then
        if byte AND 128 \<noteq> 0 then varint_loop bound (shift + 7) (result OR push_bit shift (ucast byte AND 127)) p
        else Some (result OR push_bit shift (ucast byte), p)
      else None)"

definition GetVarint32PtrFallback :: "u8 list \<Rightarrow> (u32 \<times> u8 list) option" where
  "GetVarint32PtrFallback p = varint_loop 28 0 0 p"

definition GetVarint32Ptr :: "u8 list \<Rightarrow> (u32 \<times> u8 list) option" where
  "GetVarint32Ptr p =
     (case p of
        byte # q \<Rightarrow> if (ucast byte :: u32) AND 128 = 0 then Some (ucast byte, q) else GetVarint32PtrFallback p
      | [] \<Rightarrow> GetVarint32PtrFallback p)"

definition GetVarint32 :: "u8 list \<Rightarrow> (u32 \<times> u8 list) option" where
  "GetVarint32 input = (case GetVarint32Ptr input of None \<Rightarrow> None | Some (value, q) \<Rightarrow> Some (value, q))"

definition GetVarint64Ptr :: "u8 list \<Rightarrow> (u64 \<times> u8 list) option" where
  "GetVarint64Ptr p = varint_loop 63 0 0 p"

definition GetVarint64 :: "u8 list \<Rightarrow> (u64 \<times> u8 list) option" where
  "GetVarint64 input = (case GetVarint64Ptr input of None \<Rightarrow> None | Some (value, q) \<Rightarrow> Some (value, q))"

section \<open>Length-prefixed slices\<close>

definition PutLengthPrefixedSlice :: "u8 list \<Rightarrow> u8 list \<Rightarrow> u8 list" where
  "PutLengthPrefixedSlice dst value = PutVarint32 dst (of_nat (length value)) @ value"

text \<open>The pointer version gives the slice and the bytes after it.\<close>

definition GetLengthPrefixedSlicePtr :: "u8 list \<Rightarrow> (u8 list \<times> u8 list) option" where
  "GetLengthPrefixedSlicePtr p =
     (case GetVarint32Ptr p of
        None \<Rightarrow> None
      | Some (len, p) \<Rightarrow> if unat len > length p then None else Some (take (unat len) p, drop (unat len) p))"

text \<open>
  The slice version also gives the input afterwards when it fails: a length that was read stays
  consumed.
\<close>

definition GetLengthPrefixedSlice :: "u8 list \<Rightarrow> u8 list \<times> u8 list option" where
  "GetLengthPrefixedSlice input =
     (case GetVarint32 input of
        None \<Rightarrow> (input, None)
      | Some (len, input) \<Rightarrow>
          if length input \<ge> unat len then (drop (unat len) input, Some (take (unat len) input))
          else (input, None))"

section \<open>The reference encoding\<close>

text \<open>Seven bits to a byte, the least significant group first; the top bit says that more follow.\<close>

function varint :: "nat \<Rightarrow> u8 list" where
  "varint v = (if v < 128 then [of_nat v] else of_nat (128 + v mod 128) # varint (v div 128))"
  by auto
termination by (relation "measure id") auto

declare varint.simps [simp del]

lemma varint_not_Nil [simp]: "varint v \<noteq> []"
  by (subst varint.simps) simp

lemma varint_length: "v < 128 ^ Suc n \<Longrightarrow> length (varint v) \<le> Suc n"
proof (induction n arbitrary: v)
  case 0
  then show ?case by (subst varint.simps) simp
next
  case (Suc n)
  then have "v div 128 < 128 ^ Suc n" by (simp add: div_less_iff_less_mult)
  then show ?case using Suc.IH [of "v div 128"] by (subst varint.simps) simp
qed

lemma varint_length_32: "length (varint (unat (v :: u32))) \<le> 5"
  using varint_length [of "unat v" 4] unsigned_less [of v, where 'a = nat] by simp

lemma varint_length_64: "length (varint (unat (v :: u64))) \<le> 10"
  using varint_length [of "unat v" 9] unsigned_less [of v, where 'a = nat] by simp

text \<open>The bytes of the reference as bit operations on words.\<close>

lemma bit_128: "bit (128 :: 'a::semiring_bits) n \<longleftrightarrow> possible_bit TYPE('a) n \<and> n = 7"
  using bit_exp_iff [where 'a = 'a, of 7 n] by auto

lemma byte_more:
  fixes w :: "'a::len word"
  assumes "8 \<le> LENGTH('a)"
  shows "ucast (w OR 128) = (of_nat (128 + unat w mod 128) :: u8)"
proof -
  have "unat w mod 128 = take_bit 7 (unat w)" by (simp add: take_bit_eq_mod)
  moreover have "128 + take_bit 7 (unat w) = 128 OR take_bit 7 (unat w)"
    by (rule disjunctive_add) (auto simp: bit_simps bit_128)
  ultimately show ?thesis using assms
    by (auto intro!: bit_word_eqI simp: bit_simps bit_unsigned_iff bit_128)
qed

lemma unat_shift: "unat (drop_bit k (w :: 'a::len word)) = unat w div 2 ^ k"
  unfolding unat_drop_bit_eq by (rule drop_bit_eq_div)

lemma varint_more:
  assumes "128 \<le> unat (w :: 'a::len word)" "8 \<le> LENGTH('a)"
  shows "varint (unat w) = ucast (w OR 128) # varint (unat (drop_bit 7 w))"
  using assms by (subst varint.simps) (simp add: byte_more unat_shift)

lemma varint_last: "unat (w :: 'a::len word) < 128 \<Longrightarrow> varint (unat w) = [ucast w]"
  by (subst varint.simps) simp

lemma EncodeVarint32_varint: "EncodeVarint32 v = varint (unat v)"
proof -
  have step: "varint (unat (drop_bit k v)) =
      (if unat v < 2 ^ (7 + k) then [ucast (drop_bit k v)]
       else ucast (drop_bit k v OR 128) # varint (unat (drop_bit (7 + k) v)))" for k
  proof (cases "unat v < 2 ^ (7 + k)")
    case True
    then have "unat (drop_bit k v) < 128" by (simp add: unat_shift power_add less_mult_imp_div_less)
    then show ?thesis using True by (simp add: varint_last)
  next
    case False
    then have "128 \<le> unat (drop_bit k v)" by (simp add: unat_shift power_add less_eq_div_iff_mult_less_eq not_less)
    then show ?thesis using False by (simp add: varint_more drop_bit_drop_bit)
  qed
  have top: "unat v < 34359738368" using unsigned_less [of v, where 'a = nat] by simp
  show ?thesis
    using step [of 0] step [of 7] step [of 14] step [of 21] step [of 28] top
    by (simp add: EncodeVarint32_def word_less_nat_alt)
qed

lemma EncodeVarint64_varint: "EncodeVarint64 v = varint (unat v)"
proof (induction v rule: EncodeVarint64.induct)
  case (1 v)
  have m: "(v AND 127) OR 128 = take_bit 8 (v OR 128)"
  proof (rule bit_word_eqI)
    fix n
    have "(v AND 127) = take_bit 7 v" by (simp add: take_bit_eq_mask mask_eq_decr_exp)
    then show "bit ((v AND 127) OR 128) n = bit (take_bit 8 (v OR 128)) n"
      by (auto simp: bit_simps bit_128)
  qed
  have "ucast ((v AND 127) OR 128) = (ucast (v OR 128) :: u8)"
    unfolding m by (rule bit_word_eqI) (simp add: bit_simps)
  then show ?case using 1
    by (subst EncodeVarint64.simps) (simp add: word_le_nat_alt varint_more varint_last)
qed

lemma VarintLength_varint: "VarintLength v = length (varint (unat v))"
proof -
  have "varint_len_loop v len = len + length (varint (unat v)) - 1" for len
  proof (induction v len rule: varint_len_loop.induct)
    case (1 v len)
    then show ?case
      by (subst varint_len_loop.simps) (simp add: word_le_nat_alt varint_more varint_last)
  qed
  then show ?thesis by (simp add: VarintLength_def)
qed

section \<open>Reading back\<close>

lemma byte_bits:
  assumes "128 \<le> v"
  defines "b \<equiv> of_nat (128 + v mod 128) :: u8"
  shows "b AND 128 \<noteq> 0" "ucast b AND (127 :: 'a::len word) = of_nat (take_bit 7 v)"
proof -
  have "v mod 128 = take_bit 7 v" by (simp add: take_bit_eq_mod)
  moreover have "128 + take_bit 7 v = 128 OR take_bit 7 v"
    by (rule disjunctive_add) (auto simp: bit_simps bit_128)
  ultimately have b: "bit b n \<longleftrightarrow> n = 7 \<or> n < 7 \<and> bit v n" for n
    by (auto simp: b_def bit_simps bit_128)
  then have "bit (b AND 128) 7" by (simp add: bit_simps bit_128)
  then show "b AND 128 \<noteq> 0" by auto
  have "ucast b AND (127 :: 'a word) = take_bit 7 (ucast b)" by (simp add: take_bit_eq_mask mask_eq_decr_exp)
  then show "ucast b AND (127 :: 'a word) = of_nat (take_bit 7 v)"
    by (auto intro!: bit_word_eqI simp: b bit_simps)
qed

lemma byte_single: "v < 128 \<Longrightarrow> (of_nat v :: u8) AND 128 = 0"
proof (rule bit_word_eqI)
  fix n
  assume "v < 128"
  then have "v = take_bit 7 v" by (simp add: take_bit_eq_mod)
  then have "\<not> bit v 7" by (metis bit_take_bit_iff less_irrefl)
  then show "bit ((of_nat v :: u8) AND 128) n = bit (0 :: u8) n" by (auto simp: bit_simps bit_128)
qed

lemma join_groups:
  "(result OR push_bit s (of_nat (take_bit 7 v))) OR push_bit (s + 7) (of_nat (v div 128)) =
   (result :: 'a::len word) OR push_bit s (of_nat v)"
proof (rule bit_word_eqI)
  fix n
  have d: "v div 128 = drop_bit 7 v" by (simp add: drop_bit_eq_div)
  show "bit ((result OR push_bit s (of_nat (take_bit 7 v))) OR push_bit (s + 7) (of_nat (v div 128))) n =
        bit (result OR push_bit s (of_nat v)) n"
  proof (cases "s + 7 \<le> n")
    case True
    then have "7 + (n - (s + 7)) = n - s" by simp
    then show ?thesis using True by (auto simp: d bit_simps)
  qed (auto simp: d bit_simps)
qed

lemma varint_loop_varint:
  "s + 7 * (length (varint v) - 1) \<le> bound \<Longrightarrow>
   varint_loop bound s (result :: 'a::len word) (varint v @ rest) = Some (result OR push_bit s (of_nat v), rest)"
proof (induction v arbitrary: s result rule: varint.induct)
  case (1 v)
  show ?case
  proof (cases "v < 128")
    case True
    then show ?thesis using 1 by (subst varint.simps) (simp add: byte_single unsigned_of_nat take_bit_nat_eq_self)
  next
    case False
    define b :: u8 where "b = of_nat (128 + v mod 128)"
    have v: "varint v = b # varint (v div 128)" using False by (subst varint.simps) (simp add: b_def)
    have b: "b AND 128 \<noteq> 0" "ucast b AND (127 :: 'a word) = of_nat (take_bit 7 v)"
      using False byte_bits [of v] by (simp_all add: b_def)
    have len: "s + 7 + 7 * (length (varint (v div 128)) - 1) \<le> bound"
      using "1.prems" by (cases "varint (v div 128)") (simp_all add: v)
    show ?thesis using "1.IH" [OF False len, of "result OR push_bit s (of_nat (take_bit 7 v))"] b len
      by (simp add: v join_groups del: push_bit_and)
  qed
qed

lemma varint_loop_truncated:
  "k < length (varint v) \<Longrightarrow> varint_loop bound s result (take k (varint v)) = None"
proof (induction v arbitrary: k s result rule: varint.induct)
  case (1 v)
  show ?case
  proof (cases "v < 128 \<or> k = 0")
    case True
    then show ?thesis using 1 by (auto simp: varint.simps [of v] split: if_splits)
  next
    case False
    then have "varint v = of_nat (128 + v mod 128) # varint (v div 128)" by (subst varint.simps) simp
    then show ?thesis using False 1 byte_bits(1) [of v] by (cases k) simp_all
  qed
qed

lemma GetVarint32Ptr_fallback: "GetVarint32Ptr p = varint_loop 28 0 0 p"
proof (cases p)
  case (Cons b q)
  have "(ucast b :: u32) AND 128 = ucast (b AND 128)"
    by (auto intro!: bit_word_eqI simp: bit_simps bit_128)
  moreover have "(ucast (b AND 128) :: u32) = 0 \<longleftrightarrow> b AND 128 = 0"
    by (auto simp: bit_eq_iff bit_simps bit_128)
  ultimately show ?thesis by (simp add: Cons GetVarint32Ptr_def GetVarint32PtrFallback_def)
qed (simp add: GetVarint32Ptr_def GetVarint32PtrFallback_def)

lemma GetVarint32_Put: "GetVarint32 (EncodeVarint32 v @ rest) = Some (v, rest)"
  using varint_loop_varint [where 'a = 32, of 0 "unat v" 28 0 rest] varint_length_32 [of v]
  by (simp add: GetVarint32_def GetVarint32Ptr_fallback EncodeVarint32_varint)

lemma GetVarint64_Put: "GetVarint64 (EncodeVarint64 v @ rest) = Some (v, rest)"
  using varint_loop_varint [where 'a = 64, of 0 "unat v" 63 0 rest] varint_length_64 [of v]
  by (simp add: GetVarint64_def GetVarint64Ptr_def EncodeVarint64_varint)

lemma GetVarint_truncated:
  "k < length (EncodeVarint32 v) \<Longrightarrow> GetVarint32 (take k (EncodeVarint32 v)) = None"
  "k < length (EncodeVarint64 w) \<Longrightarrow> GetVarint64 (take k (EncodeVarint64 w)) = None"
  by (simp_all add: GetVarint32_def GetVarint32Ptr_fallback EncodeVarint32_varint
      GetVarint64_def GetVarint64Ptr_def EncodeVarint64_varint varint_loop_truncated)

text \<open>A decoder never consumes more than the bytes it was given, and at least one.\<close>

lemma varint_loop_shorter: "varint_loop bound s r p = Some (v, q) \<Longrightarrow> length q < length p"
  by (induction bound s r p rule: varint_loop.induct) (fastforce split: if_splits)+

lemma GetVarint32_shorter: "GetVarint32 p = Some (v, q) \<Longrightarrow> length q < length p"
  by (auto simp: GetVarint32_def GetVarint32Ptr_fallback dest: varint_loop_shorter split: option.splits)

lemma GetLengthPrefixedSlice_Put:
  "length value < 2 ^ 32 \<Longrightarrow>
   GetLengthPrefixedSlice (PutLengthPrefixedSlice [] value @ rest) = (rest, Some value)"
  by (simp add: PutLengthPrefixedSlice_def GetLengthPrefixedSlice_def PutVarint32_def GetVarint32_Put
      unat_of_nat take_bit_nat_eq_self)

lemma GetLengthPrefixedSlicePtr_eq:
  "GetLengthPrefixedSlicePtr p =
     (case GetLengthPrefixedSlice p of (q, None) \<Rightarrow> None | (q, Some s) \<Rightarrow> Some (s, q))"
  by (auto simp: GetLengthPrefixedSlicePtr_def GetLengthPrefixedSlice_def GetVarint32_def split: option.splits)

lemma PutLengthPrefixedSlice_append:
  "PutLengthPrefixedSlice dst value = dst @ PutLengthPrefixedSlice [] value"
  by (simp add: PutLengthPrefixedSlice_def PutVarint32_def)

text \<open>Reading a given number of slices, as the readers of manifest and batch records do.\<close>

fun get_slices :: "nat \<Rightarrow> u8 list \<Rightarrow> (u8 list list \<times> u8 list) option" where
  "get_slices 0 input = Some ([], input)"
| "get_slices (Suc n) input =
     (case GetLengthPrefixedSlice input of
        (input, Some s) \<Rightarrow> (case get_slices n input of Some (ss, rest) \<Rightarrow> Some (s # ss, rest) | None \<Rightarrow> None)
      | (input, None) \<Rightarrow> None)"

lemma foldl_PutLengthPrefixedSlice:
  "foldl PutLengthPrefixedSlice dst ss = dst @ foldl PutLengthPrefixedSlice [] ss"
proof (induction ss arbitrary: dst)
  case (Cons s ss)
  show ?case
    using Cons.IH [of "PutLengthPrefixedSlice dst s"] Cons.IH [of "PutLengthPrefixedSlice [] s"]
    by (simp add: PutLengthPrefixedSlice_append [of dst s])
qed simp

lemma get_slices_Put:
  "list_all (\<lambda>s. length s < 2 ^ 32) ss \<Longrightarrow>
   get_slices (length ss) (foldl PutLengthPrefixedSlice [] ss @ rest) = Some (ss, rest)"
proof (induction ss arbitrary: rest)
  case (Cons s ss)
  have "foldl PutLengthPrefixedSlice [] (s # ss) = PutLengthPrefixedSlice [] s @ foldl PutLengthPrefixedSlice [] ss"
    using foldl_PutLengthPrefixedSlice [of "PutLengthPrefixedSlice [] s" ss] by simp
  then show ?case using Cons by (simp add: GetLengthPrefixedSlice_Put)
qed simp

section \<open>Fixed-width round trips\<close>

lemma byte_at: "ucast (drop_bit k (v :: 'a::len word) AND 0xff) = (word_of_int (uint v div 2 ^ k) :: u8)"
proof -
  have "drop_bit k v AND 0xff = take_bit 8 (drop_bit k v)" by (simp add: take_bit_eq_mask mask_eq_decr_exp)
  moreover have "uint v div 2 ^ k = drop_bit k (uint v)" by (simp add: drop_bit_eq_div)
  ultimately show ?thesis by (auto intro!: bit_word_eqI simp: bit_simps dest: bit_imp_le_length)
qed

lemma EncodeFixed_le:
  "EncodeFixed32 kLittleEndian v = le_bytes 4 (uint v)"
  "EncodeFixed64 kLittleEndian w = le_bytes 8 (uint w)"
proof -
  show "EncodeFixed32 kLittleEndian v = le_bytes 4 (uint v)"
    using byte_at [of 0 v] byte_at [of 8 v] byte_at [of 16 v] byte_at [of 24 v]
    by (simp add: EncodeFixed32_def numeral_eq_Suc flip: zdiv_zmult2_eq)
  show "EncodeFixed64 kLittleEndian w = le_bytes 8 (uint w)"
    using byte_at [of 0 w] byte_at [of 8 w] byte_at [of 16 w] byte_at [of 24 w]
      byte_at [of 32 w] byte_at [of 40 w] byte_at [of 48 w] byte_at [of 56 w]
    by (simp add: EncodeFixed64_def numeral_eq_Suc flip: zdiv_zmult2_eq)
qed

lemma or_bytes:
  "((ucast b0 OR push_bit 8 (ucast b1)) OR push_bit 16 (ucast b2)) OR push_bit 24 (ucast b3) =
   (word_of_int (le_int [b0, b1, b2, b3]) :: u32)"
proof -
  let ?a = "ucast b0 :: u32" and ?b = "push_bit 8 (ucast b1) :: u32"
    and ?c = "push_bit 16 (ucast b2) :: u32" and ?d = "push_bit 24 (ucast b3) :: u32"
  have "?a OR ?b = ?a + ?b"
    by (rule disjunctive_add [symmetric]) (auto simp: bit_simps dest: bit_imp_le_length)
  moreover have "(?a OR ?b) OR ?c = (?a OR ?b) + ?c"
    by (rule disjunctive_add [symmetric]) (auto simp: bit_simps dest: bit_imp_le_length)
  moreover have "((?a OR ?b) OR ?c) OR ?d = ((?a OR ?b) OR ?c) + ?d"
    by (rule disjunctive_add [symmetric]) (auto simp: bit_simps dest: bit_imp_le_length)
  moreover have "word_of_int (le_int [b0, b1, b2, b3]) = ?a + ?b + ?c + ?d"
    by (simp add: push_bit_eq_mult algebra_simps)
  ultimately show ?thesis by simp
qed

lemma or_halves: "push_bit 32 (ucast (hi :: u32)) OR ucast (lo :: u32) = (word_of_int (uint lo + 2 ^ 32 * uint hi) :: u64)"
proof -
  have "push_bit 32 (ucast hi :: u64) OR ucast lo = push_bit 32 (ucast hi) + ucast lo"
    by (rule disjunctive_add [symmetric]) (auto simp: bit_simps dest: bit_imp_le_length)
  then show ?thesis by (simp add: push_bit_eq_mult algebra_simps)
qed

lemma DecodeFixed32_le:
  assumes "4 \<le> length p"
  shows "DecodeFixed32 kLittleEndian p = Some (word_of_int (le_int (take 4 p)))"
proof -
  obtain b0 b1 b2 b3 q where "p = b0 # b1 # b2 # b3 # q"
    using assms by (metis (no_types, opaque_lifting) Suc_le_length_iff numeral_eq_Suc pred_numeral_simps(2,3) semiring_norm(26,27,28))
  then show ?thesis by (simp add: DecodeFixed32_def or_bytes)
qed

lemma DecodeFixed64_le:
  assumes "8 \<le> length p"
  shows "DecodeFixed64 kLittleEndian p = Some (word_of_int (le_int (take 8 p)))"
proof -
  let ?lo = "le_int (take 4 p)" and ?hi = "le_int (take 4 (drop 4 p))"
  have "take 8 p = take 4 p @ take 4 (drop 4 p)" using take_add [of 4 4 p] by simp
  then have "le_int (take 8 p) = ?lo + 2 ^ 32 * ?hi" using assms by (simp add: le_int_append)
  moreover have "ucast (word_of_int ?lo :: u32) = (word_of_int ?lo :: u64)"
    "ucast (word_of_int ?hi :: u32) = (word_of_int ?hi :: u64)"
    using le_int_bounds [of "take 4 p"] le_int_bounds [of "take 4 (drop 4 p)"] assms
    by (simp_all add: unsigned_of_int take_bit_int_eq_self)
  ultimately show ?thesis using assms
    by (simp add: DecodeFixed64_def DecodeFixed32_le or_halves)
qed

lemma DecodeFixed_Encode [simp]:
  "DecodeFixed32 e' (EncodeFixed32 e v @ rest) = Some v"
  "DecodeFixed64 e' (EncodeFixed64 e w @ rest) = Some w"
  by (simp_all add: EncodeFixed_le DecodeFixed32_le DecodeFixed64_le word_le_bytes)

lemma length_EncodeFixed [simp]:
  "length (EncodeFixed32 e v) = 4" "length (EncodeFixed64 e w) = 8"
  by (simp_all add: EncodeFixed_le)

text \<open>
  C35. Encodings read back. A fixed-width number written on a machine of either byte order is read
  back on a machine of either byte order; a varint is read back with the bytes after it untouched,
  takes at most five or ten bytes, as many as VarintLength says, and no proper prefix of it is
  accepted; and any number of length-prefixed strings below 4 GiB is read back in order.
\<close>

theorem coding_roundtrip:
  assumes "list_all (\<lambda>s. length s < 2 ^ 32) ss"
    and "k < length (PutVarint32 [] v)" and "l < length (PutVarint64 [] w)"
  shows "DecodeFixed32 e' (PutFixed32 e [] v @ rest) = Some v \<and>
    DecodeFixed64 e' (PutFixed64 e [] w @ rest) = Some w \<and>
    GetVarint32 (PutVarint32 [] v @ rest) = Some (v, rest) \<and>
    GetVarint64 (PutVarint64 [] w @ rest) = Some (w, rest) \<and>
    length (PutVarint32 [] v) \<le> 5 \<and> length (PutVarint64 [] w) \<le> 10 \<and>
    VarintLength w = length (PutVarint64 [] w) \<and>
    GetVarint32 (take k (PutVarint32 [] v)) = None \<and>
    GetVarint64 (take l (PutVarint64 [] w)) = None \<and>
    get_slices (length ss) (foldl PutLengthPrefixedSlice [] ss @ rest) = Some (ss, rest)"
  using assms varint_length_32 [of v] varint_length_64 [of w]
  by (simp add: PutFixed32_def PutFixed64_def PutVarint32_def PutVarint64_def GetVarint32_Put GetVarint64_Put
      GetVarint_truncated get_slices_Put VarintLength_varint EncodeVarint32_varint [symmetric] EncodeVarint64_varint [symmetric])

theorem coding_roundtrip_witness:
  "list_all (\<lambda>s. length s < 2 ^ 32) [[1, 2], [], [7 :: u8]] \<and>
   1 < length (PutVarint32 [] 300) \<and> 2 < length (PutVarint64 [] 1000000) \<and>
   GetVarint64 (PutVarint64 [] 1000000 @ [9]) = Some (1000000, [9]) \<and>
   GetVarint32 (take 1 (PutVarint32 [] 300)) = None \<and>
   get_slices 3 (foldl PutLengthPrefixedSlice [] [[1, 2], [], [7]] @ [9]) = Some ([[1, 2], [], [7]], [9])"
proof -
  have "1 < length (PutVarint32 [] 300)" "2 < length (PutVarint64 [] 1000000)" by code_simp+
  then show ?thesis
    using coding_roundtrip [of "[[1, 2], [], [7]]" 1 300 2 1000000 True False "[9]"]
    by (simp add: numeral_3_eq_3)
qed

end
