(* ===== verification/Level_Bloom.thy ===== *)
theory Level_Bloom
  imports Hashing Level_Coding
begin

text \<open>
  The hash of LevelDB (util/hash.cc) and the Bloom filter built from it (util/bloom.cc). Sizes are
  64-bit words that wrap; a filter is appended to a byte string and read back as a slice. None is
  undefined behaviour: an access outside the string, a remainder by zero, or the conversion of a
  negative floating-point number to an unsigned one. Growing the string always succeeds.
\<close>

unbundle bit_operations_syntax

section \<open>The hash\<close>

definition hash_m :: u32 where "hash_m = 0xc6a4a793"

definition hash_step :: "u32 \<Rightarrow> u32 \<Rightarrow> u32" where
  "hash_step h w =
     (let h = h + w;
          h = h * hash_m
      in h XOR drop_bit 16 h)"

definition hash_tail :: "u32 \<Rightarrow> u8 list \<Rightarrow> u32" where
  "hash_tail h data =
     (case data of
        [d0, d1, d2] \<Rightarrow> (let h = ((h + push_bit 16 (ucast d2)) + push_bit 8 (ucast d1)) + ucast d0; h = h * hash_m in h XOR drop_bit 24 h)
      | [d0, d1] \<Rightarrow> (let h = (h + push_bit 8 (ucast d1)) + ucast d0; h = h * hash_m in h XOR drop_bit 24 h)
      | [d0] \<Rightarrow> (let h = h + ucast d0; h = h * hash_m in h XOR drop_bit 24 h)
      | _ \<Rightarrow> h)"

definition Hash :: "u8 list \<Rightarrow> u32 \<Rightarrow> u32" where
  "Hash data seed =
     (case hash_blocks hash_step (seed XOR word_of_nat (length data) * hash_m) data of
        (h, rest) \<Rightarrow> hash_tail h rest)"

section \<open>The filter policy\<close>

definition BloomHash :: "u8 list \<Rightarrow> u32" where
  "BloomHash key = Hash key 0xbc9f1d34"

record BloomFilterPolicy =
  bits_per_key :: u64
  policy_k :: nat

text \<open>
  The product with 0.69 is computed in double precision and cut to an integer. Up to 43 bits per key
  no product is within rounding distance of an integer, and above that the limit of 30 applies, so
  exact hundredths give the same number of probes.
\<close>

definition new_BloomFilterPolicy :: "int \<Rightarrow> BloomFilterPolicy option" where
  "new_BloomFilterPolicy bits =
     (if bits * 69 \<le> - 100 then None
      else
        let k = nat (bits * 69) div 100;
            k = (if k < 1 then 1 else k);
            k = (if k > 30 then 30 else k)
        in Some \<lparr>bits_per_key = word_of_int bits, policy_k = k\<rparr>)"

text \<open>The position of a probe: the hash, widened, modulo the number of bits, as 32 bits.\<close>

definition bit_pos :: "u64 \<Rightarrow> u32 \<Rightarrow> u32 option" where
  "bit_pos bits h = (if bits = 0 then None else Some (ucast ((ucast h :: u64) mod bits)))"

fun set_probes :: "nat \<Rightarrow> u64 \<Rightarrow> u32 \<Rightarrow> u32 \<Rightarrow> nat \<Rightarrow> u8 list \<Rightarrow> u8 list option" where
  "set_probes 0 bits h delta array dst = Some dst"
| "set_probes (Suc j) bits h delta array dst = do {
     bitpos \<leftarrow> bit_pos bits h;
     c \<leftarrow> nth_opt dst (array + unat (bitpos div 8));
     dst \<leftarrow> upd_opt dst (array + unat (bitpos div 8)) (c OR push_bit (unat (bitpos mod 8)) 1);
     set_probes j bits (h + delta) delta array dst }"

fun add_keys :: "nat \<Rightarrow> u64 \<Rightarrow> u8 list list \<Rightarrow> nat \<Rightarrow> u8 list \<Rightarrow> u8 list option" where
  "add_keys k bits [] array dst = Some dst"
| "add_keys k bits (key # keys) array dst = do {
     let h = BloomHash key;
     let delta = drop_bit 17 h OR push_bit 15 h;
     dst \<leftarrow> set_probes k bits h delta array dst;
     add_keys k bits keys array dst }"

definition CreateFilter :: "BloomFilterPolicy \<Rightarrow> u8 list list \<Rightarrow> u8 list \<Rightarrow> u8 list option" where
  "CreateFilter p keys dst = do {
     let bits = word_of_nat (length keys) * bits_per_key p;
     let bits = (if bits < 64 then 64 else bits);
     let bytes = (bits + 7) div 8;
     let bits = bytes * 8;
     let init_size = length dst;
     let dst = dst @ replicate (unat bytes) 0;
     let dst = dst @ [of_nat (policy_k p)];
     add_keys (policy_k p) bits keys init_size dst }"

fun test_probes :: "nat \<Rightarrow> u64 \<Rightarrow> u32 \<Rightarrow> u32 \<Rightarrow> u8 list \<Rightarrow> bool option" where
  "test_probes 0 bits h delta array = Some True"
| "test_probes (Suc j) bits h delta array = do {
     bitpos \<leftarrow> bit_pos bits h;
     c \<leftarrow> nth_opt array (unat (bitpos div 8));
     if c AND push_bit (unat (bitpos mod 8)) 1 = 0 then Some False
     else test_probes j bits (h + delta) delta array }"

definition KeyMayMatch :: "u8 list \<Rightarrow> u8 list \<Rightarrow> bool option" where
  "KeyMayMatch key bloom_filter =
     (if length bloom_filter < 2 then Some False
      else do {
        let bits = (word_of_nat (length bloom_filter) - 1) * 8;
        c \<leftarrow> nth_opt bloom_filter (length bloom_filter - 1);
        let k = unat (scast c :: u64);
        if k > 30 then Some True
        else do {
          let h = BloomHash key;
          let delta = drop_bit 17 h OR push_bit 15 h;
          test_probes k bits h delta bloom_filter } })"

section \<open>The hash separates keys that differ in one block\<close>

lemma hash_mult_inject: "x * hash_m = y * hash_m \<Longrightarrow> x = y"
proof -
  have "hash_m * 0xd8198e9b = 1" by (simp add: hash_m_def)
  then show "x * hash_m = y * hash_m \<Longrightarrow> x = y" by (rule odd_mult_inject)
qed

lemma hash_tail_eq:
  "length data < 4 \<Longrightarrow>
   hash_tail h data = (if data = [] then h else (let h = (h + le32 data) * hash_m in h XOR drop_bit 24 h))"
  by (auto simp: hash_tail_def le32_def push_bit_eq_mult algebra_simps split: list.splits)

interpretation lvl: block_hash hash_step hash_tail
proof
  fix h h' k k' :: u32 and t t' :: "u8 list"
  show "h = h'" if "hash_step h k = hash_step h' k"
    using that unfolding hash_step_def Let_def
    by (auto dest!: xor_shift_inject [OF _ zero_less_numeral] hash_mult_inject)
  show "k = k'" if "hash_step h k = hash_step h k'"
    using that unfolding hash_step_def Let_def
    by (auto dest!: xor_shift_inject [OF _ zero_less_numeral] hash_mult_inject)
  show "h = h'" if "hash_tail h t = hash_tail h' t"
    using that by (auto simp: hash_tail_def Let_def
        dest!: xor_shift_inject [OF _ zero_less_numeral] hash_mult_inject split: list.splits)
  show "t = t'" if "length t = length t'" "length t' < 4" "hash_tail h t = hash_tail h t'"
    using that le32_inject [of t t']
    by (auto simp: hash_tail_eq Let_def dest!: xor_shift_inject [OF _ zero_less_numeral] hash_mult_inject split: if_splits)
qed

lemma Hash_block:
  assumes "differ_in_block xs ys"
  shows "Hash xs seed \<noteq> Hash ys seed"
proof -
  have "length xs = length ys" using assms by (simp add: differ_in_block_def)
  then show ?thesis using lvl.differ_detected [OF assms] by (simp add: Hash_def)
qed

section \<open>No false negatives\<close>

text \<open>The bits a key asks for.\<close>

fun probes :: "nat \<Rightarrow> nat \<Rightarrow> u32 \<Rightarrow> u32 \<Rightarrow> nat set" where
  "probes 0 bits h delta = {}"
| "probes (Suc j) bits h delta = insert (unat h mod bits) (probes j bits (h + delta) delta)"

definition key_probes :: "nat \<Rightarrow> nat \<Rightarrow> u8 list \<Rightarrow> nat set" where
  "key_probes k bits key = probes k bits (BloomHash key) (drop_bit 17 (BloomHash key) OR push_bit 15 (BloomHash key))"

definition bit_at :: "u8 list \<Rightarrow> nat \<Rightarrow> nat \<Rightarrow> bool" where
  "bit_at dst array n \<longleftrightarrow> bit (dst ! (array + n div 8)) (n mod 8)"

lemma unat_bit_pos:
  assumes "bits \<noteq> 0"
  shows "\<exists>bp. bit_pos bits h = Some bp \<and> unat bp = unat h mod unat bits"
proof -
  have "unat h mod unat bits < 2 ^ 32"
    by (rule le_less_trans [OF mod_less_eq_dividend]) (use unsigned_less [of h, where 'a = nat] in simp)
  moreover have "take_bit 64 (unat h) = unat h"
    by (rule take_bit_nat_eq_self) (use unsigned_less [of h, where 'a = nat] in simp)
  ultimately show ?thesis using assms
    by (simp add: bit_pos_def unsigned_ucast_eq unat_mod_distrib take_bit_nat_eq_self)
qed

lemma bit_at_set:
  assumes "array + q div 8 < length dst"
  shows "bit_at (dst[array + q div 8 := dst ! (array + q div 8) OR push_bit (q mod 8) 1]) array n \<longleftrightarrow>
         bit_at dst array n \<or> n = q"
proof -
  have "n = q \<longleftrightarrow> n div 8 = q div 8 \<and> n mod 8 = q mod 8" by (metis div_mult_mod_eq)
  then show ?thesis using assms
    by (auto simp: bit_at_def nth_list_update bit_or_iff bit_exp_iff)
qed

definition filter_room :: "u64 \<Rightarrow> nat \<Rightarrow> nat \<Rightarrow> u8 list \<Rightarrow> bool" where
  "filter_room bits bytes array dst \<longleftrightarrow> unat bits = 8 * bytes \<and> 0 < bytes \<and> array + bytes \<le> length dst"

definition only_filter :: "nat \<Rightarrow> nat \<Rightarrow> u8 list \<Rightarrow> u8 list \<Rightarrow> bool" where
  "only_filter bytes array dst dst' \<longleftrightarrow>
     length dst' = length dst \<and> take array dst' = take array dst \<and> drop (array + bytes) dst' = drop (array + bytes) dst"

lemma only_filter_update: "i < bytes \<Longrightarrow> only_filter bytes array dst (dst[array + i := c])"
  by (simp add: only_filter_def)

lemma only_filter_trans:
  "only_filter bytes array d1 d2 \<Longrightarrow> only_filter bytes array d2 d3 \<Longrightarrow> only_filter bytes array d1 d3"
  by (simp add: only_filter_def)

lemma set_probes_ok:
  "filter_room bits bytes array dst \<Longrightarrow>
   \<exists>dst'. set_probes j bits h delta array dst = Some dst' \<and> only_filter bytes array dst dst' \<and>
     (\<forall>n. bit_at dst' array n \<longleftrightarrow> bit_at dst array n \<or> n \<in> probes j (unat bits) h delta)"
proof (induction j arbitrary: h dst)
  case 0
  then show ?case by (simp add: only_filter_def)
next
  case (Suc j)
  let ?q = "unat h mod unat bits"
  have nz: "bits \<noteq> 0" and q: "?q div 8 < bytes"
    using Suc.prems by (auto simp: filter_room_def less_mult_imp_div_less mult.commute)
  obtain bp where bp: "bit_pos bits h = Some bp" "unat bp = ?q" using unat_bit_pos [OF nz] by blast
  have pos: "unat (bp div 8) = ?q div 8" "unat (bp mod 8) = ?q mod 8"
    by (simp_all add: unat_div_distrib unat_mod_distrib bp(2))
  let ?dst = "dst[array + ?q div 8 := dst ! (array + ?q div 8) OR push_bit (?q mod 8) 1]"
  have len: "array + ?q div 8 < length dst" using Suc.prems q by (simp add: filter_room_def)
  have "filter_room bits bytes array ?dst" using Suc.prems by (simp add: filter_room_def)
  then obtain dst' where d: "set_probes j bits (h + delta) delta array ?dst = Some dst'" "only_filter bytes array ?dst dst'"
    "\<forall>n. bit_at dst' array n \<longleftrightarrow> bit_at ?dst array n \<or> n \<in> probes j (unat bits) (h + delta) delta"
    using Suc.IH by blast
  have "only_filter bytes array dst dst'"
    using only_filter_update [OF q] d(2) by (rule only_filter_trans)
  moreover have "set_probes (Suc j) bits h delta array dst = Some dst'"
    using d(1) len by (simp add: bp(1) pos)
  ultimately show ?case using d(3) bit_at_set [OF len] by auto
qed

lemma add_keys_ok:
  "filter_room bits bytes array dst \<Longrightarrow>
   \<exists>dst'. add_keys k bits keys array dst = Some dst' \<and> only_filter bytes array dst dst' \<and>
     (\<forall>n. bit_at dst' array n \<longleftrightarrow> bit_at dst array n \<or> (\<exists>key\<in>set keys. n \<in> key_probes k (unat bits) key))"
proof (induction keys arbitrary: dst)
  case Nil
  then show ?case by (simp add: only_filter_def)
next
  case (Cons key keys)
  let ?h = "BloomHash key"
  let ?delta = "drop_bit 17 ?h OR push_bit 15 ?h"
  obtain d1 where d1: "set_probes k bits ?h ?delta array dst = Some d1" "only_filter bytes array dst d1"
    "\<forall>n. bit_at d1 array n \<longleftrightarrow> bit_at dst array n \<or> n \<in> key_probes k (unat bits) key"
    using set_probes_ok [OF Cons.prems, of k ?h ?delta] unfolding key_probes_def by blast
  have "filter_room bits bytes array d1" using Cons.prems d1(2) by (simp add: filter_room_def only_filter_def)
  then obtain d2 where d2: "add_keys k bits keys array d1 = Some d2" "only_filter bytes array d1 d2"
    "\<forall>n. bit_at d2 array n \<longleftrightarrow> bit_at d1 array n \<or> (\<exists>key\<in>set keys. n \<in> key_probes k (unat bits) key)"
    using Cons.IH by blast
  then show ?case using d1 only_filter_trans [OF d1(2) d2(2)] by auto
qed

lemma test_probes_ok:
  "filter_room bits bytes 0 dst \<Longrightarrow>
   test_probes j bits h delta dst = Some (\<forall>n\<in>probes j (unat bits) h delta. bit_at dst 0 n)"
proof (induction j arbitrary: h)
  case (Suc j)
  let ?q = "unat h mod unat bits"
  have nz: "bits \<noteq> 0" and "?q div 8 < bytes"
    using Suc.prems by (auto simp: filter_room_def less_mult_imp_div_less mult.commute)
  then have q: "?q div 8 < length dst" using Suc.prems by (simp add: filter_room_def)
  obtain bp where bp: "bit_pos bits h = Some bp" "unat bp = ?q" using unat_bit_pos [OF nz] by blast
  have pos: "unat (bp div 8) = ?q div 8" "unat (bp mod 8) = ?q mod 8"
    by (simp_all add: unat_div_distrib unat_mod_distrib bp(2))
  have "dst ! (?q div 8) AND push_bit (?q mod 8) 1 = 0 \<longleftrightarrow> \<not> bit_at dst 0 ?q"
    by (simp add: bit_at_def push_bit_of_1 and_exp_eq_0_iff_not_bit)
  then show ?case using Suc q by (simp add: bp(1) pos)
qed simp

text \<open>The number of bits of a filter.\<close>

definition filter_bytes :: "nat \<Rightarrow> nat \<Rightarrow> nat" where
  "filter_bytes n b = (max 64 (n * b) + 7) div 8"

lemma product_bound: "n < 2 ^ 31 \<Longrightarrow> b < 2 ^ 31 \<Longrightarrow> n * b < (2 :: nat) ^ 62"
  using mult_strict_mono [of n "2 ^ 31" b "2 ^ 31"] by simp

lemma CreateFilter_size:
  assumes "n < 2 ^ 31" "b < 2 ^ 31"
  defines "bits \<equiv> word_of_nat n * word_of_nat b :: u64"
  defines "bytes \<equiv> ((if bits < 64 then 64 else bits) + 7) div 8"
  shows "unat bytes = filter_bytes n b" "unat (bytes * 8) = 8 * filter_bytes n b"
proof -
  have nb: "n * b < 2 ^ 62" using assms(1,2) by (rule product_bound)
  have "unat bits = n * b" unfolding bits_def of_nat_mult [symmetric] unat_of_nat
    using nb by (simp add: take_bit_nat_eq_self)
  then have m: "unat (if bits < 64 then 64 else bits) = max 64 (n * b)"
    by (simp add: word_less_nat_alt max_def)
  have "unat ((if bits < 64 then 64 else bits) + 7) = max 64 (n * b) + 7"
    using nb unfolding unat_word_ariths m by simp
  then show b: "unat bytes = filter_bytes n b"
    by (simp add: bytes_def unat_div_distrib filter_bytes_def)
  have "filter_bytes n b * 8 < 2 ^ 64" using nb unfolding filter_bytes_def by simp
  then show "unat (bytes * 8) = 8 * filter_bytes n b"
    unfolding unat_word_ariths b by (simp add: mult.commute)
qed

lemma CreateFilter_ok:
  assumes "length keys < 2 ^ 31" "b < 2 ^ 31" "bits_per_key p = word_of_nat b"
  defines "bytes \<equiv> filter_bytes (length keys) b"
  shows "\<exists>f. CreateFilter p keys dst = Some (dst @ f) \<and> length f = Suc bytes \<and> f ! bytes = of_nat (policy_k p) \<and>
     (\<forall>n<8 * bytes. bit_at f 0 n \<longleftrightarrow> (\<exists>key\<in>set keys. n \<in> key_probes (policy_k p) (8 * bytes) key))"
proof -
  define bits0 :: u64 where "bits0 = word_of_nat (length keys) * word_of_nat b"
  define w :: u64 where "w = ((if bits0 < 64 then 64 else bits0) + 7) div 8"
  have w: "unat w = bytes" "unat (w * 8) = 8 * bytes"
    using CreateFilter_size [OF assms(1,2)] unfolding w_def bits0_def bytes_def by auto
  have pos: "0 < bytes" by (simp add: bytes_def filter_bytes_def)
  let ?d = "(dst @ replicate bytes 0) @ [of_nat (policy_k p)]"
  have "filter_room (w * 8) bytes (length dst) ?d" using w pos by (simp add: filter_room_def)
  from add_keys_ok [OF this] obtain d' where d': "add_keys (policy_k p) (w * 8) keys (length dst) ?d = Some d'"
    "only_filter bytes (length dst) ?d d'"
    "\<forall>n. bit_at d' (length dst) n \<longleftrightarrow> bit_at ?d (length dst) n \<or> (\<exists>key\<in>set keys. n \<in> key_probes (policy_k p) (unat (w * 8)) key)"
    by blast
  define f where "f = drop (length dst) d'"
  have split: "d' = dst @ f" using d'(2) append_take_drop_id [of "length dst" d'] by (simp add: f_def only_filter_def)
  have len: "length f = Suc bytes" "drop bytes f = [of_nat (policy_k p)]"
    using d'(2) by (simp_all add: f_def only_filter_def add.commute)
  then have last: "f ! bytes = of_nat (policy_k p)"
    using nth_via_drop [of bytes f "of_nat (policy_k p)" "[]"] by simp
  have "\<not> bit_at ?d (length dst) n" if "n < 8 * bytes" for n
    using that by (simp add: bit_at_def nth_append less_mult_imp_div_less mult.commute)
  then have "bit_at f 0 n \<longleftrightarrow> (\<exists>key\<in>set keys. n \<in> key_probes (policy_k p) (8 * bytes) key)" if "n < 8 * bytes" for n
    using d'(3) that w(2) by (simp add: split bit_at_def)
  moreover have "CreateFilter p keys dst = Some (dst @ f)"
    using d'(1) w by (simp add: CreateFilter_def Let_def assms(3) bits0_def [symmetric] w_def [symmetric] split)
  ultimately show ?thesis using len last by blast
qed

lemma probes_less: "0 < bits \<Longrightarrow> n \<in> probes j bits h delta \<Longrightarrow> n < bits"
  by (induction j arbitrary: h) auto

lemma KeyMayMatch_ok:
  assumes "length f = Suc bytes" "f ! bytes = of_nat k" "k \<le> 30" "0 < bytes" "bytes < 2 ^ 60"
  shows "KeyMayMatch key f = Some (\<forall>n\<in>key_probes k (8 * bytes) key. bit_at f 0 n)"
proof -
  let ?bits = "(word_of_nat (length f) - 1) * 8 :: u64"
  have "?bits = word_of_nat (8 * bytes)" using assms(1) by simp
  then have bits: "unat ?bits = 8 * bytes" using assms(5) by (simp only: unat_of_nat) (simp add: take_bit_nat_eq_self)
  have "filter_room ?bits bytes 0 f" using assms(1,4) bits by (simp add: filter_room_def)
  note t = test_probes_ok [OF this]
  have k: "unat (scast (of_nat k :: u8) :: u64) = k" using assms(3)
    by (simp add: signed_of_nat signed_take_bit_int_eq_self unat_of_nat take_bit_nat_eq_self)
  show ?thesis using assms(1-4) t [of k "BloomHash key"] k bits
    by (simp add: KeyMayMatch_def Let_def key_probes_def)
qed

text \<open>
  C34. The Bloom filter has no false negatives: for every set of keys, number of bits per key and
  string to append to, the filter is built without leaving its bytes, and every key it was built
  from matches it. It answers yes for another key exactly when every bit that key asks for was asked
  for by some key of the set, so a filter of no keys matches nothing.
\<close>

theorem bloom_no_false_negatives:
  assumes "0 \<le> b" "b < 2 ^ 31" "length keys < 2 ^ 31" "new_BloomFilterPolicy b = Some p"
  defines "bits \<equiv> 8 * filter_bytes (length keys) (nat b)"
  shows "\<exists>f. CreateFilter p keys dst = Some (dst @ f) \<and>
    (\<forall>key\<in>set keys. KeyMayMatch key f = Some True) \<and>
    (\<forall>key. KeyMayMatch key f =
       Some (key_probes (policy_k p) bits key \<subseteq> (\<Union>key\<in>set keys. key_probes (policy_k p) bits key)))"
proof -
  define bytes where "bytes = filter_bytes (length keys) (nat b)"
  have p: "bits_per_key p = word_of_nat (nat b)" "policy_k p \<le> 30"
    using assms(1,4) by (auto simp: new_BloomFilterPolicy_def Let_def split: if_splits)
  have b: "nat b < 2 ^ 31" using assms(1,2) by simp
  have bytes: "0 < bytes" "bytes < 2 ^ 60"
    using product_bound [OF assms(3) b] by (simp_all add: bytes_def filter_bytes_def)
  obtain f where f: "CreateFilter p keys dst = Some (dst @ f)" "length f = Suc bytes" "f ! bytes = of_nat (policy_k p)"
    "\<forall>n<8 * bytes. bit_at f 0 n \<longleftrightarrow> (\<exists>key\<in>set keys. n \<in> key_probes (policy_k p) (8 * bytes) key)"
    using CreateFilter_ok [OF assms(3) b p(1)] unfolding bytes_def by blast
  have "n < 8 * bytes" if "n \<in> key_probes (policy_k p) (8 * bytes) key" for n key
    using that bytes(1) by (simp add: key_probes_def probes_less)
  then have "KeyMayMatch key f =
      Some (key_probes (policy_k p) bits key \<subseteq> (\<Union>key\<in>set keys. key_probes (policy_k p) bits key))" for key
    using KeyMayMatch_ok [OF f(2,3) p(2) bytes] f(4) unfolding bits_def bytes_def [symmetric] by auto
  then show ?thesis using f(1) by auto
qed

theorem bloom_no_false_negatives_witness:
  "new_BloomFilterPolicy 10 = Some \<lparr>bits_per_key = 10, policy_k = 6\<rparr> \<and>
   (\<exists>f. CreateFilter \<lparr>bits_per_key = 10, policy_k = 6\<rparr> [[104, 105], []] [1] = Some (1 # f) \<and>
      KeyMayMatch [104, 105] f = Some True \<and> KeyMayMatch [] f = Some True)"
proof -
  have p: "new_BloomFilterPolicy 10 = Some \<lparr>bits_per_key = 10, policy_k = 6\<rparr>"
    by (simp add: new_BloomFilterPolicy_def)
  show ?thesis
    using p bloom_no_false_negatives [of 10 "[[104, 105], []]" "\<lparr>bits_per_key = 10, policy_k = 6\<rparr>" "[1]"] by auto
qed

end
