(* ===== verification/Level_Batch.thy ===== *)
theory Level_Batch
  imports Level_Coding "HOL-Library.Sublist"
begin

text \<open>
  The write batch of LevelDB (db/write_batch.cc): a byte string that holds a sequence number, a
  count and the records of the updates. None is undefined behaviour or a failed assertion: a read
  outside the string or the overflow of a signed counter. The handler that Iterate calls is given
  by its two functions on a state; the memtable is given by its Add operation.
\<close>

section \<open>Statuses and value types\<close>

datatype Status = OK | NotFound string | Corruption string | NotSupported string | InvalidArgument string | IOError string

definition ok :: "Status \<Rightarrow> bool" where
  "ok s \<longleftrightarrow> s = OK"

definition IsCorruption :: "Status \<Rightarrow> bool" where
  "IsCorruption s = (case s of Corruption _ \<Rightarrow> True | _ \<Rightarrow> False)"

datatype ValueType = kTypeDeletion | kTypeValue

definition tag_byte :: "ValueType \<Rightarrow> u8" where
  "tag_byte t = (case t of kTypeDeletion \<Rightarrow> 0 | kTypeValue \<Rightarrow> 1)"

section \<open>The batch\<close>

record WriteBatch =
  brep :: "u8 list"

definition kHeader :: nat where "kHeader = 12"

definition Clear :: "WriteBatch \<Rightarrow> WriteBatch" where
  "Clear b = b\<lparr>brep := replicate kHeader 0\<rparr>"

definition new_WriteBatch :: WriteBatch where
  "new_WriteBatch = Clear \<lparr>brep = []\<rparr>"

definition Count :: "bool \<Rightarrow> WriteBatch \<Rightarrow> int option" where
  "Count e b = do { n \<leftarrow> DecodeFixed32 e (drop 8 (brep b)); Some (sint n) }"

definition SetCount :: "bool \<Rightarrow> WriteBatch \<Rightarrow> int \<Rightarrow> WriteBatch option" where
  "SetCount e b n = do {
     rep \<leftarrow> wr_mem (brep b) 8 (EncodeFixed32 e (word_of_int n));
     Some (b\<lparr>brep := rep\<rparr>) }"

definition Sequence :: "bool \<Rightarrow> WriteBatch \<Rightarrow> u64 option" where
  "Sequence e b = DecodeFixed64 e (brep b)"

definition SetSequence :: "bool \<Rightarrow> WriteBatch \<Rightarrow> u64 \<Rightarrow> WriteBatch option" where
  "SetSequence e b seq = do {
     rep \<leftarrow> wr_mem (brep b) 0 (EncodeFixed64 e seq);
     Some (b\<lparr>brep := rep\<rparr>) }"

text \<open>The sum of two counters of type int.\<close>

definition int_add :: "int \<Rightarrow> int \<Rightarrow> int option" where
  "int_add x y = (if - (2 ^ 31) \<le> x + y \<and> x + y < 2 ^ 31 then Some (x + y) else None)"

definition Put :: "bool \<Rightarrow> u8 list \<Rightarrow> u8 list \<Rightarrow> WriteBatch \<Rightarrow> WriteBatch option" where
  "Put e key val b = do {
     n \<leftarrow> Count e b;
     n \<leftarrow> int_add n 1;
     b \<leftarrow> SetCount e b n;
     let rep = brep b @ [tag_byte kTypeValue];
     let rep = PutLengthPrefixedSlice rep key;
     let rep = PutLengthPrefixedSlice rep val;
     Some (b\<lparr>brep := rep\<rparr>) }"

definition Delete :: "bool \<Rightarrow> u8 list \<Rightarrow> WriteBatch \<Rightarrow> WriteBatch option" where
  "Delete e key b = do {
     n \<leftarrow> Count e b;
     n \<leftarrow> int_add n 1;
     b \<leftarrow> SetCount e b n;
     let rep = brep b @ [tag_byte kTypeDeletion];
     let rep = PutLengthPrefixedSlice rep key;
     Some (b\<lparr>brep := rep\<rparr>) }"

lemma GetLengthPrefixedSlice_le: "length (fst (GetLengthPrefixedSlice input)) \<le> length input"
  by (auto simp: GetLengthPrefixedSlice_def split: option.split dest: GetVarint32_shorter)

text \<open>
  The loop of Iterate: Inl is a status returned from inside the loop, Inr the number of records
  found when the input is empty.
\<close>

function iterate_loop ::
  "(u8 list \<Rightarrow> u8 list \<Rightarrow> 's \<Rightarrow> 's) \<Rightarrow> (u8 list \<Rightarrow> 's \<Rightarrow> 's) \<Rightarrow> int \<Rightarrow> u8 list \<Rightarrow> 's \<Rightarrow>
   ((Status + int) \<times> 's) option" where
  "iterate_loop hPut hDelete found input st =
     (case input of
        [] \<Rightarrow> Some (Inr found, st)
      | tag # input \<Rightarrow>
          (case int_add found 1 of
             None \<Rightarrow> None
           | Some found \<Rightarrow>
               if tag = tag_byte kTypeValue then
                 (case GetLengthPrefixedSlice input of
                    (_, None) \<Rightarrow> Some (Inl (Corruption ''bad WriteBatch Put''), st)
                  | (input1, Some key) \<Rightarrow>
                      (case GetLengthPrefixedSlice input1 of
                         (_, None) \<Rightarrow> Some (Inl (Corruption ''bad WriteBatch Put''), st)
                       | (input2, Some val) \<Rightarrow> iterate_loop hPut hDelete found input2 (hPut key val st)))
               else if tag = tag_byte kTypeDeletion then
                 (case GetLengthPrefixedSlice input of
                    (_, None) \<Rightarrow> Some (Inl (Corruption ''bad WriteBatch Delete''), st)
                  | (input1, Some key) \<Rightarrow> iterate_loop hPut hDelete found input1 (hDelete key st))
               else Some (Inl (Corruption ''unknown WriteBatch tag''), st)))"
  by auto
termination
  by (relation "measure (\<lambda>(_, _, _, input, _). length input)")
    (auto, metis GetLengthPrefixedSlice_le fst_conv le_imp_less_Suc le_trans,
      metis GetLengthPrefixedSlice_le fst_conv le_imp_less_Suc)

declare iterate_loop.simps [simp del]

definition Iterate ::
  "bool \<Rightarrow> (u8 list \<Rightarrow> u8 list \<Rightarrow> 's \<Rightarrow> 's) \<Rightarrow> (u8 list \<Rightarrow> 's \<Rightarrow> 's) \<Rightarrow> WriteBatch \<Rightarrow> 's \<Rightarrow> (Status \<times> 's) option" where
  "Iterate e hPut hDelete b st =
     (if length (brep b) < kHeader then Some (Corruption ''malformed WriteBatch (too small)'', st)
      else do {
        (r, st) \<leftarrow> iterate_loop hPut hDelete 0 (drop kHeader (brep b)) st;
        case r of
          Inl s \<Rightarrow> Some (s, st)
        | Inr found \<Rightarrow> do {
            n \<leftarrow> Count e b;
            if found \<noteq> n then Some (Corruption ''WriteBatch has wrong count'', st) else Some (OK, st) } })"

text \<open>The inserter: the next sequence number and the memtable.\<close>

definition inserter_Put ::
  "(u64 \<Rightarrow> ValueType \<Rightarrow> u8 list \<Rightarrow> u8 list \<Rightarrow> 'm \<Rightarrow> 'm) \<Rightarrow> u8 list \<Rightarrow> u8 list \<Rightarrow> u64 \<times> 'm \<Rightarrow> u64 \<times> 'm" where
  "inserter_Put add key val = (\<lambda>(sequence, mem). (sequence + 1, add sequence kTypeValue key val mem))"

definition inserter_Delete ::
  "(u64 \<Rightarrow> ValueType \<Rightarrow> u8 list \<Rightarrow> u8 list \<Rightarrow> 'm \<Rightarrow> 'm) \<Rightarrow> u8 list \<Rightarrow> u64 \<times> 'm \<Rightarrow> u64 \<times> 'm" where
  "inserter_Delete add key = (\<lambda>(sequence, mem). (sequence + 1, add sequence kTypeDeletion key [] mem))"

definition InsertInto ::
  "bool \<Rightarrow> (u64 \<Rightarrow> ValueType \<Rightarrow> u8 list \<Rightarrow> u8 list \<Rightarrow> 'm \<Rightarrow> 'm) \<Rightarrow> WriteBatch \<Rightarrow> 'm \<Rightarrow> (Status \<times> 'm) option" where
  "InsertInto e add b memtable = do {
     seq \<leftarrow> Sequence e b;
     (s, _, mem) \<leftarrow> Iterate e (inserter_Put add) (inserter_Delete add) b (seq, memtable);
     Some (s, mem) }"

definition SetContents :: "u8 list \<Rightarrow> WriteBatch \<Rightarrow> WriteBatch option" where
  "SetContents contents b = do { assert_opt (length contents \<ge> kHeader); Some (b\<lparr>brep := contents\<rparr>) }"

definition Append :: "bool \<Rightarrow> WriteBatch \<Rightarrow> WriteBatch \<Rightarrow> WriteBatch option" where
  "Append e dst src = do {
     n \<leftarrow> Count e dst;
     m \<leftarrow> Count e src;
     n \<leftarrow> int_add n m;
     dst \<leftarrow> SetCount e dst n;
     assert_opt (length (brep src) \<ge> kHeader);
     Some (dst\<lparr>brep := brep dst @ drop kHeader (brep src)\<rparr>) }"

section \<open>What a batch stands for\<close>

datatype update = Upd "u8 list" "u8 list" | Del "u8 list"

fun enc_update :: "update \<Rightarrow> u8 list" where
  "enc_update (Upd k v) = tag_byte kTypeValue # PutLengthPrefixedSlice [] k @ PutLengthPrefixedSlice [] v"
| "enc_update (Del k) = tag_byte kTypeDeletion # PutLengthPrefixedSlice [] k"

fun update_ok :: "update \<Rightarrow> bool" where
  "update_ok (Upd k v) \<longleftrightarrow> length k < 2 ^ 32 \<and> length v < 2 ^ 32"
| "update_ok (Del k) \<longleftrightarrow> length k < 2 ^ 32"

fun handle :: "(u8 list \<Rightarrow> u8 list \<Rightarrow> 's \<Rightarrow> 's) \<Rightarrow> (u8 list \<Rightarrow> 's \<Rightarrow> 's) \<Rightarrow> 's \<Rightarrow> update \<Rightarrow> 's" where
  "handle hPut hDelete st (Upd k v) = hPut k v st"
| "handle hPut hDelete st (Del k) = hDelete k st"

definition enc_batch :: "bool \<Rightarrow> u64 \<Rightarrow> update list \<Rightarrow> u8 list" where
  "enc_batch e seq us = EncodeFixed64 e seq @ EncodeFixed32 e (of_nat (length us)) @ concat (map enc_update us)"

definition batch_ok :: "bool \<Rightarrow> u64 \<Rightarrow> update list \<Rightarrow> WriteBatch \<Rightarrow> bool" where
  "batch_ok e seq us b \<longleftrightarrow> brep b = enc_batch e seq us \<and> length us < 2 ^ 31 \<and> list_all update_ok us"

lemma sint_count: "n < 2 ^ 31 \<Longrightarrow> sint (of_nat n :: u32) = int n"
  by (simp add: signed_of_nat signed_take_bit_int_eq_self)

lemma int_add_count: "n + m < 2 ^ 31 \<Longrightarrow> int_add (int n) (int m) = Some (int (n + m))"
  by (simp add: int_add_def)

lemma Count_batch: "batch_ok e seq us b \<Longrightarrow> Count e b = Some (int (length us))"
  by (simp add: batch_ok_def Count_def enc_batch_def sint_count)

lemma Sequence_batch: "batch_ok e seq us b \<Longrightarrow> Sequence e b = Some seq"
  by (simp add: batch_ok_def Sequence_def enc_batch_def)

lemma SetCount_batch:
  "batch_ok e seq us b \<Longrightarrow>
   SetCount e b (int n) =
     Some (b\<lparr>brep := EncodeFixed64 e seq @ EncodeFixed32 e (of_nat n) @ concat (map enc_update us)\<rparr>)"
  by (simp add: batch_ok_def SetCount_def enc_batch_def)

lemma int_add_one: "n + 1 < 2 ^ 31 \<Longrightarrow> int_add (int n) 1 = Some (int (n + 1))"
  by (simp add: int_add_def)

lemma Put_batch:
  assumes "batch_ok e seq us b" "length us + 1 < 2 ^ 31" "update_ok (Upd k v)"
  shows "\<exists>b'. Put e k v b = Some b' \<and> batch_ok e seq (us @ [Upd k v]) b'"
  using assms(2,3) assms(1) [unfolded batch_ok_def] Count_batch [OF assms(1)]
    int_add_one [OF assms(2)] SetCount_batch [OF assms(1), of "length us + 1"]
  by (simp add: Put_def Let_def batch_ok_def enc_batch_def
      PutLengthPrefixedSlice_append [of "PutLengthPrefixedSlice _ _"] PutLengthPrefixedSlice_append [of "_ @ _"])

lemma Delete_batch:
  assumes "batch_ok e seq us b" "length us + 1 < 2 ^ 31" "update_ok (Del k)"
  shows "\<exists>b'. Delete e k b = Some b' \<and> batch_ok e seq (us @ [Del k]) b'"
  using assms(2,3) assms(1) [unfolded batch_ok_def] Count_batch [OF assms(1)]
    int_add_one [OF assms(2)] SetCount_batch [OF assms(1), of "length us + 1"]
  by (simp add: Delete_def Let_def batch_ok_def enc_batch_def PutLengthPrefixedSlice_append [of "_ @ _"])

lemma Append_batch:
  assumes b: "batch_ok e seq us b" and c: "batch_ok e seq' vs c" and n: "length us + length vs < 2 ^ 31"
  shows "\<exists>b'. Append e b c = Some b' \<and> batch_ok e seq (us @ vs) b'"
  using assms(1) [unfolded batch_ok_def] assms(2) [unfolded batch_ok_def] Count_batch [OF b] Count_batch [OF c]
    int_add_count [OF n] SetCount_batch [OF b, of "length us + length vs"] n
  by (simp add: Append_def batch_ok_def enc_batch_def kHeader_def)

lemma SetSequence_batch:
  assumes "batch_ok e seq us b"
  shows "\<exists>b'. SetSequence e b seq' = Some b' \<and> batch_ok e seq' us b'"
  using assms by (simp add: SetSequence_def batch_ok_def enc_batch_def)

lemma Clear_batch: "batch_ok e 0 [] (Clear b)"
proof -
  have "EncodeFixed64 e 0 = replicate 8 0" "EncodeFixed32 e 0 = replicate 4 0"
    by (simp_all add: EncodeFixed_le numeral_eq_Suc)
  then show ?thesis by (simp add: batch_ok_def enc_batch_def Clear_def kHeader_def flip: replicate_add)
qed

section \<open>Replay\<close>

lemma iterate_loop_Nil [simp]: "iterate_loop hPut hDelete found [] st = Some (Inr found, st)"
  by (subst iterate_loop.simps) simp

lemma iterate_loop_update:
  assumes "update_ok u" "n + 1 < 2 ^ 31"
  shows "iterate_loop hPut hDelete (int n) (enc_update u @ rest) st =
         iterate_loop hPut hDelete (int (n + 1)) rest (handle hPut hDelete st u)"
  using assms(1) int_add_one [OF assms(2)]
  by (cases u; subst iterate_loop.simps) (simp_all add: GetLengthPrefixedSlice_Put tag_byte_def)

lemma iterate_loop_updates:
  assumes "list_all update_ok us" "n + length us < 2 ^ 31"
  shows "iterate_loop hPut hDelete (int n) (concat (map enc_update us) @ rest) st =
         iterate_loop hPut hDelete (int (n + length us)) rest (foldl (handle hPut hDelete) st us)"
  using assms
proof (induction us arbitrary: n st)
  case (Cons u us)
  then show ?case using Cons.IH [of "n + 1" "handle hPut hDelete st u"]
    by (simp add: iterate_loop_update add.commute add.left_commute del: of_nat_Suc)
qed simp

lemma Iterate_batch:
  assumes "batch_ok e seq us b"
  shows "Iterate e hPut hDelete b st = Some (OK, foldl (handle hPut hDelete) st us)"
  using assms Count_batch [OF assms] iterate_loop_updates [of us 0 hPut hDelete "[]" st]
  by (simp add: Iterate_def batch_ok_def enc_batch_def kHeader_def)

text \<open>A slice cut short is refused.\<close>

lemma GetLengthPrefixedSlice_cut:
  assumes "length s < 2 ^ 32" "k < length (PutLengthPrefixedSlice [] s)"
  shows "snd (GetLengthPrefixedSlice (take k (PutLengthPrefixedSlice [] s))) = None"
proof (cases "k < length (EncodeVarint32 (of_nat (length s)))")
  case True
  then show ?thesis
    by (simp add: PutLengthPrefixedSlice_def PutVarint32_def GetLengthPrefixedSlice_def GetVarint_truncated)
next
  case False
  then show ?thesis using assms
    by (simp add: PutLengthPrefixedSlice_def PutVarint32_def GetLengthPrefixedSlice_def GetVarint32_Put
        unat_of_nat take_bit_nat_eq_self less_diff_conv2)
qed

lemma iterate_loop_cut:
  assumes "update_ok u" "0 < k" "k < length (enc_update u)" "n + 1 < 2 ^ 31"
  shows "\<exists>m. iterate_loop hPut hDelete (int n) (take k (enc_update u)) st = Some (Inl (Corruption m), st)"
proof -
  obtain j where k: "k = Suc j" using assms(2) by (cases k) auto
  show ?thesis
  proof (cases u)
    case (Del key)
    then have "snd (GetLengthPrefixedSlice (take j (PutLengthPrefixedSlice [] key))) = None"
      using assms by (simp add: k GetLengthPrefixedSlice_cut)
    then show ?thesis using int_add_one [OF assms(4)]
      by (subst iterate_loop.simps) (auto simp: Del k tag_byte_def split: prod.split)
  next
    case (Upd key val)
    let ?p = "PutLengthPrefixedSlice [] key" and ?q = "PutLengthPrefixedSlice [] val"
    show ?thesis
    proof (cases "j < length ?p")
      case True
      then have "snd (GetLengthPrefixedSlice (take j ?p)) = None"
        using assms by (simp add: Upd GetLengthPrefixedSlice_cut)
      then show ?thesis using int_add_one [OF assms(4)] True
        by (subst iterate_loop.simps) (auto simp: Upd k tag_byte_def split: prod.split)
    next
      case False
      then have "snd (GetLengthPrefixedSlice (take (j - length ?p) ?q)) = None"
        using assms by (simp add: Upd k GetLengthPrefixedSlice_cut less_diff_conv2)
      then show ?thesis using int_add_one [OF assms(4)] False assms(1)
        by (subst iterate_loop.simps)
          (auto simp: Upd k tag_byte_def GetLengthPrefixedSlice_Put split: prod.split)
    qed
  qed
qed

lemma take_updates:
  "j < length (concat (map enc_update us)) \<Longrightarrow>
   \<exists>us1 u us2 i. us = us1 @ u # us2 \<and> i < length (enc_update u) \<and>
     take j (concat (map enc_update us)) = concat (map enc_update us1) @ take i (enc_update u)"
proof (induction us arbitrary: j)
  case (Cons u us)
  show ?case
  proof (cases "j < length (enc_update u)")
    case True
    then show ?thesis by (intro exI [of _ "[]"] exI [of _ u] exI [of _ us] exI [of _ j]) simp
  next
    case False
    then have "j - length (enc_update u) < length (concat (map enc_update us))" using Cons.prems by simp
    from Cons.IH [OF this] obtain us1 v us2 i where "us = us1 @ v # us2" "i < length (enc_update v)"
      "take (j - length (enc_update u)) (concat (map enc_update us)) = concat (map enc_update us1) @ take i (enc_update v)"
      by blast
    then show ?thesis using False
      by (intro exI [of _ "u # us1"] exI [of _ v] exI [of _ us2] exI [of _ i]) simp
  qed
qed simp

lemma Iterate_cut:
  assumes b: "batch_ok e seq us b" and k: "k < length (brep b)"
  shows "\<exists>m us'. prefix us' us \<and>
    Iterate e hPut hDelete (b\<lparr>brep := take k (brep b)\<rparr>) st = Some (Corruption m, foldl (handle hPut hDelete) st us')"
proof (cases "k < kHeader")
  case True
  then show ?thesis using k by (intro exI [of _ "[]"] exI) (simp add: Iterate_def)
next
  case False
  define j where "j = k - kHeader"
  define cut where "cut = b\<lparr>brep := take k (brep b)\<rparr>"
  have rep: "brep cut = EncodeFixed64 e seq @ EncodeFixed32 e (of_nat (length us)) @ take j (concat (map enc_update us))"
    and j: "j < length (concat (map enc_update us))"
    using b k False by (auto simp: cut_def batch_ok_def enc_batch_def j_def kHeader_def)
  obtain us1 u us2 i where us: "us = us1 @ u # us2" "i < length (enc_update u)"
    and t: "take j (concat (map enc_update us)) = concat (map enc_update us1) @ take i (enc_update u)"
    using take_updates [OF j] by blast
  have ok: "list_all update_ok us1" "update_ok u" "length us1 + 1 < 2 ^ 31" and n: "length us < 2 ^ 31"
    using b us by (auto simp: batch_ok_def)
  let ?st = "foldl (handle hPut hDelete) st us1"
  have loop: "iterate_loop hPut hDelete 0 (drop kHeader (brep cut)) st =
      iterate_loop hPut hDelete (int (length us1)) (take i (enc_update u)) ?st"
    using iterate_loop_updates [OF ok(1), of 0 hPut hDelete "take i (enc_update u)" st] ok(3)
    by (simp add: rep t kHeader_def)
  have count: "Count e cut = Some (int (length us))" using n by (simp add: Count_def rep sint_count)
  have size: "kHeader \<le> length (brep cut)" by (simp add: rep kHeader_def)
  have "\<exists>m. Iterate e hPut hDelete cut st = Some (Corruption m, ?st)"
  proof (cases "i = 0")
    case True
    then show ?thesis using loop count size by (simp add: Iterate_def us(1))
  next
    case False
    then obtain m where "iterate_loop hPut hDelete (int (length us1)) (take i (enc_update u)) ?st = Some (Inl (Corruption m), ?st)"
      using iterate_loop_cut [OF ok(2) _ us(2) ok(3), of hPut hDelete ?st] by auto
    then show ?thesis using loop size by (simp add: Iterate_def)
  qed
  moreover have "prefix us1 us" by (simp add: us(1))
  ultimately show ?thesis unfolding cut_def by blast
qed

section \<open>Building a batch\<close>

datatype command = CPut "u8 list" "u8 list" | CDelete "u8 list" | CClear | CSetSequence u64 | CAppend "command list"

fun run_command :: "bool \<Rightarrow> command \<Rightarrow> WriteBatch \<Rightarrow> WriteBatch option"
  and run_commands :: "bool \<Rightarrow> command list \<Rightarrow> WriteBatch \<Rightarrow> WriteBatch option" where
  "run_command e (CPut k v) b = Put e k v b"
| "run_command e (CDelete k) b = Delete e k b"
| "run_command e CClear b = Some (Clear b)"
| "run_command e (CSetSequence seq) b = SetSequence e b seq"
| "run_command e (CAppend cs) b = do { src \<leftarrow> run_commands e cs new_WriteBatch; Append e b src }"
| "run_commands e [] b = Some b"
| "run_commands e (c # cs) b = do { b \<leftarrow> run_command e c b; run_commands e cs b }"

text \<open>The same commands on a sequence number and a list of updates, within the limits of the format.\<close>

definition limit :: "u64 \<times> update list \<Rightarrow> (u64 \<times> update list) option" where
  "limit p = (if length (snd p) < 2 ^ 31 \<and> list_all update_ok (snd p) then Some p else None)"

fun spec_command :: "command \<Rightarrow> u64 \<times> update list \<Rightarrow> (u64 \<times> update list) option"
  and spec_commands :: "command list \<Rightarrow> u64 \<times> update list \<Rightarrow> (u64 \<times> update list) option" where
  "spec_command (CPut k v) p = limit (fst p, snd p @ [Upd k v])"
| "spec_command (CDelete k) p = limit (fst p, snd p @ [Del k])"
| "spec_command CClear p = Some (0, [])"
| "spec_command (CSetSequence seq) p = Some (seq, snd p)"
| "spec_command (CAppend cs) p = do { q \<leftarrow> spec_commands cs (0, []); limit (fst p, snd p @ snd q) }"
| "spec_commands [] p = Some p"
| "spec_commands (c # cs) p = do { p \<leftarrow> spec_command c p; spec_commands cs p }"

lemma limit_Some [simp]: "limit p = Some q \<longleftrightarrow> q = p \<and> length (snd p) < 2 ^ 31 \<and> list_all update_ok (snd p)"
  by (auto simp: limit_def)

lemma new_WriteBatch_ok: "batch_ok e 0 [] new_WriteBatch"
  by (simp add: new_WriteBatch_def Clear_batch)

lemma run_command_ok:
  "batch_ok e (fst p) (snd p) b \<Longrightarrow> spec_command c p = Some q \<Longrightarrow>
     \<exists>b'. run_command e c b = Some b' \<and> batch_ok e (fst q) (snd q) b'"
  "batch_ok e (fst p) (snd p) b \<Longrightarrow> spec_commands cs p = Some q \<Longrightarrow>
     \<exists>b'. run_commands e cs b = Some b' \<and> batch_ok e (fst q) (snd q) b'"
proof (induction c p and cs p arbitrary: b q and b q rule: spec_command_spec_commands.induct)
  case (1 k v p)
  then show ?case using Put_batch [OF 1(1), of k v] by auto
next
  case (2 k p)
  then show ?case using Delete_batch [OF 2(1), of k] by auto
next
  case (3 p)
  then show ?case using Clear_batch [of e b] by auto
next
  case (4 seq p)
  then show ?case using SetSequence_batch [OF 4(1), of seq] by auto
next
  case (5 cs p)
  from 5(3) obtain r where r: "spec_commands cs (0, []) = Some r"
    and q: "q = (fst p, snd p @ snd r)" "length (snd p) + length (snd r) < 2 ^ 31"
    by (auto split: bind_splits)
  obtain src where src: "run_commands e cs new_WriteBatch = Some src" "batch_ok e (fst r) (snd r) src"
    using 5(1) [OF _ r, of new_WriteBatch] new_WriteBatch_ok by auto
  then show ?case using Append_batch [OF 5(2) src(2) q(2)] by (simp add: q(1))
next
  case (6 p)
  then show ?case by simp
next
  case (7 c cs p)
  from 7(4) obtain r where r: "spec_command c p = Some r" "spec_commands cs r = Some q" by (auto split: bind_splits)
  obtain b1 where b1: "run_command e c b = Some b1" "batch_ok e (fst r) (snd r) b1" using 7(1) [OF 7(3) r(1)] by blast
  then show ?case using 7(2) [OF r(1) b1(2) r(2)] by simp
qed

text \<open>The writes a batch makes: one per update, with consecutive sequence numbers.\<close>

fun numbered :: "(u64 \<Rightarrow> ValueType \<Rightarrow> u8 list \<Rightarrow> u8 list \<Rightarrow> 'm \<Rightarrow> 'm) \<Rightarrow> u64 \<Rightarrow> update list \<Rightarrow> 'm \<Rightarrow> 'm" where
  "numbered add seq [] m = m"
| "numbered add seq (Upd k v # us) m = numbered add (seq + 1) us (add seq kTypeValue k v m)"
| "numbered add seq (Del k # us) m = numbered add (seq + 1) us (add seq kTypeDeletion k [] m)"

lemma foldl_inserter:
  "foldl (handle (inserter_Put add) (inserter_Delete add)) (seq, m) us =
   (seq + of_nat (length us), numbered add seq us m)"
  by (induction add seq us m rule: numbered.induct)
    (simp_all add: inserter_Put_def inserter_Delete_def)

lemma InsertInto_batch:
  assumes "batch_ok e seq us b"
  shows "InsertInto e add b m = Some (OK, numbered add seq us m)"
  using Sequence_batch [OF assms] Iterate_batch [OF assms, of "inserter_Put add" "inserter_Delete add" "(seq, m)"]
  by (simp add: InsertInto_def foldl_inserter)

text \<open>
  C33. Whatever sequence of Put, Delete, Clear, SetSequence and Append calls builds a batch, within
  the limits of its format, no call reads or writes outside the batch; Iterate then hands exactly
  the recorded updates to the handler, in order, and returns OK, and InsertInto adds them to the
  memtable under consecutive sequence numbers. If the batch is cut anywhere, Iterate reports
  corruption and the handler has seen an initial part of the updates.
\<close>

theorem batch_replay:
  assumes "spec_commands cs (0, []) = Some (seq, us)"
  shows "\<exists>b. run_commands e cs new_WriteBatch = Some b \<and>
    Sequence e b = Some seq \<and> Count e b = Some (int (length us)) \<and>
    Iterate e hPut hDelete b st = Some (OK, foldl (handle hPut hDelete) st us) \<and>
    InsertInto e add b mem = Some (OK, numbered add seq us mem) \<and>
    (\<forall>k<length (brep b). \<exists>m us'. prefix us' us \<and>
       Iterate e hPut hDelete (b\<lparr>brep := take k (brep b)\<rparr>) st =
         Some (Corruption m, foldl (handle hPut hDelete) st us'))"
proof -
  obtain b where b: "run_commands e cs new_WriteBatch = Some b" "batch_ok e seq us b"
    using run_command_ok(2) [of e "(0, [])" new_WriteBatch cs "(seq, us)"] new_WriteBatch_ok assms by auto
  then show ?thesis
    by (intro exI [of _ b])
      (simp add: Sequence_batch [OF b(2)] Count_batch [OF b(2)] Iterate_batch [OF b(2)] InsertInto_batch [OF b(2)]
        Iterate_cut [OF b(2)])
qed

theorem batch_replay_witness:
  "spec_commands [CSetSequence 7, CPut [97] [1], CAppend [CDelete [97], CPut [98] []]] (0, []) =
     Some (7, [Upd [97] [1], Del [97], Upd [98] []]) \<and>
   (\<exists>b. run_commands False [CSetSequence 7, CPut [97] [1], CAppend [CDelete [97], CPut [98] []]] new_WriteBatch = Some b \<and>
     InsertInto False (\<lambda>s t k v m. m @ [(s, t, k, v)]) b [] =
       Some (OK, [(7, kTypeValue, [97], [1]), (8, kTypeDeletion, [97], []), (9, kTypeValue, [98], [])]))"
  (is "?spec \<and> ?run")
proof -
  have s: ?spec by (simp add: limit_def)
  show ?thesis
    using s batch_replay [OF s, of False "\<lambda>k v n. n" "\<lambda>k n. n" "0 :: nat" "\<lambda>s t k v m. m @ [(s, t, k, v)]" "[]"]
    by (auto simp del: run_commands.simps)
qed

end
