(* ===== verification/Level_Log.thy ===== *)
theory Level_Log
  imports Crc32c Level_Batch Util_Num
begin

text \<open>
  The write-ahead log of LevelDB (db/log_writer.cc, db/log_reader.cc, db/log_format.h): records are
  cut into physical records that do not cross the blocks of 32 KiB, each with a masked checksum, a
  length and a type. The file is given by its operations (fappend, fflush, fread, fskip), the byte
  order by a flag, and the address of a buffer, on which the checksum routine depends only for its
  speed, by a number. None is a failed assertion, an access outside a buffer, or a loop that does not
  end. Offsets of the reader are 64-bit words, since the test of ReportDrop subtracts them.
  Reports of corruption are collected in a list.
\<close>

unbundle bit_operations_syntax

section \<open>Format\<close>

datatype RecordType = kZeroType | kFullType | kFirstType | kMiddleType | kLastType

definition record_code :: "RecordType \<Rightarrow> nat" where
  "record_code t = (case t of kZeroType \<Rightarrow> 0 | kFullType \<Rightarrow> 1 | kFirstType \<Rightarrow> 2 | kMiddleType \<Rightarrow> 3 | kLastType \<Rightarrow> 4)"

definition kMaxRecordType :: nat where "kMaxRecordType = record_code kLastType"

definition kBlockSize :: nat where "kBlockSize = 32768"

definition kHeaderSize :: nat where "kHeaderSize = 4 + 2 + 1"

section \<open>Writer\<close>

record 'f Writer =
  dest :: 'f
  block_offset :: nat
  type_crc :: "u32 list"

fun init_crcs :: "nat \<Rightarrow> nat list \<Rightarrow> u32 list option" where
  "init_crcs addr [] = Some []"
| "init_crcs addr (i # is) = do { c \<leftarrow> crc_Value addr [of_nat i]; cs \<leftarrow> init_crcs addr is; Some (c # cs) }"

definition InitTypeCrc :: "nat \<Rightarrow> u32 list option" where
  "InitTypeCrc addr = init_crcs addr [0..<kMaxRecordType + 1]"

definition new_Writer :: "nat \<Rightarrow> 'f \<Rightarrow> 'f Writer option" where
  "new_Writer addr d = do { cs \<leftarrow> InitTypeCrc addr; Some \<lparr>dest = d, block_offset = 0, type_crc = cs\<rparr> }"

definition new_Writer_at :: "nat \<Rightarrow> 'f \<Rightarrow> nat \<Rightarrow> 'f Writer option" where
  "new_Writer_at addr d dest_length = do {
     cs \<leftarrow> InitTypeCrc addr;
     Some \<lparr>dest = d, block_offset = dest_length mod kBlockSize, type_crc = cs\<rparr> }"

definition EmitPhysicalRecord ::
  "(u8 list \<Rightarrow> 'f \<Rightarrow> (Status \<times> 'f) option) \<Rightarrow> ('f \<Rightarrow> (Status \<times> 'f) option) \<Rightarrow> bool \<Rightarrow> nat \<Rightarrow>
   RecordType \<Rightarrow> u8 list \<Rightarrow> 'f Writer \<Rightarrow> (Status \<times> 'f Writer) option" where
  "EmitPhysicalRecord fappend fflush e addr t ptr w = do {
     let n = length ptr;
     assert_opt (n \<le> 0xffff);
     assert_opt (block_offset w + kHeaderSize + n \<le> kBlockSize);
     c \<leftarrow> nth_opt (type_crc w) (record_code t);
     crc \<leftarrow> Extend addr c ptr;
     let crc = Mask crc;
     let buf = EncodeFixed32 e crc @ [of_nat (n mod 256), of_nat (n div 256), of_nat (record_code t)];
     (s, d) \<leftarrow> fappend buf (dest w);
     (s, d) \<leftarrow> (if ok s then do {
                    (s, d) \<leftarrow> fappend ptr d;
                    if ok s then fflush d else Some (s, d) }
                  else Some (s, d));
     Some (s, w\<lparr>dest := d, block_offset := block_offset w + kHeaderSize + n\<rparr>) }"

text \<open>Leaving a block that has no room for a header; the status of the trailer is not looked at.\<close>

definition start_block :: "(u8 list \<Rightarrow> 'f \<Rightarrow> (Status \<times> 'f) option) \<Rightarrow> 'f Writer \<Rightarrow> 'f Writer option" where
  "start_block fappend w = do {
     assert_opt (block_offset w \<le> kBlockSize);
     let leftover = kBlockSize - block_offset w;
     w \<leftarrow> (if leftover < kHeaderSize then do {
              d \<leftarrow> (if leftover > 0 then do { (_, d) \<leftarrow> fappend (replicate leftover 0) (dest w); Some d }
                    else Some (dest w));
              Some (w\<lparr>dest := d, block_offset := 0\<rparr>) }
            else Some w);
     assert_opt (block_offset w + kHeaderSize \<le> kBlockSize);
     Some w }"

definition fragment_type :: "bool \<Rightarrow> bool \<Rightarrow> RecordType" where
  "fragment_type first final =
     (if first \<and> final then kFullType else if first then kFirstType
      else if final then kLastType else kMiddleType)"

partial_function (option) add_loop ::
  "(u8 list \<Rightarrow> 'f \<Rightarrow> (Status \<times> 'f) option) \<Rightarrow> ('f \<Rightarrow> (Status \<times> 'f) option) \<Rightarrow> bool \<Rightarrow> nat \<Rightarrow>
   bool \<Rightarrow> u8 list \<Rightarrow> 'f Writer \<Rightarrow> (Status \<times> 'f Writer) option" where
  "add_loop fappend fflush e addr first ptr w = do {
     w \<leftarrow> start_block fappend w;
     let avail = kBlockSize - block_offset w - kHeaderSize;
     let fragment_length = (if length ptr < avail then length ptr else avail);
     let t = fragment_type first (length ptr = fragment_length);
     (s, w) \<leftarrow> EmitPhysicalRecord fappend fflush e addr t (take fragment_length ptr) w;
     if ok s \<and> length ptr - fragment_length > 0 then
       add_loop fappend fflush e (addr + fragment_length) False (drop fragment_length ptr) w
     else Some (s, w) }"

declare add_loop.simps [code]

definition AddRecord ::
  "(u8 list \<Rightarrow> 'f \<Rightarrow> (Status \<times> 'f) option) \<Rightarrow> ('f \<Rightarrow> (Status \<times> 'f) option) \<Rightarrow> bool \<Rightarrow> nat \<Rightarrow>
   u8 list \<Rightarrow> 'f Writer \<Rightarrow> (Status \<times> 'f Writer) option" where
  "AddRecord fappend fflush e addr data w = add_loop fappend fflush e addr True data w"

section \<open>Reader\<close>

record 's Reader =
  rfile :: 's
  reporter :: bool
  checksum :: bool
  buffer :: "u8 list"
  eof :: bool
  last_record_offset :: u64
  end_of_buffer_offset :: u64
  initial_offset :: u64
  resyncing :: bool
  reports :: "(u64 \<times> Status) list"

definition kEof :: u32 where "kEof = of_nat kMaxRecordType + 1"

definition kBadRecord :: u32 where "kBadRecord = of_nat kMaxRecordType + 2"

definition new_Reader :: "'s \<Rightarrow> bool \<Rightarrow> bool \<Rightarrow> u64 \<Rightarrow> 's Reader" where
  "new_Reader f rep chk off =
     \<lparr>rfile = f, reporter = rep, checksum = chk, buffer = [], eof = False, last_record_offset = 0,
      end_of_buffer_offset = 0, initial_offset = off, resyncing = (off > 0), reports = []\<rparr>"

definition buffer_start :: "'s Reader \<Rightarrow> u64" where
  "buffer_start r = end_of_buffer_offset r - of_nat (length (buffer r))"

definition ReportDrop :: "u64 \<Rightarrow> Status \<Rightarrow> 's Reader \<Rightarrow> 's Reader" where
  "ReportDrop bytes reason r =
     (if reporter r \<and> buffer_start r - bytes \<ge> initial_offset r
      then r\<lparr>reports := reports r @ [(bytes, reason)]\<rparr> else r)"

definition ReportCorruption :: "u64 \<Rightarrow> string \<Rightarrow> 's Reader \<Rightarrow> 's Reader" where
  "ReportCorruption bytes reason r = ReportDrop bytes (Corruption reason) r"

definition SkipToInitialBlock ::
  "(nat \<Rightarrow> 's \<Rightarrow> (Status \<times> 's) option) \<Rightarrow> 's Reader \<Rightarrow> (bool \<times> 's Reader) option" where
  "SkipToInitialBlock fskip r = do {
     let offset_in_block = initial_offset r mod of_nat kBlockSize;
     let block_start_location = initial_offset r - offset_in_block;
     let block_start_location =
       (if offset_in_block > of_nat kBlockSize - 6 then block_start_location + of_nat kBlockSize else block_start_location);
     let r = r\<lparr>end_of_buffer_offset := block_start_location\<rparr>;
     if block_start_location > 0 then do {
       (s, f) \<leftarrow> fskip (unat block_start_location) (rfile r);
       let r = r\<lparr>rfile := f\<rparr>;
       if \<not> ok s then Some (False, ReportDrop block_start_location s r) else Some (True, r) }
     else Some (True, r) }"

text \<open>The result is the type code, the fragment (unchanged on some paths) and the reader.\<close>

partial_function (option) ReadPhysicalRecord ::
  "(nat \<Rightarrow> u8 list \<Rightarrow> 's \<Rightarrow> (Status \<times> u8 list \<times> 's) option) \<Rightarrow> bool \<Rightarrow> nat \<Rightarrow>
   u8 list \<Rightarrow> 's Reader \<Rightarrow> (u32 \<times> u8 list \<times> 's Reader) option" where
  "ReadPhysicalRecord fread e addr result r =
     (if length (buffer r) < kHeaderSize then
        if \<not> eof r then do {
          (status, buf, f) \<leftarrow> fread kBlockSize [] (rfile r);
          let r = r\<lparr>rfile := f, buffer := buf, end_of_buffer_offset := end_of_buffer_offset r + of_nat (length buf)\<rparr>;
          if \<not> ok status then
            Some (kEof, result, (ReportDrop (of_nat kBlockSize) status (r\<lparr>buffer := []\<rparr>))\<lparr>eof := True\<rparr>)
          else ReadPhysicalRecord fread e addr result (if length buf < kBlockSize then r\<lparr>eof := True\<rparr> else r) }
        else Some (kEof, result, r\<lparr>buffer := []\<rparr>)
      else do {
        let header = buffer r;
        a \<leftarrow> nth_opt header 4;
        b \<leftarrow> nth_opt header 5;
        c \<leftarrow> nth_opt header 6;
        let t = (scast c :: u32);
        let len = unat ((ucast a :: u32) OR push_bit 8 (ucast b));
        if kHeaderSize + len > length (buffer r) then do {
          let drop_size = length (buffer r);
          let r = r\<lparr>buffer := []\<rparr>;
          if \<not> eof r then Some (kBadRecord, result, ReportCorruption (of_nat drop_size) ''bad record length'' r)
          else Some (kEof, result, r) }
        else if t = of_nat (record_code kZeroType) \<and> len = 0 then Some (kBadRecord, result, r\<lparr>buffer := []\<rparr>)
        else do {
          mismatch \<leftarrow> (if checksum r then do {
                          stored \<leftarrow> DecodeFixed32 e header;
                          actual_crc \<leftarrow> crc_Value (addr + 6) (take (1 + len) (drop 6 header));
                          Some (actual_crc \<noteq> Unmask stored) }
                        else Some False);
          if mismatch then do {
            let drop_size = length (buffer r);
            let r = r\<lparr>buffer := []\<rparr>;
            Some (kBadRecord, result, ReportCorruption (of_nat drop_size) ''checksum mismatch'' r) }
          else do {
            let r = r\<lparr>buffer := drop (kHeaderSize + len) (buffer r)\<rparr>;
            if buffer_start r - of_nat kHeaderSize - of_nat len < initial_offset r then Some (kBadRecord, [], r)
            else Some (t, take len (drop kHeaderSize header), r) } } })"

declare ReadPhysicalRecord.simps [code]

definition unknown_type :: "u32 \<Rightarrow> string" where
  "unknown_type t = ''unknown record type '' @ map (\<lambda>b. char_of (unat b)) (dec (uint t))"

text \<open>
  One round of the loop of ReadRecord: what it does with a physical record. Inl goes round again with
  the local variables (in_fragmented_record, prospective_record_offset, scratch, fragment) and the
  reader; Inr returns whether a record was read, the record, the scratch buffer and the reader.
\<close>

type_synonym 's read_state = "bool \<times> u64 \<times> u8 list \<times> u8 list \<times> 's Reader"

type_synonym 's read_result = "bool \<times> u8 list \<times> u8 list \<times> 's Reader"

definition read_switch ::
  "u64 \<Rightarrow> u32 \<Rightarrow> 's read_state \<Rightarrow> 's read_state + 's read_result" where
  "read_switch physical_record_offset record_type = (\<lambda>(in_fragmented, prospective, scratch, fragment, r).
     if record_type = of_nat (record_code kFullType) then
       let r = (if in_fragmented \<and> scratch \<noteq> [] then
                  ReportCorruption (of_nat (length scratch)) ''partial record without end(1)'' r else r)
       in Inr (True, fragment, [], r\<lparr>last_record_offset := physical_record_offset\<rparr>)
     else if record_type = of_nat (record_code kFirstType) then
       let r = (if in_fragmented \<and> scratch \<noteq> [] then
                  ReportCorruption (of_nat (length scratch)) ''partial record without end(2)'' r else r)
       in Inl (True, physical_record_offset, fragment, fragment, r)
     else if record_type = of_nat (record_code kMiddleType) then
       if \<not> in_fragmented then
         Inl (in_fragmented, prospective, scratch, fragment,
              ReportCorruption (of_nat (length fragment)) ''missing start of fragmented record(1)'' r)
       else Inl (in_fragmented, prospective, scratch @ fragment, fragment, r)
     else if record_type = of_nat (record_code kLastType) then
       if \<not> in_fragmented then
         Inl (in_fragmented, prospective, scratch, fragment,
              ReportCorruption (of_nat (length fragment)) ''missing start of fragmented record(2)'' r)
       else Inr (True, scratch @ fragment, scratch @ fragment, r\<lparr>last_record_offset := prospective\<rparr>)
     else if record_type = kEof then Inr (False, [], (if in_fragmented then [] else scratch), r)
     else if record_type = kBadRecord then
       if in_fragmented then
         Inl (False, prospective, [], fragment,
              ReportCorruption (of_nat (length scratch)) ''error in middle of record'' r)
       else Inl (in_fragmented, prospective, scratch, fragment, r)
     else
       Inl (False, prospective, [], fragment,
            ReportCorruption (of_nat (length fragment + (if in_fragmented then length scratch else 0)))
              (unknown_type record_type) r))"

definition read_step ::
  "(nat \<Rightarrow> u8 list \<Rightarrow> 's \<Rightarrow> (Status \<times> u8 list \<times> 's) option) \<Rightarrow> bool \<Rightarrow> nat \<Rightarrow>
   's read_state \<Rightarrow> ('s read_state + 's read_result) option" where
  "read_step fread e addr = (\<lambda>(in_fragmented, prospective, scratch, fragment, r). do {
     let physical_record_offset = buffer_start r;
     (record_type, fragment, r) \<leftarrow> ReadPhysicalRecord fread e addr fragment r;
     if resyncing r \<and> record_type = of_nat (record_code kMiddleType) then
       Some (Inl (in_fragmented, prospective, scratch, fragment, r))
     else if resyncing r \<and> record_type = of_nat (record_code kLastType) then
       Some (Inl (in_fragmented, prospective, scratch, fragment, r\<lparr>resyncing := False\<rparr>))
     else
       Some (read_switch physical_record_offset record_type
         (in_fragmented, prospective, scratch, fragment, r\<lparr>resyncing := False\<rparr>)) })"

partial_function (option) read_loop ::
  "(nat \<Rightarrow> u8 list \<Rightarrow> 's \<Rightarrow> (Status \<times> u8 list \<times> 's) option) \<Rightarrow> bool \<Rightarrow> nat \<Rightarrow>
   's read_state \<Rightarrow> 's read_result option" where
  "read_loop fread e addr st = do {
     x \<leftarrow> read_step fread e addr st;
     case x of Inl st \<Rightarrow> read_loop fread e addr st | Inr res \<Rightarrow> Some res }"

declare read_loop.simps [code]

definition ReadRecord ::
  "(nat \<Rightarrow> u8 list \<Rightarrow> 's \<Rightarrow> (Status \<times> u8 list \<times> 's) option) \<Rightarrow> (nat \<Rightarrow> 's \<Rightarrow> (Status \<times> 's) option) \<Rightarrow> bool \<Rightarrow> nat \<Rightarrow>
   's Reader \<Rightarrow> (bool \<times> u8 list \<times> 's Reader) option" where
  "ReadRecord fread fskip e addr r = do {
     (go, r) \<leftarrow> (if last_record_offset r < initial_offset r then SkipToInitialBlock fskip r else Some (True, r));
     if \<not> go then Some (False, [], r)
     else do {
       (res, rec, _, r) \<leftarrow> read_loop fread e addr (False, 0, [], [], r);
       Some (res, rec, r) } }"

definition LastRecordOffset :: "'s Reader \<Rightarrow> u64" where
  "LastRecordOffset r = last_record_offset r"

section \<open>Physical records\<close>

text \<open>A frame is the trailer skipped before a physical record, its type and its payload.\<close>

type_synonym frame = "nat \<times> RecordType \<times> u8 list"

definition record_crc :: "RecordType \<Rightarrow> u8 list \<Rightarrow> u32" where
  "record_crc t d = crc32_bits 0xffffffff (of_nat (record_code t) # d) XOR 0xffffffff"

definition enc_frame :: "bool \<Rightarrow> frame \<Rightarrow> u8 list" where
  "enc_frame e = (\<lambda>(pad, t, d). replicate pad 0 @ EncodeFixed32 e (Mask (record_crc t d)) @
     [of_nat (length d mod 256), of_nat (length d div 256), of_nat (record_code t)] @ d)"

text \<open>Where a frame goes at an offset of the file, and the frames of one record.\<close>

definition trailer :: "nat \<Rightarrow> nat" where
  "trailer pos = (if kBlockSize - pos mod kBlockSize < kHeaderSize then kBlockSize - pos mod kBlockSize else 0)"

definition placed :: "nat \<Rightarrow> frame \<Rightarrow> bool" where
  "placed pos = (\<lambda>(pad, t, d). pad = trailer pos \<and> (pos + pad) mod kBlockSize + kHeaderSize + length d \<le> kBlockSize)"

definition frame_end :: "nat \<Rightarrow> frame \<Rightarrow> nat" where
  "frame_end pos = (\<lambda>(pad, t, d). pos + pad + kHeaderSize + length d)"

fun all_placed :: "nat \<Rightarrow> frame list \<Rightarrow> bool" where
  "all_placed pos [] \<longleftrightarrow> True"
| "all_placed pos (f # fs) \<longleftrightarrow> placed pos f \<and> all_placed (frame_end pos f) fs"

fun frames_for :: "bool \<Rightarrow> u8 list \<Rightarrow> frame list \<Rightarrow> bool" where
  "frames_for first data [] \<longleftrightarrow> False"
| "frames_for first data [(pad, t, d)] \<longleftrightarrow> d = data \<and> t = (if first then kFullType else kLastType)"
| "frames_for first data ((pad, t, d) # f # fs) \<longleftrightarrow>
     t = (if first then kFirstType else kMiddleType) \<and>
     (\<exists>rest. data = d @ rest \<and> frames_for False rest (f # fs))"

end
