(* ===== verification/Level_Env.thy ===== *)
theory Level_Env
  imports Level_Batch
begin

text \<open>
  What the code of LevelDB relies on from its files (include/leveldb/env.h): a file that is written
  at its end and a file that is read from its start to its end.
\<close>

locale writable_file =
  fixes fappend :: "u8 list \<Rightarrow> 'f \<Rightarrow> (Status \<times> 'f) option"
    and fflush :: "'f \<Rightarrow> (Status \<times> 'f) option"
    and fbytes :: "'f \<Rightarrow> u8 list"
    and finv :: "'f \<Rightarrow> bool"
  assumes append_ok: "finv f \<Longrightarrow> \<exists>f'. fappend data f = Some (OK, f') \<and> finv f' \<and> fbytes f' = fbytes f @ data"
    and flush_ok: "finv f \<Longrightarrow> \<exists>f'. fflush f = Some (OK, f') \<and> finv f' \<and> fbytes f' = fbytes f"
begin

text \<open>Two writes and a flush, as a physical record of the log needs.\<close>

lemma append_append_flush:
  assumes "finv f"
  shows "\<exists>f1 f2 f3. fappend a f = Some (OK, f1) \<and> fappend b f1 = Some (OK, f2) \<and> fflush f2 = Some (OK, f3) \<and>
    finv f3 \<and> fbytes f3 = fbytes f @ a @ b"
proof -
  obtain f1 where f1: "fappend a f = Some (OK, f1)" "finv f1" "fbytes f1 = fbytes f @ a"
    using append_ok [OF assms] by blast
  obtain f2 where f2: "fappend b f1 = Some (OK, f2)" "finv f2" "fbytes f2 = fbytes f1 @ b"
    using append_ok [OF f1(2)] by blast
  then show ?thesis using f1 flush_ok [OF f2(2)] by auto
qed

end

locale sequential_file =
  fixes fread :: "nat \<Rightarrow> u8 list \<Rightarrow> 's \<Rightarrow> (Status \<times> u8 list \<times> 's) option"
    and fskip :: "nat \<Rightarrow> 's \<Rightarrow> (Status \<times> 's) option"
    and frest :: "'s \<Rightarrow> u8 list"
    and sinv :: "'s \<Rightarrow> bool"
  assumes read_ok: "sinv s \<Longrightarrow>
      \<exists>s'. fread n r s = Some (OK, take n (frest s), s') \<and> sinv s' \<and> frest s' = drop n (frest s)"
    and skip_ok: "sinv s \<Longrightarrow> \<exists>s'. fskip n s = Some (OK, s') \<and> sinv s' \<and> frest s' = drop n (frest s)"
begin

lemma skip_then_read:
  assumes "sinv s"
  shows "\<exists>s' s''. fskip m s = Some (OK, s') \<and> fread n r s' = Some (OK, take n (drop m (frest s)), s'') \<and>
    sinv s'' \<and> frest s'' = drop (m + n) (frest s)"
proof -
  obtain s' where s': "fskip m s = Some (OK, s')" "sinv s'" "frest s' = drop m (frest s)"
    using skip_ok [OF assms] by blast
  then show ?thesis using read_ok [OF s'(2), of n r] by (auto simp: add.commute)
qed

end

end
