(* ===== verification/Level_Log_Correct.thy ===== *)
theory Level_Log_Correct
  imports Level_Log Level_Env
begin

text \<open>
  The log of LevelDB reads back what was written. A writer lays out frames (a skipped trailer, a type
  and a payload) that never cross a block; a reader at the start of a frame returns its payload and
  stops at the start of the next one; a file that ends inside a frame gives the end of the log.
\<close>

unbundle bit_operations_syntax

section \<open>Checksums\<close>

lemma crc_Value_code: "crc_Value addr bs = Some (crc32_bits 0xffffffff bs XOR 0xffffffff)"
  by (simp add: crc_Value_def Extend_bits)

definition code_crc :: "RecordType \<Rightarrow> u32" where
  "code_crc t = crc32_bits 0xffffffff [of_nat (record_code t)] XOR 0xffffffff"

lemma Extend_code: "Extend addr (code_crc t) d = Some (record_crc t d)"
  using crc32_bits_append [of "0xffffffff" "[of_nat (record_code t)]" d]
  by (simp add: Extend_bits code_crc_def record_crc_def xor.assoc)

lemma record_code_cases: "record_code t < 5"
  by (cases t) (simp_all add: record_code_def)

lemma InitTypeCrc_ok: "\<exists>cs. InitTypeCrc addr = Some cs \<and> (\<forall>t. nth_opt cs (record_code t) = Some (code_crc t))"
proof -
  have list: "[0..<kMaxRecordType + 1] = [0, 1, 2, 3, 4]" by (simp add: kMaxRecordType_def record_code_def upt_rec)
  have "nth_opt (map (\<lambda>i. crc32_bits 0xffffffff [of_nat i] XOR 0xffffffff) [0, 1, 2, 3, 4]) (record_code t) = Some (code_crc t)" for t
    by (cases t) (simp_all add: record_code_def code_crc_def)
  moreover have "init_crcs addr ns = Some (map (\<lambda>i. crc32_bits 0xffffffff [of_nat i] XOR 0xffffffff) ns)" for ns
    by (induction ns) (simp_all add: crc_Value_code)
  ultimately show ?thesis unfolding InitTypeCrc_def list by blast
qed

section \<open>Blocks and trailers\<close>

lemma block_sizes: "0 < kBlockSize" "kHeaderSize < kBlockSize" "0 < kHeaderSize" "kBlockSize \<le> 65536"
  by (simp_all add: kBlockSize_def kHeaderSize_def)

lemma in_block: "\<not> kBlockSize \<le> pos mod kBlockSize"
  using block_sizes by (simp add: not_le)

lemma mod_add_same_block: "pos mod B + n < (B :: nat) \<Longrightarrow> (pos + n) mod B = pos mod B + n"
  by (metis mod_add_left_eq mod_less)

lemma mod_add_full: "pos mod B + n = (B :: nat) \<Longrightarrow> (pos + n) mod B = 0"
  by (metis mod_add_left_eq mod_self)

lemma trailer_less: "trailer pos < kHeaderSize"
  by (simp add: trailer_def block_sizes)

lemma trailer_mod: "(pos + trailer pos) mod kBlockSize = (if trailer pos = 0 then pos mod kBlockSize else 0)"
proof (cases "trailer pos = 0")
  case False
  then have "pos mod kBlockSize + trailer pos = kBlockSize"
    using block_sizes(1) mod_less_divisor [of kBlockSize pos] by (auto simp: trailer_def split: if_splits)
  then show ?thesis using False by (simp add: mod_add_full)
qed simp

text \<open>The trailer is what a buffer holds when it ends with its block and is too short for a header.\<close>

lemma trailer_buffer:
  assumes "(pos + n) mod kBlockSize = 0" "n < kHeaderSize" "n = 0 \<or> pos mod kBlockSize + n \<le> kBlockSize"
  shows "trailer pos = n"
proof (cases "n = 0")
  case True
  then show ?thesis using assms(1) block_sizes by (simp add: trailer_def)
next
  case False
  then have "pos mod kBlockSize + n \<le> kBlockSize" using assms(3) by simp
  moreover have "\<not> pos mod kBlockSize + n < kBlockSize"
    using assms(1) False mod_add_same_block [of pos kBlockSize n] by auto
  ultimately have "pos mod kBlockSize + n = kBlockSize" by simp
  then show ?thesis using assms(2) by (auto simp: trailer_def)
qed

lemma trailer_none:
  assumes "kHeaderSize \<le> n" "pos mod kBlockSize + n \<le> kBlockSize"
  shows "trailer pos = 0"
  using assms by (auto simp: trailer_def)

lemma full_block:
  assumes "(pos + n) mod kBlockSize = 0" "0 < n" "pos mod kBlockSize + n \<le> kBlockSize"
  shows "pos mod kBlockSize + n = kBlockSize"
  using assms mod_add_same_block [of pos kBlockSize n] by fastforce

lemma dummy_placed: "placed pos (trailer pos, kFullType, [])"
proof (cases "trailer pos = 0")
  case True
  then have "kHeaderSize \<le> kBlockSize - pos mod kBlockSize" 
    using block_sizes by (auto simp: trailer_def in_block split: if_splits)
  then show ?thesis using True mod_less_divisor [OF block_sizes(1), of pos] by (simp add: placed_def)
next
  case False
  then show ?thesis using trailer_mod [of pos] block_sizes(2) by (simp add: placed_def)
qed

lemma length_enc_frame: "length (enc_frame e (pad, t, d)) = pad + kHeaderSize + length d"
  by (simp add: enc_frame_def kHeaderSize_def)

lemma frame_end_length: "frame_end pos f = pos + length (enc_frame e f)"
  by (cases f) (simp add: frame_end_def length_enc_frame)

section \<open>The writer\<close>

context writable_file
begin

definition writer_ok :: "'f Writer \<Rightarrow> bool" where
  "writer_ok w \<longleftrightarrow> finv (dest w) \<and> block_offset w \<le> kBlockSize \<and>
     block_offset w mod kBlockSize = length (fbytes (dest w)) mod kBlockSize \<and>
     (\<forall>t. nth_opt (type_crc w) (record_code t) = Some (code_crc t))"

lemma EmitPhysicalRecord_ok:
  assumes "finv (dest w)" "\<forall>t. nth_opt (type_crc w) (record_code t) = Some (code_crc t)"
    "block_offset w + kHeaderSize + length d \<le> kBlockSize"
  shows "\<exists>w'. EmitPhysicalRecord fappend fflush e addr t d w = Some (OK, w') \<and> finv (dest w') \<and>
    fbytes (dest w') = fbytes (dest w) @ enc_frame e (0, t, d) \<and>
    block_offset w' = block_offset w + kHeaderSize + length d \<and> type_crc w' = type_crc w"
proof -
  let ?h = "EncodeFixed32 e (Mask (record_crc t d)) @
    [of_nat (length d mod 256), of_nat (length d div 256), of_nat (record_code t)]"
  obtain f1 f2 f3 where f: "fappend ?h (dest w) = Some (OK, f1)" "fappend d f1 = Some (OK, f2)" "fflush f2 = Some (OK, f3)"
    "finv f3" "fbytes f3 = fbytes (dest w) @ ?h @ d"
    using append_append_flush [OF assms(1), of ?h d] by blast
  have "length d \<le> 65535" using assms(3) block_sizes by simp
  then show ?thesis using assms(2,3) f
    by (simp add: EmitPhysicalRecord_def Let_def Extend_code ok_def enc_frame_def)
qed

text \<open>The writer at the start of a fragment: it has filled the trailer of the block before.\<close>

lemma start_block_ok:
  assumes "writer_ok w"
  shows "\<exists>w'. start_block fappend w = Some w' \<and> finv (dest w') \<and> type_crc w' = type_crc w \<and>
    fbytes (dest w') = fbytes (dest w) @ replicate (trailer (length (fbytes (dest w)))) 0 \<and>
    block_offset w' + kHeaderSize \<le> kBlockSize \<and>
    block_offset w' = (length (fbytes (dest w)) + trailer (length (fbytes (dest w)))) mod kBlockSize \<and>
    (block_offset w' = block_offset w \<or> block_offset w' = 0)"
proof -
  let ?pos = "length (fbytes (dest w))"
  define left where "left = kBlockSize - block_offset w"
  have w: "finv (dest w)" "block_offset w \<le> kBlockSize" "block_offset w mod kBlockSize = ?pos mod kBlockSize"
    using assms(1) by (simp_all add: writer_ok_def)
  consider "block_offset w = kBlockSize" | "block_offset w < kBlockSize" using w(2) by linarith
  then show ?thesis
  proof cases
    case 1
    then have "?pos mod kBlockSize = 0" using w(3) by simp
    moreover then have "trailer ?pos = 0" using block_sizes by (simp add: trailer_def)
    ultimately show ?thesis using 1 w(1) block_sizes by (simp add: start_block_def)
  next
    case 2
    then have off: "?pos mod kBlockSize = block_offset w" using w(3) by simp
    then have t: "trailer ?pos = (if left < kHeaderSize then left else 0)" by (simp add: trailer_def left_def)
    show ?thesis
    proof (cases "left < kHeaderSize")
      case True
      have pos: "0 < left" using 2 by (simp add: left_def)
      obtain d where "fappend (replicate left 0) (dest w) = Some (OK, d)" "finv d" "fbytes d = fbytes (dest w) @ replicate left 0"
        using append_ok [OF w(1)] by blast
      then show ?thesis using w(2) True t trailer_mod [of ?pos] pos block_sizes
        unfolding start_block_def left_def [symmetric] by (simp add: Let_def)
    next
      case False
      then have "block_offset w + kHeaderSize \<le> kBlockSize" using 2 unfolding left_def by linarith
      then show ?thesis using False t off w(1) unfolding start_block_def left_def [symmetric] by (simp add: Let_def)
    qed
  qed
qed

lemma add_loop_ok:
  "writer_ok w \<Longrightarrow>
   \<exists>w' fs. add_loop fappend fflush e addr first ptr w = Some (OK, w') \<and> writer_ok w' \<and>
     frames_for first ptr fs \<and> all_placed (length (fbytes (dest w))) fs \<and>
     fbytes (dest w') = fbytes (dest w) @ concat (map (enc_frame e) fs)"
proof (induction "2 * length ptr + (if block_offset w = kBlockSize - kHeaderSize then 1 else 0)"
    arbitrary: addr first ptr w rule: less_induct)
  case less
  let ?pos = "length (fbytes (dest w))"
  let ?tr = "trailer ?pos"
  obtain w1 where w1: "start_block fappend w = Some w1"
    "finv (dest w1)" "type_crc w1 = type_crc w" "fbytes (dest w1) = fbytes (dest w) @ replicate ?tr 0"
    "block_offset w1 + kHeaderSize \<le> kBlockSize" "block_offset w1 = (?pos + ?tr) mod kBlockSize"
    "block_offset w1 = block_offset w \<or> block_offset w1 = 0"
    using start_block_ok [OF less.prems] by blast
  define avail where "avail = kBlockSize - block_offset w1 - kHeaderSize"
  define n where "n = (if length ptr < avail then length ptr else avail)"
  define t where "t = fragment_type first (length ptr = n)"
  have n: "n \<le> length ptr" "length (take n ptr) = n" "block_offset w1 + kHeaderSize + n \<le> kBlockSize"
    using w1(5) by (auto simp: n_def avail_def)
  have crc: "\<forall>t. nth_opt (type_crc w1) (record_code t) = Some (code_crc t)"
    using less.prems w1(3) by (simp add: writer_ok_def)
  obtain w2 where w2: "EmitPhysicalRecord fappend fflush e addr t (take n ptr) w1 = Some (OK, w2)" "finv (dest w2)"
    "fbytes (dest w2) = fbytes (dest w1) @ enc_frame e (0, t, take n ptr)"
    "block_offset w2 = block_offset w1 + kHeaderSize + n" "type_crc w2 = type_crc w1"
    using EmitPhysicalRecord_ok [OF w1(2) crc, of "take n ptr" e addr t] n by auto
  let ?f = "(?tr, t, take n ptr)"
  have bytes: "fbytes (dest w2) = fbytes (dest w) @ enc_frame e ?f"
    by (simp add: w2(3) w1(4) enc_frame_def)
  have fend: "length (fbytes (dest w2)) = frame_end ?pos ?f" by (simp add: bytes frame_end_length [of _ _ e])
  have placed: "placed ?pos ?f" using n(2,3) w1(6) by (simp add: placed_def)
  have "frame_end ?pos ?f mod kBlockSize = (?pos + ?tr + (kHeaderSize + n)) mod kBlockSize"
    using n(2) by (simp add: frame_end_def add.assoc)
  also have "\<dots> = (block_offset w1 + (kHeaderSize + n)) mod kBlockSize"
    unfolding w1(6) by (simp add: mod_add_left_eq)
  finally have ok2: "writer_ok w2"
    using w2(2,4,5) crc n(3) by (simp add: writer_ok_def fend add.assoc)
  have unfold: "add_loop fappend fflush e addr first ptr w =
      (if length ptr - n > 0 then add_loop fappend fflush e (addr + n) False (drop n ptr) w2 else Some (OK, w2))"
    unfolding add_loop.simps [of fappend fflush e addr first ptr w] w1(1) bind.bind_lunit Let_def
      avail_def [symmetric] n_def [symmetric] t_def [symmetric] w2(1) by (simp add: ok_def)
  show ?case
  proof (cases "length ptr - n > 0")
    case False
    then have "frames_for first ptr [?f]" using n(1) by (simp add: t_def fragment_type_def)
    then show ?thesis using unfold False ok2 bytes placed by (intro exI [of _ w2] exI [of _ "[?f]"]) simp
  next
    case True
    then have nl: "n < length ptr" "n = avail" by (auto simp: n_def split: if_splits)
    have measure: "2 * length (drop n ptr) + (if block_offset w2 = kBlockSize - kHeaderSize then 1 else 0) <
        2 * length ptr + (if block_offset w = kBlockSize - kHeaderSize then 1 else 0)"
    proof (cases "n = 0")
      case True
      then have "block_offset w1 = kBlockSize - kHeaderSize" using nl w1(5) by (simp add: avail_def)
      then have "block_offset w = kBlockSize - kHeaderSize" "block_offset w2 \<noteq> kBlockSize - kHeaderSize"
        using w1(7) w2(4) block_sizes by auto
      then show ?thesis using True by simp
    next
      case False
      then show ?thesis using nl by auto
    qed
    from less.hyps [OF measure ok2] obtain w' fs where r: "add_loop fappend fflush e (addr + n) False (drop n ptr) w2 = Some (OK, w')"
      "writer_ok w'" "frames_for False (drop n ptr) fs" "all_placed (frame_end ?pos ?f) fs"
      "fbytes (dest w') = fbytes (dest w2) @ concat (map (enc_frame e) fs)"
      unfolding fend by blast
    obtain f fs' where fs: "fs = f # fs'" using r(3) by (cases fs) auto
    have "frames_for first ptr (?f # fs)" using r(3) nl(1)
      unfolding fs by (auto simp: t_def fragment_type_def intro!: exI [of _ "drop n ptr"])
    then show ?thesis using unfold True r placed bytes
      by (intro exI [of _ w'] exI [of _ "?f # fs"]) simp
  qed
qed

lemma new_Writer_at_ok:
  assumes "finv f" "len = length (fbytes f)"
  shows "\<exists>w. new_Writer_at addr f len = Some w \<and> writer_ok w \<and> dest w = f"
  using InitTypeCrc_ok [of addr] assms block_sizes(1)
  by (auto simp: new_Writer_at_def writer_ok_def intro: less_imp_le)

end

section \<open>The reader\<close>

lemma length_field: "n < 65536 \<Longrightarrow>
  unat ((ucast (of_nat (n mod 256) :: u8) :: u32) OR push_bit 8 (ucast (of_nat (n div 256) :: u8))) = n"
proof -
  assume n: "n < 65536"
  let ?a = "of_nat (n mod 256) :: u8" and ?b = "of_nat (n div 256) :: u8"
  have "(ucast ?a :: u32) OR push_bit 8 (ucast ?b) = ucast ?a + push_bit 8 (ucast ?b)"
    by (rule disjunctive_add [symmetric]) (auto simp: bit_simps dest: bit_imp_le_length)
  also have "\<dots> = of_nat (n mod 256) + 256 * of_nat (n div 256)"
    using n by (simp add: push_bit_eq_mult unsigned_of_nat take_bit_nat_eq_self)
  also have "\<dots> = of_nat n" by (metis mod_mult_div_eq of_nat_add of_nat_mult of_nat_numeral)
  finally show ?thesis using n by (simp add: unat_of_nat take_bit_nat_eq_self)
qed

lemma type_field: "(scast (of_nat (record_code t) :: u8) :: u32) = of_nat (record_code t)"
  by (cases t) (simp_all add: record_code_def)

text \<open>What a physical record is made of when its bytes are at the front of the buffer.\<close>

definition header :: "bool \<Rightarrow> RecordType \<Rightarrow> u8 list \<Rightarrow> u8 list" where
  "header e t d = EncodeFixed32 e (Mask (record_crc t d)) @
     [of_nat (length d mod 256), of_nat (length d div 256), of_nat (record_code t)]"

lemma enc_frame_header: "enc_frame e (pad, t, d) = replicate pad 0 @ header e t d @ d"
  by (simp add: enc_frame_def header_def)

lemma length_header [simp]: "length (header e t d) = kHeaderSize"
  by (simp add: header_def kHeaderSize_def)

lemma header_fields:
  assumes "buf = header e t d @ rest"
  shows "nth_opt buf 4 = Some (of_nat (length d mod 256))" "nth_opt buf 5 = Some (of_nat (length d div 256))"
    "nth_opt buf 6 = Some (of_nat (record_code t))" "DecodeFixed32 e' buf = Some (Mask (record_crc t d))"
    "drop 6 buf = of_nat (record_code t) # rest"
  using assms by (simp_all add: header_def nth_append)

lemma payload_crc: "crc_Value addr (of_nat (record_code t) # d) = Some (record_crc t d)"
  by (simp add: crc_Value_code record_crc_def)

lemma append_is_drop:
  assumes "b @ rest = drop pos F" "pos \<le> length F"
  shows "rest = drop (pos + length b) F" "pos + length b \<le> length F"
proof -
  show "rest = drop (pos + length b) F"
    using arg_cong [OF assms(1), of "drop (length b)"] by (simp add: add.commute)
  show "pos + length b \<le> length F" using arg_cong [OF assms(1), of length] assms(2) by simp
qed

context sequential_file
begin

text \<open>The reader is at an offset of the file; its buffer ends with a block or with the file.\<close>

definition reader_at :: "u8 list \<Rightarrow> nat \<Rightarrow> 's Reader \<Rightarrow> bool" where
  "reader_at F pos r \<longleftrightarrow> sinv (rfile r) \<and> pos \<le> length F \<and> buffer r @ frest (rfile r) = drop pos F \<and>
     (if eof r then frest (rfile r) = [] else (pos + length (buffer r)) mod kBlockSize = 0) \<and>
     (buffer r \<noteq> [] \<longrightarrow> pos mod kBlockSize + length (buffer r) \<le> kBlockSize) \<and>
     end_of_buffer_offset r = of_nat (pos + length (buffer r)) \<and> initial_offset r = 0 \<and> \<not> resyncing r"

lemma refill:
  assumes "reader_at F pos r" "length (buffer r) < kHeaderSize" "\<not> eof r"
  shows "\<exists>r'. ReadPhysicalRecord fread e addr result r = ReadPhysicalRecord fread e addr result r' \<and>
    reader_at F (pos + length (buffer r)) r' \<and> buffer r' = take kBlockSize (drop (pos + length (buffer r)) F) \<and>
    (length (buffer r') < kBlockSize \<longrightarrow> eof r') \<and> reports r' = reports r \<and> checksum r' = checksum r"
proof -
  obtain s where s: "fread kBlockSize [] (rfile r) = Some (OK, take kBlockSize (frest (rfile r)), s)" "sinv s"
    "frest s = drop kBlockSize (frest (rfile r))"
    using read_ok [of "rfile r"] assms(1) by (auto simp: reader_at_def)
  let ?b = "take kBlockSize (frest (rfile r))" and ?p = "pos + length (buffer r)"
  have rest: "frest (rfile r) = drop ?p F" "?p \<le> length F" "?p mod kBlockSize = 0"
    using assms(1,3) append_is_drop [of "buffer r" "frest (rfile r)" pos F] by (auto simp: reader_at_def)
  define r1 where "r1 = r\<lparr>rfile := s, buffer := ?b, end_of_buffer_offset := end_of_buffer_offset r + of_nat (length ?b)\<rparr>"
  define r' where "r' = (if length ?b < kBlockSize then r1\<lparr>eof := True\<rparr> else r1)"
  have "ReadPhysicalRecord fread e addr result r = ReadPhysicalRecord fread e addr result r'"
    using assms(2,3) s(1) by (subst ReadPhysicalRecord.simps) (simp add: Let_def ok_def r1_def r'_def)
  moreover have "reader_at F ?p r'"
    using assms(1,3) s(2,3) rest block_sizes(1) append_take_drop_id [of kBlockSize "drop ?p F"]
    by (auto simp: reader_at_def r'_def r1_def)
  ultimately show ?thesis using rest by (intro exI [of _ r']) (auto simp: r'_def r1_def)
qed

lemma buffer_holds:
  assumes "reader_at F pos r" "kHeaderSize \<le> length (buffer r)" "pos mod kBlockSize + n \<le> kBlockSize" "\<not> eof r"
  shows "n \<le> length (buffer r)"
proof -
  have "buffer r \<noteq> []" using assms(2) block_sizes by auto
  then have "pos mod kBlockSize + length (buffer r) = kBlockSize"
    using assms(1,4) full_block [of pos "length (buffer r)"] by (auto simp: reader_at_def)
  then show ?thesis using assms(3) by simp
qed

lemma parse_complete:
  assumes r: "reader_at F pos r" "kHeaderSize \<le> length (buffer r)" and t: "t \<noteq> kZeroType"
    and F: "drop pos F = header e t d @ d @ beyond" and fit: "pos mod kBlockSize + kHeaderSize + length d \<le> kBlockSize"
  shows "\<exists>r'. ReadPhysicalRecord fread e' addr result r = Some (of_nat (record_code t), d, r') \<and>
    reader_at F (pos + kHeaderSize + length d) r' \<and> reports r' = reports r"
proof -
  let ?n = "kHeaderSize + length d"
  have n: "?n \<le> length (buffer r)"
  proof (cases "eof r")
    case True
    then have "buffer r = header e t d @ d @ beyond" using r(1) F by (auto simp: reader_at_def)
    then show ?thesis by simp
  next
    case False
    then show ?thesis using buffer_holds [OF r, of ?n] fit by simp
  qed
  have bf: "buffer r @ frest (rfile r) = (header e t d @ d) @ beyond" using r(1) F by (simp add: reader_at_def)
  define tail where "tail = drop ?n (buffer r)"
  have "take ?n (buffer r) = header e t d @ d"
    using arg_cong [OF bf, of "take ?n"] n by simp
  then have tail: "buffer r = (header e t d @ d) @ tail" "tail @ frest (rfile r) = beyond"
    using append_take_drop_id [of ?n "buffer r"] arg_cong [OF bf, of "drop ?n"] n by (simp_all add: tail_def)
  have small: "length d < 65536" using fit block_sizes by simp
  note h = header_fields [of "buffer r" e t d "d @ tail"]
  define r' where "r' = r\<lparr>buffer := tail\<rparr>"
  have code: "(of_nat (record_code t) :: u32) \<noteq> of_nat (record_code kZeroType)"
    using t by (cases t) (simp_all add: record_code_def)
  have run: "ReadPhysicalRecord fread e' addr result r = Some (of_nat (record_code t), d, r')"
    using tail(1) h r(1) code
    by (subst ReadPhysicalRecord.simps)
      (simp add: Let_def length_field [OF small] type_field payload_crc reader_at_def r'_def)
  have "reader_at F (pos + ?n) r'"
  proof -
    have "pos mod kBlockSize + length (buffer r) \<le> kBlockSize" using r block_sizes by (auto simp: reader_at_def)
    then have room: "pos mod kBlockSize + ?n + length tail \<le> kBlockSize" using tail(1) by simp
    have "(pos + ?n) mod kBlockSize + length tail \<le> kBlockSize" if "tail \<noteq> []"
    proof -
      have "0 < length tail" using that by simp
      then show ?thesis using room mod_add_same_block [of pos kBlockSize ?n] by linarith
    qed
    moreover have "pos + ?n \<le> length F" using append_is_drop(2) [of "header e t d @ d" beyond pos F] F r(1)
      by (simp add: reader_at_def)
    moreover have "tail @ frest (rfile r) = drop (pos + ?n) F"
      using append_is_drop(1) [of "header e t d @ d" beyond pos F] F r(1) tail(2) by (simp add: reader_at_def)
    moreover have "buffer r \<noteq> []" using r(2) block_sizes by auto
    ultimately show ?thesis using r(1) tail(1) by (auto simp: reader_at_def r'_def algebra_simps)
  qed
  then show ?thesis using run by (auto simp: r'_def add.assoc)
qed

lemma parse_cut:
  assumes r: "reader_at F pos r" "kHeaderSize \<le> length (buffer r)"
    and F: "drop pos F = take j (header e t d @ d)" "j < kHeaderSize + length d"
    and fit: "pos mod kBlockSize + kHeaderSize + length d \<le> kBlockSize"
  shows "\<exists>r'. ReadPhysicalRecord fread e' addr result r = Some (kEof, result, r') \<and> reports r' = reports r \<and> \<not> resyncing r'"
proof -
  have bf: "buffer r @ frest (rfile r) = take j (header e t d @ d)" using r(1) F(1) by (simp add: reader_at_def)
  have len: "length (buffer r) \<le> j" using arg_cong [OF bf, of length] by simp
  have eof: "eof r"
  proof (rule ccontr)
    assume "\<not> eof r"
    then have "kHeaderSize + length d \<le> length (buffer r)" using buffer_holds [OF r, of "kHeaderSize + length d"] fit by simp
    then show False using len F(2) by simp
  qed
  then have buf: "buffer r = header e t d @ take (j - kHeaderSize) d"
    using r(1) bf le_trans [OF r(2) len] by (simp add: reader_at_def)
  have small: "length d < 65536" using fit block_sizes by simp
  note h = header_fields [OF buf]
  show ?thesis
    using h r eof len F(2) by (subst ReadPhysicalRecord.simps) (auto simp: Let_def length_field [OF small] reader_at_def)
qed

lemma read_frame:
  assumes r: "reader_at F pos r" and f: "placed pos (pad, t, d)" "t \<noteq> kZeroType"
    and F: "drop pos F = enc_frame e (pad, t, d) @ beyond"
  shows "\<exists>r'. ReadPhysicalRecord fread e' addr result r = Some (of_nat (record_code t), d, r') \<and>
    reader_at F (frame_end pos (pad, t, d)) r' \<and> reports r' = reports r"
proof (cases "length (buffer r) < kHeaderSize")
  case False
  have "buffer r \<noteq> []" using False block_sizes by auto
  then have "trailer pos = 0" using r False trailer_none [of "length (buffer r)" pos] by (auto simp: reader_at_def)
  then have "pad = 0" "pos mod kBlockSize + kHeaderSize + length d \<le> kBlockSize" using f(1) by (auto simp: placed_def)
  then show ?thesis using parse_complete [OF r _ f(2), of e d beyond e' addr result] F False
    by (simp add: enc_frame_header frame_end_def)
next
  case True
  have long: "kHeaderSize \<le> length (drop pos F)" using arg_cong [OF F, of length] by (simp add: length_enc_frame)
  have eof: "\<not> eof r" using r long True by (auto simp: reader_at_def)
  have pad: "pad = length (buffer r)"
    using r eof True f(1) trailer_buffer [of pos "length (buffer r)"] by (auto simp: reader_at_def placed_def)
  let ?p = "pos + length (buffer r)"
  obtain r1 where r1: "ReadPhysicalRecord fread e' addr result r = ReadPhysicalRecord fread e' addr result r1"
    "reader_at F ?p r1" "buffer r1 = take kBlockSize (drop ?p F)" "reports r1 = reports r"
    using refill [OF r True eof] by blast
  have F1: "drop ?p F = header e t d @ d @ beyond"
    using append_is_drop(1) [of "replicate pad 0" "header e t d @ d @ beyond" pos F] F r
    by (simp add: enc_frame_header pad reader_at_def)
  have "kHeaderSize \<le> length (buffer r1)" using r1(3) F1 block_sizes by simp
  moreover have "?p mod kBlockSize + kHeaderSize + length d \<le> kBlockSize" using f(1) unfolding pad [symmetric] by (auto simp: placed_def)
  ultimately show ?thesis using parse_complete [OF r1(2) _ f(2) F1, of e' addr result] r1(1,4) pad
    by (simp add: frame_end_def)
qed

lemma read_at_end: "length (buffer r) < kHeaderSize \<Longrightarrow> eof r \<Longrightarrow>
  ReadPhysicalRecord fread e addr result r = Some (kEof, result, r\<lparr>buffer := []\<rparr>)"
  by (subst ReadPhysicalRecord.simps) simp

lemma read_cut_frame:
  assumes r: "reader_at F pos r" and f: "placed pos (pad, t, d)"
    and F: "drop pos F = take j (enc_frame e (pad, t, d))" "j < length (enc_frame e (pad, t, d))"
  shows "\<exists>r'. ReadPhysicalRecord fread e' addr result r = Some (kEof, result, r') \<and> reports r' = reports r \<and> \<not> resyncing r'"
proof (cases "length (buffer r) < kHeaderSize")
  case False
  have "buffer r \<noteq> []" using False block_sizes by auto
  then have "trailer pos = 0" using r False trailer_none [of "length (buffer r)" pos] by (auto simp: reader_at_def)
  then have "pad = 0" "pos mod kBlockSize + kHeaderSize + length d \<le> kBlockSize" using f(1) by (auto simp: placed_def)
  then show ?thesis using parse_cut [OF r, of j e t d e' addr result] F False
    by (simp add: enc_frame_header)
next
  case True
  have res: "\<not> resyncing r" using r by (simp add: reader_at_def)
  show ?thesis
  proof (cases "eof r")
    case True
    then show ?thesis using read_at_end [OF \<open>length (buffer r) < kHeaderSize\<close> True] res by auto
  next
    case False
    have pad: "pad = length (buffer r)"
      using r False True f(1) trailer_buffer [of pos "length (buffer r)"] by (auto simp: reader_at_def placed_def)
    let ?p = "pos + length (buffer r)"
    obtain r1 where r1: "ReadPhysicalRecord fread e' addr result r = ReadPhysicalRecord fread e' addr result r1"
      "reader_at F ?p r1" "buffer r1 = take kBlockSize (drop ?p F)" "reports r1 = reports r"
      "length (buffer r1) < kBlockSize \<longrightarrow> eof r1"
      using refill [OF r True False] by blast
    have "drop ?p F = drop pad (take j (enc_frame e (pad, t, d)))"
      by (metis F(1) add.commute drop_drop pad)
    also have "\<dots> = take (j - pad) (drop pad (enc_frame e (pad, t, d)))" by (rule drop_take)
    also have "drop pad (enc_frame e (pad, t, d)) = header e t d @ d" by (simp add: enc_frame_header)
    finally have F1: "drop ?p F = take (j - pad) (header e t d @ d)" .
    have fit: "?p mod kBlockSize + kHeaderSize + length d \<le> kBlockSize" using f(1) unfolding pad [symmetric] by (auto simp: placed_def)
    have j: "j - pad < kHeaderSize + length d" using F(2) block_sizes by (simp add: length_enc_frame)
    show ?thesis
    proof (cases "length (buffer r1) < kHeaderSize")
      case True
      then have "eof r1" using r1(5) block_sizes by simp
      then show ?thesis using read_at_end [OF True, of e' addr result] r1 by (auto simp: reader_at_def)
    next
      case False
      then show ?thesis using parse_cut [OF r1(2) _ F1 j fit, of e' addr result] r1(1,4) by simp
    qed
  qed
qed

lemma reader_start: "reader_at F pos r \<Longrightarrow> buffer_start r = of_nat pos"
  by (simp add: reader_at_def buffer_start_def)

lemma step_frame:
  assumes "reader_at F pos r" "placed pos f" "fst (snd f) \<noteq> kZeroType" "drop pos F = enc_frame e f @ beyond"
  shows "\<exists>r'. read_step fread e' addr (infr, prosp, scratch, frag, r) =
      Some (read_switch (of_nat pos) (of_nat (record_code (fst (snd f)))) (infr, prosp, scratch, snd (snd f), r')) \<and>
    reader_at F (frame_end pos f) r' \<and> reports r' = reports r"
proof -
  obtain pad t d where f: "f = (pad, t, d)" by (cases f)
  obtain r' where r': "ReadPhysicalRecord fread e' addr frag r = Some (of_nat (record_code t), d, r')"
    "reader_at F (frame_end pos f) r'" "reports r' = reports r"
    using read_frame [OF assms(1), of pad t d e beyond e' addr frag] assms(2-4) by (auto simp: f)
  have "\<not> resyncing r'" "reader_at F (frame_end pos f) (r'\<lparr>resyncing := False\<rparr>)"
    using r'(2) by (simp_all add: reader_at_def)
  then show ?thesis using r' reader_start [OF assms(1)]
    by (intro exI [of _ "r'\<lparr>resyncing := False\<rparr>"]) (simp add: read_step_def f)
qed

lemma step_cut:
  assumes "reader_at F pos r" "placed pos f" "drop pos F = take j (enc_frame e f)" "j < length (enc_frame e f)"
  shows "\<exists>s r'. read_step fread e' addr (infr, prosp, scratch, frag, r) = Some (Inr (False, [], s, r')) \<and> reports r' = reports r"
proof -
  obtain pad t d where f: "f = (pad, t, d)" by (cases f)
  obtain r' where r': "ReadPhysicalRecord fread e' addr frag r = Some (kEof, frag, r')" "reports r' = reports r" "\<not> resyncing r'"
    using read_cut_frame [OF assms(1), of pad t d j e e' addr frag] assms(2-4) by (auto simp: f)
  have "kEof \<noteq> of_nat (record_code t)" for t
    by (cases t) (simp_all add: kEof_def kMaxRecordType_def record_code_def)
  then show ?thesis using r' by (simp add: read_step_def read_switch_def)
qed

lemma type_codes_differ: "(of_nat (record_code t) :: u32) = of_nat (record_code t') \<longleftrightarrow> t = t'"
  by (cases t; cases t') (simp_all add: record_code_def)

lemma read_record:
  "frames_for first data fs \<Longrightarrow> all_placed pos fs \<Longrightarrow> drop pos F = concat (map (enc_frame e) fs) @ beyond \<Longrightarrow>
   reader_at F pos r \<Longrightarrow>
   \<exists>s r'. read_loop fread e' addr (\<not> first, prosp, (if first then [] else scratch), frag, r) =
       Some (True, (if first then [] else scratch) @ data, s, r') \<and>
     reader_at F (pos + length (concat (map (enc_frame e) fs))) r' \<and> reports r' = reports r \<and>
     last_record_offset r' = (if first then of_nat pos else prosp)"
proof (induction first data fs arbitrary: pos prosp scratch frag r rule: frames_for.induct)
  case (2 first data pad t d)
  let ?f = "(pad, t, d)"
  have t: "d = data" "t = (if first then kFullType else kLastType)" using 2 by auto
  obtain r' where r': "read_step fread e' addr (\<not> first, prosp, (if first then [] else scratch), frag, r) =
      Some (read_switch (of_nat pos) (of_nat (record_code t)) (\<not> first, prosp, (if first then [] else scratch), d, r'))"
    "reader_at F (frame_end pos ?f) r'" "reports r' = reports r"
    using step_frame [OF 2(4), of ?f e beyond e' addr "\<not> first" prosp "if first then [] else scratch" frag] 2 t
    by (auto split: if_splits)
  let ?r = "r'\<lparr>last_record_offset := (if first then of_nat pos else prosp)\<rparr>"
  have "reader_at F (frame_end pos ?f) ?r" using r'(2) by (simp add: reader_at_def)
  then show ?case using r'(1,3) t
    by (subst read_loop.simps) (auto simp: read_switch_def type_codes_differ frame_end_length [of _ _ e])
next
  case (3 first data pad t d f fs)
  let ?f = "(pad, t, d)" and ?sc = "if first then [] else scratch"
  obtain rest where t: "t = (if first then kFirstType else kMiddleType)" "data = d @ rest" "frames_for False rest (f # fs)"
    using 3(2) by auto
  obtain r' where r': "read_step fread e' addr (\<not> first, prosp, ?sc, frag, r) =
      Some (read_switch (of_nat pos) (of_nat (record_code t)) (\<not> first, prosp, ?sc, d, r'))"
    "reader_at F (frame_end pos ?f) r'" "reports r' = reports r"
    using step_frame [OF 3(5), of ?f e "concat (map (enc_frame e) (f # fs)) @ beyond" e' addr "\<not> first" prosp ?sc frag] 3(3,4) t(1)
    by (auto split: if_splits)
  let ?p = "if first then of_nat pos else prosp"
  have step: "read_loop fread e' addr (\<not> first, prosp, ?sc, frag, r) =
      read_loop fread e' addr (True, ?p, ?sc @ d, d, r')"
    using r'(1) t(1) by (subst read_loop.simps) (auto simp: read_switch_def type_codes_differ)
  have "drop (frame_end pos ?f) F = concat (map (enc_frame e) (f # fs)) @ beyond"
    using append_is_drop(1) [of "enc_frame e ?f" "concat (map (enc_frame e) (f # fs)) @ beyond" pos F] 3(4,5)
    by (simp add: reader_at_def frame_end_length [of _ _ e])
  from 3(1) [OF t(3) _ this r'(2), of ?p "?sc @ d" d] 3(3) show ?case
    using step r'(3) t(2) by (auto simp: frame_end_length [of _ _ e] add.assoc)
qed simp

lemma read_record_cut:
  "frames_for first data fs \<Longrightarrow> all_placed pos fs \<Longrightarrow> drop pos F = take j (concat (map (enc_frame e) fs)) \<Longrightarrow>
   j < length (concat (map (enc_frame e) fs)) \<Longrightarrow> reader_at F pos r \<Longrightarrow>
   \<exists>s r'. read_loop fread e' addr (\<not> first, prosp, (if first then [] else scratch), frag, r) = Some (False, [], s, r') \<and>
     reports r' = reports r"
proof (induction first data fs arbitrary: pos prosp scratch frag r j rule: frames_for.induct)
  case (2 first data pad t d)
  then show ?case
    using step_cut [OF 2(5), of "(pad, t, d)" j e e' addr "\<not> first" prosp "if first then [] else scratch" frag]
    by (subst read_loop.simps) auto
next
  case (3 first data pad t d f fs)
  let ?f = "(pad, t, d)" and ?sc = "if first then [] else scratch" and ?e = "concat (map (enc_frame e) (f # fs))"
  show ?case
  proof (cases "j < length (enc_frame e ?f)")
    case True
    then have "drop pos F = take j (enc_frame e ?f)" using 3(4) by simp
    then show ?thesis using step_cut [OF 3(6) _ _ True, of e' addr "\<not> first" prosp ?sc frag] 3(3)
      by (subst read_loop.simps) auto
  next
    case False
    let ?j = "j - length (enc_frame e ?f)"
    obtain rest where t: "t = (if first then kFirstType else kMiddleType)" "data = d @ rest" "frames_for False rest (f # fs)"
      using 3(2) by auto
    have F: "drop pos F = enc_frame e ?f @ take ?j ?e" using 3(4) False by simp
    obtain r' where r': "read_step fread e' addr (\<not> first, prosp, ?sc, frag, r) =
        Some (read_switch (of_nat pos) (of_nat (record_code t)) (\<not> first, prosp, ?sc, d, r'))"
      "reader_at F (frame_end pos ?f) r'" "reports r' = reports r"
      using step_frame [OF 3(6), of ?f e "take ?j ?e" e' addr "\<not> first" prosp ?sc frag] 3(3) F t(1)
      by (auto split: if_splits)
    let ?p = "if first then of_nat pos else prosp"
    have step: "read_loop fread e' addr (\<not> first, prosp, ?sc, frag, r) =
        read_loop fread e' addr (True, ?p, ?sc @ d, d, r')"
      using r'(1) t(1) by (subst read_loop.simps) (auto simp: read_switch_def type_codes_differ)
    have F': "drop (frame_end pos ?f) F = take ?j ?e"
      using append_is_drop(1) [OF F [symmetric]] 3(6) by (simp add: reader_at_def frame_end_length [of _ _ e])
    have j: "?j < length ?e" using 3(5) False by simp
    from 3(1) [OF t(3) _ F' j r'(2), of ?p "?sc @ d" d] 3(3) show ?thesis using step r'(3) by auto
  qed
qed simp

lemma read_end:
  assumes "reader_at F pos r" "drop pos F = []"
  shows "\<exists>s r'. read_loop fread e' addr (False, prosp, [], frag, r) = Some (False, [], s, r') \<and> reports r' = reports r"
  using step_cut [OF assms(1) dummy_placed, of 0 True e' addr False prosp "[]" frag] assms(2)
  by (subst read_loop.simps) (auto simp: length_enc_frame block_sizes)

end

section \<open>Whole logs\<close>

text \<open>Adding records one after the other, and reading until there is no further record.\<close>

fun write_all ::
  "(u8 list \<Rightarrow> 'f \<Rightarrow> (Status \<times> 'f) option) \<Rightarrow> ('f \<Rightarrow> (Status \<times> 'f) option) \<Rightarrow> bool \<Rightarrow> nat \<Rightarrow>
   u8 list list \<Rightarrow> 'f Writer \<Rightarrow> 'f Writer option" where
  "write_all fappend fflush e addr [] w = Some w"
| "write_all fappend fflush e addr (d # ds) w = do {
     (s, w) \<leftarrow> AddRecord fappend fflush e addr d w;
     if ok s then write_all fappend fflush e addr ds w else None }"

partial_function (option) read_all ::
  "(nat \<Rightarrow> u8 list \<Rightarrow> 's \<Rightarrow> (Status \<times> u8 list \<times> 's) option) \<Rightarrow> (nat \<Rightarrow> 's \<Rightarrow> (Status \<times> 's) option) \<Rightarrow> bool \<Rightarrow> nat \<Rightarrow>
   's Reader \<Rightarrow> (u8 list list \<times> 's Reader) option" where
  "read_all fread fskip e addr r = do {
     (got, d, r) \<leftarrow> ReadRecord fread fskip e addr r;
     if got then do { (ds, r) \<leftarrow> read_all fread fskip e addr r; Some (d # ds, r) }
     else Some ([], r) }"

text \<open>A reader gives certain records, then no further one, and reports nothing on the way.\<close>

fun reads ::
  "(nat \<Rightarrow> u8 list \<Rightarrow> 's \<Rightarrow> (Status \<times> u8 list \<times> 's) option) \<Rightarrow> (nat \<Rightarrow> 's \<Rightarrow> (Status \<times> 's) option) \<Rightarrow> bool \<Rightarrow> nat \<Rightarrow>
   u8 list list \<Rightarrow> 's Reader \<Rightarrow> 's Reader \<Rightarrow> bool" where
  "reads fread fskip e addr [] r r' \<longleftrightarrow>
     (\<exists>x. ReadRecord fread fskip e addr r = Some (False, x, r')) \<and> reports r' = reports r"
| "reads fread fskip e addr (d # ds) r r' \<longleftrightarrow>
     (\<exists>r1. ReadRecord fread fskip e addr r = Some (True, d, r1) \<and> reports r1 = reports r \<and>
        reads fread fskip e addr ds r1 r')"

lemma reads_read_all:
  "reads fread fskip e addr ds r r' \<Longrightarrow> read_all fread fskip e addr r = Some (ds, r') \<and> reports r' = reports r"
proof (induction ds arbitrary: r)
  case Nil
  then show ?case by (subst read_all.simps) auto
next
  case (Cons d ds)
  then obtain r1 where "ReadRecord fread fskip e addr r = Some (True, d, r1)" "reports r1 = reports r"
    "reads fread fskip e addr ds r1 r'" by auto
  then show ?case using Cons.IH [of r1] by (subst read_all.simps) simp
qed

text \<open>The bytes of a log from an offset on, with the length of each record.\<close>

fun log_frames :: "nat \<Rightarrow> bool \<Rightarrow> u8 list list \<Rightarrow> frame list list \<Rightarrow> bool" where
  "log_frames pos e [] [] \<longleftrightarrow> True"
| "log_frames pos e (d # ds) (fs # fss) \<longleftrightarrow> frames_for True d fs \<and> all_placed pos fs \<and>
     log_frames (pos + length (concat (map (enc_frame e) fs))) e ds fss"
| "log_frames pos e _ _ \<longleftrightarrow> False"

abbreviation log_bytes :: "bool \<Rightarrow> frame list list \<Rightarrow> u8 list" where
  "log_bytes e fss \<equiv> concat (map (enc_frame e) (concat fss))"

context writable_file
begin

lemma write_all_ok:
  "writer_ok w \<Longrightarrow>
   \<exists>w' fss. write_all fappend fflush e addr ds w = Some w' \<and> writer_ok w' \<and>
     log_frames (length (fbytes (dest w))) e ds fss \<and> fbytes (dest w') = fbytes (dest w) @ log_bytes e fss"
proof (induction ds arbitrary: w)
  case Nil
  then show ?case by (intro exI [of _ w] exI [of _ "[]"]) simp
next
  case (Cons d ds)
  obtain w1 fs where w1: "add_loop fappend fflush e addr True d w = Some (OK, w1)" "writer_ok w1" "frames_for True d fs"
    "all_placed (length (fbytes (dest w))) fs" "fbytes (dest w1) = fbytes (dest w) @ concat (map (enc_frame e) fs)"
    using add_loop_ok [OF Cons.prems] by blast
  obtain w2 fss where w2: "write_all fappend fflush e addr ds w1 = Some w2" "writer_ok w2"
    "log_frames (length (fbytes (dest w1))) e ds fss" "fbytes (dest w2) = fbytes (dest w1) @ log_bytes e fss"
    using Cons.IH [OF w1(2)] by blast
  then show ?case using w1 by (intro exI [of _ w2] exI [of _ "fs # fss"]) (simp add: AddRecord_def ok_def)
qed

end

context sequential_file
begin

lemma ReadRecord_at: "reader_at F pos r \<Longrightarrow> ReadRecord fread fskip e addr r =
   (do { (res, rec, _, r) \<leftarrow> read_loop fread e addr (False, 0, [], [], r); Some (res, rec, r) })"
  by (simp add: ReadRecord_def reader_at_def)

text \<open>
  A file that holds the first bytes of a log gives the records it holds completely, and no report.
\<close>

lemma reads_ok:
  "log_frames pos e ds fss \<Longrightarrow> drop pos F = take k (log_bytes e fss) \<Longrightarrow> reader_at F pos r \<Longrightarrow>
   \<exists>m r'. reads fread fskip e' addr (take m ds) r r' \<and>
     (\<forall>i\<le>length ds. length (log_bytes e (take i fss)) \<le> k \<longrightarrow> i \<le> m) \<and> m \<le> length ds"
proof (induction pos e ds fss arbitrary: k r rule: log_frames.induct)
  case (1 pos e)
  obtain s r' where "read_loop fread e' addr (False, 0, [], [], r) = Some (False, [], s, r')" "reports r' = reports r"
    using read_end [OF 1(3), of e' addr 0 "[]"] 1(2) by auto
  then show ?case using ReadRecord_at [OF 1(3), of e' addr] by (intro exI [of _ 0] exI [of _ r']) auto
next
  case (2 pos e d ds fs fss)
  let ?e = "concat (map (enc_frame e) fs)"
  show ?case
  proof (cases "k < length ?e")
    case True
    then have "drop pos F = take k ?e" using 2(3) by simp
    then obtain s r' where "read_loop fread e' addr (False, 0, [], [], r) = Some (False, [], s, r')" "reports r' = reports r"
      using read_record_cut [of True d fs pos F k e r e' addr 0 "[]" "[]"] 2(2,4) True by auto
    moreover have "i = 0" if "i \<le> length (d # ds)" "length (log_bytes e (take i (fs # fss))) \<le> k" for i
      using that True by (cases i) auto
    ultimately show ?thesis using ReadRecord_at [OF 2(4), of e' addr]
      by (intro exI [of _ 0] exI [of _ r']) auto
  next
    case False
    let ?k = "k - length ?e" and ?p = "pos + length ?e"
    have F: "drop pos F = ?e @ take ?k (log_bytes e fss)" using 2(3) False by simp
    obtain s r1 where r1: "read_loop fread e' addr (False, 0, [], [], r) = Some (True, d, s, r1)" "reader_at F ?p r1"
      "reports r1 = reports r"
      using read_record [of True d fs pos F e "take ?k (log_bytes e fss)" r e' addr 0 "[]" "[]"] 2(2,4) F by auto
    have F': "drop ?p F = take ?k (log_bytes e fss)"
      using append_is_drop(1) [OF F [symmetric]] 2(4) by (simp add: reader_at_def)
    from 2(1) [OF _ F' r1(2)] 2(2) obtain m r' where m: "reads fread fskip e' addr (take m ds) r1 r'"
      "\<forall>i\<le>length ds. length (log_bytes e (take i fss)) \<le> ?k \<longrightarrow> i \<le> m" "m \<le> length ds"
      by auto
    have "reads fread fskip e' addr (take (Suc m) (d # ds)) r r'"
      using m(1) r1(1,3) ReadRecord_at [OF 2(4), of e' addr] by simp
    moreover have "i \<le> Suc m" if "i \<le> length (d # ds)" "length (log_bytes e (take i (fs # fss))) \<le> k" for i
      using that m(2) by (cases i) auto
    ultimately show ?thesis using m(3) by (intro exI [of _ "Suc m"] exI [of _ r']) auto
  qed
qed simp_all

lemma new_Reader_at: "sinv s \<Longrightarrow> reader_at (frest s) 0 (new_Reader s rep chk 0)"
  by (simp add: reader_at_def new_Reader_def)

end

end
