(* ===== verification/Level_Memenv.thy ===== *)
theory Level_Memenv
  imports Level_Log_Correct
begin

text \<open>
  The in-memory file system of LevelDB (helpers/memenv/memenv.cc). A file is an object with a
  reference count, a list of 8 KiB blocks and a size; the environment maps names to pointers to such
  objects. Objects live in a heap of their own, so that the count, the deletion of an object with its
  last reference and a stale pointer are all visible. None is undefined behaviour: a null or
  dangling pointer, an access outside a block, or a failed assertion. The bytes of a new block are
  those the allocator left there (junk); the address of a new object is an argument. Every
  operation runs under the mutex of the environment and is one step here.
\<close>

section \<open>One file\<close>

definition kMemBlock :: nat where "kMemBlock = 8 * 1024"

record FileState =
  refs :: int
  blocks :: "u8 list list"
  fsize :: nat

definition new_FileState :: FileState where
  "new_FileState = \<lparr>refs = 0, blocks = [], fsize = 0\<rparr>"

text \<open>The loop of Read over the blocks, with the bytes copied so far.\<close>

partial_function (option) copy_loop :: "u8 list list \<Rightarrow> nat \<Rightarrow> nat \<Rightarrow> nat \<Rightarrow> u8 list \<Rightarrow> u8 list option" where
  "copy_loop bl block boffset bytes_to_copy dst =
     (if bytes_to_copy > 0 then do {
        let avail = kMemBlock - boffset;
        let avail = (if avail > bytes_to_copy then bytes_to_copy else avail);
        b \<leftarrow> nth_opt bl block;
        bs \<leftarrow> rd_mem b boffset avail;
        copy_loop bl (block + 1) 0 (bytes_to_copy - avail) (dst @ bs) }
      else Some dst)"

declare copy_loop.simps [code]

definition FileState_Read :: "FileState \<Rightarrow> nat \<Rightarrow> nat \<Rightarrow> u8 list \<Rightarrow> (Status \<times> u8 list) option" where
  "FileState_Read f offset n result =
     (if offset > fsize f then Some (IOError ''Offset greater than file size.'', result)
      else do {
        let available = fsize f - offset;
        let n = (if n > available then available else n);
        if n = 0 then Some (OK, [])
        else do {
          let block = offset div kMemBlock;
          let boffset = offset mod kMemBlock;
          if n \<le> kMemBlock - boffset then do {
            b \<leftarrow> nth_opt (blocks f) block;
            bs \<leftarrow> rd_mem b boffset n;
            Some (OK, bs) }
          else do {
            bs \<leftarrow> copy_loop (blocks f) block boffset n [];
            Some (OK, bs) } } })"

function append_loop :: "(nat \<Rightarrow> nat \<Rightarrow> u8) \<Rightarrow> u8 list \<Rightarrow> FileState \<Rightarrow> FileState option" where
  "append_loop junk src f =
     (if src = [] then Some f
      else
        let offset = fsize f mod kMemBlock;
            bl = (if offset \<noteq> 0 then blocks f else blocks f @ [map (junk (length (blocks f))) [0..<kMemBlock]]);
            avail = (if offset \<noteq> 0 then kMemBlock - offset else kMemBlock);
            avail = (if avail > length src then length src else avail)
        in if bl = [] then None
           else (case wr_mem (last bl) offset (take avail src) of
                   None \<Rightarrow> None
                 | Some b \<Rightarrow>
                     append_loop junk (drop avail src)
                       (f\<lparr>blocks := butlast bl @ [b], fsize := fsize f + avail\<rparr>)))"
  by auto
termination
  by (relation "measure (\<lambda>(junk, src, f). length src)") (auto simp: kMemBlock_def Let_def split: if_splits)

declare append_loop.simps [simp del]

definition FileState_Append :: "(nat \<Rightarrow> nat \<Rightarrow> u8) \<Rightarrow> u8 list \<Rightarrow> FileState \<Rightarrow> (Status \<times> FileState) option" where
  "FileState_Append junk data f = do { f \<leftarrow> append_loop junk data f; Some (OK, f) }"

section \<open>File handles\<close>

text \<open>A sequential reader is the file object and its position.\<close>

definition Seq_Read :: "nat \<Rightarrow> u8 list \<Rightarrow> FileState \<times> nat \<Rightarrow> (Status \<times> u8 list \<times> (FileState \<times> nat)) option" where
  "Seq_Read n result h = do {
     (s, result) \<leftarrow> FileState_Read (fst h) (snd h) n result;
     Some (s, result, (if ok s then (fst h, snd h + length result) else h)) }"

definition Seq_Skip :: "nat \<Rightarrow> FileState \<times> nat \<Rightarrow> (Status \<times> (FileState \<times> nat)) option" where
  "Seq_Skip n h =
     (if snd h > fsize (fst h) then Some (IOError ''pos_ > file_->Size()'', h)
      else
        let available = fsize (fst h) - snd h;
            n = (if n > available then available else n)
        in Some (OK, (fst h, snd h + n)))"

definition Writable_Append :: "(nat \<Rightarrow> nat \<Rightarrow> u8) \<Rightarrow> u8 list \<Rightarrow> FileState \<Rightarrow> (Status \<times> FileState) option" where
  "Writable_Append junk data f = FileState_Append junk data f"

definition Writable_Flush :: "FileState \<Rightarrow> (Status \<times> FileState) option" where
  "Writable_Flush f = Some (OK, f)"

definition Writable_Sync :: "FileState \<Rightarrow> (Status \<times> FileState) option" where
  "Writable_Sync f = Some (OK, f)"

section \<open>The environment\<close>

text \<open>The map of the code holds pointers: an entry None in it is the null pointer.\<close>

record InMemoryEnv =
  fheap :: "nat \<rightharpoonup> FileState"
  file_map :: "string \<rightharpoonup> nat option"

definition Ref :: "nat \<Rightarrow> InMemoryEnv \<Rightarrow> InMemoryEnv option" where
  "Ref a env = do {
     f \<leftarrow> fheap env a;
     Some (env\<lparr>fheap := (fheap env)(a \<mapsto> f\<lparr>refs := refs f + 1\<rparr>)\<rparr>) }"

definition Unref :: "nat \<Rightarrow> InMemoryEnv \<Rightarrow> InMemoryEnv option" where
  "Unref a env = do {
     f \<leftarrow> fheap env a;
     let r = refs f - 1;
     assert_opt (r \<ge> 0);
     if r \<le> 0 then Some (env\<lparr>fheap := (fheap env)(a := None)\<rparr>)
     else Some (env\<lparr>fheap := (fheap env)(a \<mapsto> f\<lparr>refs := r\<rparr>)\<rparr>) }"

text \<open>A new object, at an address the allocator had free.\<close>

definition alloc_FileState :: "nat \<Rightarrow> InMemoryEnv \<Rightarrow> InMemoryEnv option" where
  "alloc_FileState a env =
     (if fheap env a = None then Some (env\<lparr>fheap := (fheap env)(a \<mapsto> new_FileState)\<rparr>) else None)"

definition not_found :: "string \<Rightarrow> Status" where
  "not_found fname = IOError (fname @ '': File not found'')"

text \<open>Opening a file for reading, in sequence or at random, gives the address the handle holds.\<close>

definition NewSequentialFile :: "string \<Rightarrow> InMemoryEnv \<Rightarrow> (Status \<times> nat option \<times> InMemoryEnv) option" where
  "NewSequentialFile fname env =
     (case file_map env fname of
        None \<Rightarrow> Some (not_found fname, None, env)
      | Some ptr \<Rightarrow> do { a \<leftarrow> ptr; env \<leftarrow> Ref a env; Some (OK, Some a, env) })"

definition NewRandomAccessFile :: "string \<Rightarrow> InMemoryEnv \<Rightarrow> (Status \<times> nat option \<times> InMemoryEnv) option" where
  "NewRandomAccessFile fname env =
     (case file_map env fname of
        None \<Rightarrow> Some (not_found fname, None, env)
      | Some ptr \<Rightarrow> do { a \<leftarrow> ptr; env \<leftarrow> Ref a env; Some (OK, Some a, env) })"

definition DeleteFileInternal :: "string \<Rightarrow> InMemoryEnv \<Rightarrow> InMemoryEnv option" where
  "DeleteFileInternal fname env =
     (case file_map env fname of
        None \<Rightarrow> Some env
      | Some ptr \<Rightarrow> do {
          a \<leftarrow> ptr;
          env \<leftarrow> Unref a env;
          Some (env\<lparr>file_map := (file_map env)(fname := None)\<rparr>) })"

definition NewWritableFile :: "nat \<Rightarrow> string \<Rightarrow> InMemoryEnv \<Rightarrow> (Status \<times> nat option \<times> InMemoryEnv) option" where
  "NewWritableFile addr fname env = do {
     env \<leftarrow> (if file_map env fname \<noteq> None then DeleteFileInternal fname env else Some env);
     env \<leftarrow> alloc_FileState addr env;
     env \<leftarrow> Ref addr env;
     let env = env\<lparr>file_map := (file_map env)(fname \<mapsto> Some addr)\<rparr>;
     env \<leftarrow> Ref addr env;
     Some (OK, Some addr, env) }"

text \<open>Looking a name up with the subscript operator inserts a null pointer when it is absent.\<close>

definition subscript :: "string \<Rightarrow> InMemoryEnv \<Rightarrow> nat option \<times> InMemoryEnv" where
  "subscript fname env =
     (case file_map env fname of
        Some ptr \<Rightarrow> (ptr, env)
      | None \<Rightarrow> (None, env\<lparr>file_map := (file_map env)(fname \<mapsto> None)\<rparr>))"

definition NewAppendableFile :: "nat \<Rightarrow> string \<Rightarrow> InMemoryEnv \<Rightarrow> (Status \<times> nat option \<times> InMemoryEnv) option" where
  "NewAppendableFile addr fname env = do {
     let (ptr, env) = subscript fname env;
     (a, env) \<leftarrow> (case ptr of
        None \<Rightarrow> do { env \<leftarrow> alloc_FileState addr env; env \<leftarrow> Ref addr env; Some (addr, env) }
      | Some a \<Rightarrow> Some (a, env));
     env \<leftarrow> Ref a env;
     Some (OK, Some a, env) }"

definition FileExists :: "string \<Rightarrow> InMemoryEnv \<Rightarrow> bool" where
  "FileExists fname env \<longleftrightarrow> file_map env fname \<noteq> None"

definition DeleteFile :: "string \<Rightarrow> InMemoryEnv \<Rightarrow> (Status \<times> InMemoryEnv) option" where
  "DeleteFile fname env =
     (if file_map env fname = None then Some (not_found fname, env)
      else do { env \<leftarrow> DeleteFileInternal fname env; Some (OK, env) })"

definition GetFileSize :: "string \<Rightarrow> InMemoryEnv \<Rightarrow> (Status \<times> nat option) option" where
  "GetFileSize fname env =
     (case file_map env fname of
        None \<Rightarrow> Some (not_found fname, None)
      | Some ptr \<Rightarrow> do { a \<leftarrow> ptr; f \<leftarrow> fheap env a; Some (OK, Some (fsize f)) })"

definition RenameFile :: "string \<Rightarrow> string \<Rightarrow> InMemoryEnv \<Rightarrow> (Status \<times> InMemoryEnv) option" where
  "RenameFile src target env =
     (if file_map env src = None then Some (not_found src, env)
      else do {
        env \<leftarrow> DeleteFileInternal target env;
        let (ptr, env) = subscript src env;
        let env = env\<lparr>file_map := (file_map env)(target \<mapsto> ptr)\<rparr>;
        Some (OK, env\<lparr>file_map := (file_map env)(src := None)\<rparr>) })"

text \<open>Operations through a handle, which holds the address of its file.\<close>

definition handle_Append :: "(nat \<Rightarrow> nat \<Rightarrow> u8) \<Rightarrow> nat \<Rightarrow> u8 list \<Rightarrow> InMemoryEnv \<Rightarrow> (Status \<times> InMemoryEnv) option" where
  "handle_Append junk a data env = do {
     f \<leftarrow> fheap env a;
     (s, f) \<leftarrow> Writable_Append junk data f;
     Some (s, env\<lparr>fheap := (fheap env)(a \<mapsto> f)\<rparr>) }"

definition handle_Read :: "nat \<Rightarrow> nat \<Rightarrow> nat \<Rightarrow> u8 list \<Rightarrow> InMemoryEnv \<Rightarrow> (Status \<times> u8 list) option" where
  "handle_Read a offset n result env = do { f \<leftarrow> fheap env a; FileState_Read f offset n result }"

section \<open>A file is the sequence of its bytes\<close>

definition blocks_ok :: "u8 list list \<Rightarrow> bool" where
  "blocks_ok bl \<longleftrightarrow> list_all (\<lambda>b. length b = kMemBlock) bl"

definition file_ok :: "FileState \<Rightarrow> bool" where
  "file_ok f \<longleftrightarrow> blocks_ok (blocks f) \<and> length (blocks f) = (fsize f + kMemBlock - 1) div kMemBlock"

definition contents :: "FileState \<Rightarrow> u8 list" where
  "contents f = take (fsize f) (concat (blocks f))"

lemma kMemBlock_pos: "0 < kMemBlock"
  by (simp add: kMemBlock_def)

lemma blocks_ok_simps [simp]:
  "blocks_ok []" "blocks_ok (b # bl) \<longleftrightarrow> length b = kMemBlock \<and> blocks_ok bl"
  "blocks_ok (bl @ bl') \<longleftrightarrow> blocks_ok bl \<and> blocks_ok bl'"
  by (simp_all add: blocks_ok_def)

lemma length_concat_blocks: "blocks_ok bl \<Longrightarrow> length (concat bl) = length bl * kMemBlock"
  by (induction bl) auto

lemma concat_drop_blocks: "blocks_ok bl \<Longrightarrow> concat (drop k bl) = drop (k * kMemBlock) (concat bl)"
proof (induction bl arbitrary: k)
  case (Cons b bl)
  then show ?case by (cases k) auto
qed simp

lemma blocks_nth:
  "blocks_ok bl \<Longrightarrow> k < length bl \<Longrightarrow> length (bl ! k) = kMemBlock \<and> concat (drop k bl) = bl ! k @ concat (drop (Suc k) bl)"
  by (simp add: blocks_ok_def list_all_length Cons_nth_drop_Suc [symmetric])

lemma new_FileState_ok: "file_ok new_FileState" "contents new_FileState = []" "refs new_FileState = 0"
  by (simp_all add: file_ok_def contents_def new_FileState_def kMemBlock_def)

lemma div_ceil: "0 < B \<Longrightarrow> n \<le> (n + B - 1) div B * (B :: nat)"
  using dividend_less_div_times [of B "n + B - 1"] by simp

lemma file_ok_size: "file_ok f \<Longrightarrow> fsize f \<le> length (concat (blocks f))"
  by (simp add: file_ok_def length_concat_blocks div_ceil kMemBlock_pos del: One_nat_def)

lemma length_contents: "file_ok f \<Longrightarrow> length (contents f) = fsize f"
  by (simp add: contents_def file_ok_size)

lemma copy_loop_ok:
  "blocks_ok bl \<Longrightarrow> off < kMemBlock \<Longrightarrow> off + n \<le> length (concat (drop k bl)) \<Longrightarrow>
   copy_loop bl k off n dst = Some (dst @ take n (drop off (concat (drop k bl))))"
proof (induction n arbitrary: k off dst rule: less_induct)
  case (less n)
  show ?case
  proof (cases "n = 0")
    case True
    then show ?thesis by (simp add: copy_loop.simps)
  next
    case False
    have k: "k < length bl" using less.prems False by (cases "k < length bl") auto
    let ?b = "bl ! k" and ?a = "if kMemBlock - off > n then n else kMemBlock - off"
    note b = blocks_nth [OF less.prems(1) k]
    have step: "copy_loop bl k off n dst = copy_loop bl (k + 1) 0 (n - ?a) (dst @ take ?a (drop off ?b))"
      using False k b less.prems(2) by (subst copy_loop.simps) (simp add: Let_def)
    have rest: "0 + (n - ?a) \<le> length (concat (drop (k + 1) bl))"
      using less.prems(2,3) b by (auto split: if_splits)
    have "copy_loop bl (k + 1) 0 (n - ?a) (dst @ take ?a (drop off ?b)) =
        Some ((dst @ take ?a (drop off ?b)) @ take (n - ?a) (drop 0 (concat (drop (k + 1) bl))))"
      using less.IH [OF _ less.prems(1) kMemBlock_pos rest] False less.prems(2) by simp
    then show ?thesis using step b less.prems(2) by (auto split: if_splits)
  qed
qed

lemma FileState_Read_ok:
  assumes "file_ok f" "offset \<le> fsize f"
  shows "FileState_Read f offset n result = Some (OK, take n (drop offset (contents f)))"
proof -
  define m where "m = (if n > fsize f - offset then fsize f - offset else n)"
  let ?k = "offset div kMemBlock" and ?o = "offset mod kMemBlock"
  have bl: "blocks_ok (blocks f)" using assms(1) by (simp add: file_ok_def)
  have o: "?k * kMemBlock + ?o = offset" "?o < kMemBlock" using kMemBlock_pos by simp_all
  have drop: "drop ?o (concat (drop ?k (blocks f))) = drop offset (concat (blocks f))"
    using o(1) by (simp add: concat_drop_blocks [OF bl] add.commute)
  have "offset + m \<le> length (concat (blocks f))"
    using file_ok_size [OF assms(1)] assms(2) by (auto simp: m_def not_less)
  then have len: "?o + m \<le> length (concat (drop ?k (blocks f)))"
    unfolding concat_drop_blocks [OF bl] length_drop using o(1) by linarith
  have want: "take n (drop offset (contents f)) = take m (drop offset (concat (blocks f)))"
    by (simp add: contents_def drop_take min_def m_def)
  have loop: "copy_loop (blocks f) ?k ?o m [] = Some (take m (drop offset (concat (blocks f))))"
    using copy_loop_ok [OF bl o(2) len, of "[]"] drop by simp
  show ?thesis
  proof (cases "m = 0")
    case True
    then show ?thesis using assms(2) by (simp add: FileState_Read_def want flip: m_def)
  next
    case False
    have k: "?k < length (blocks f)" using len False by (cases "?k < length (blocks f)") auto
    note b = blocks_nth [OF bl k]
    have "take m (drop offset (concat (blocks f))) = take m (drop ?o (blocks f ! ?k))" if "m \<le> kMemBlock - ?o"
      using that b o(2) unfolding drop [symmetric] by simp
    then show ?thesis
      using False assms(2) k b o(2) loop by (simp add: FileState_Read_def Let_def want flip: m_def)
  qed
qed

lemma div_block: "(r :: nat) < B \<Longrightarrow> (q * B + r) div B = q"
  by simp

lemma append_room:
  fixes junk :: "nat \<Rightarrow> nat \<Rightarrow> u8"
  assumes "file_ok f"
  defines "offset \<equiv> fsize f mod kMemBlock"
  defines "bl \<equiv> (if offset \<noteq> 0 then blocks f else blocks f @ [map (junk (length (blocks f))) [0..<kMemBlock]])"
  shows "bl \<noteq> [] \<and> blocks_ok bl \<and> length bl = fsize f div kMemBlock + 1 \<and>
    contents f = concat (butlast bl) @ take offset (last bl)"
proof -
  let ?q = "fsize f div kMemBlock"
  have f: "blocks_ok (blocks f)" "length (blocks f) = (fsize f + kMemBlock - 1) div kMemBlock"
    using assms(1) by (simp_all add: file_ok_def)
  have size: "fsize f = ?q * kMemBlock + offset" "offset < kMemBlock"
    using kMemBlock_pos by (simp_all add: offset_def)
  have len: "length bl = ?q + 1"
  proof (cases "offset = 0")
    case True
    then have "fsize f + kMemBlock - 1 = ?q * kMemBlock + (kMemBlock - 1)" using size kMemBlock_pos by simp
    then have "(fsize f + kMemBlock - 1) div kMemBlock = ?q"
      using kMemBlock_pos by (simp only: div_block diff_less zero_less_one)
    then show ?thesis using True f(2) by (simp add: bl_def)
  next
    case False
    then have "fsize f + kMemBlock - 1 = (?q + 1) * kMemBlock + (offset - 1)" using size by (simp add: algebra_simps)
    then have "(fsize f + kMemBlock - 1) div kMemBlock = ?q + 1"
      using size(2) div_block [of "offset - 1" kMemBlock "?q + 1"] by simp
    then show ?thesis using False f(2) by (simp add: bl_def)
  qed
  then have ne: "bl \<noteq> []" by auto
  have ok: "blocks_ok bl" using f(1) by (simp add: bl_def)
  have concat: "concat bl = concat (butlast bl) @ last bl"
    using ne concat_append [of "butlast bl" "[last bl]"] by simp
  have but: "blocks_ok (butlast bl)" using ok ne by (metis append_butlast_last_id blocks_ok_simps(3))
  have "length (concat (butlast bl)) = ?q * kMemBlock" using length_concat_blocks [OF but] len by simp
  moreover have "fsize f - ?q * kMemBlock = offset" "?q * kMemBlock \<le> fsize f" using size(1) by linarith+
  ultimately have "take (fsize f) (concat bl) = concat (butlast bl) @ take offset (last bl)"
    by (simp add: concat)
  moreover have "take (fsize f) (concat bl) = contents f"
    using file_ok_size [OF assms(1)] by (simp add: contents_def bl_def)
  ultimately show ?thesis using ne ok len by simp
qed

lemma append_step:
  assumes "file_ok f" "src \<noteq> []"
  shows "\<exists>k f'. 0 < k \<and> k \<le> length src \<and> append_loop junk src f = append_loop junk (drop k src) f' \<and>
    file_ok f' \<and> contents f' = contents f @ take k src \<and> refs f' = refs f"
proof -
  define offset where "offset = fsize f mod kMemBlock"
  define bl where "bl = (if offset \<noteq> 0 then blocks f else blocks f @ [map (junk (length (blocks f))) [0..<kMemBlock]])"
  define k where "k = (if kMemBlock - offset > length src then length src else kMemBlock - offset)"
  have r: "bl \<noteq> []" "blocks_ok bl" "length bl = fsize f div kMemBlock + 1"
    "contents f = concat (butlast bl) @ take offset (last bl)"
    using append_room [OF assms(1), of junk] unfolding offset_def bl_def by auto
  have off: "offset < kMemBlock" "fsize f = fsize f div kMemBlock * kMemBlock + offset"
    using kMemBlock_pos by (simp_all add: offset_def)
  have k: "0 < k" "k \<le> length src" "offset + k \<le> kMemBlock" using off(1) assms(2) by (auto simp: k_def)
  have bs: "bl = butlast bl @ [last bl]" using r(1) by simp
  have ok: "blocks_ok (butlast bl)" "length (last bl) = kMemBlock"
    using r(2) by (subst (asm) bs, simp)+
  define b where "b = take offset (last bl) @ take k src @ drop (offset + k) (last bl)"
  have wr: "wr_mem (last bl) offset (take k src) = Some b"
    using k ok(2) by (simp add: b_def min_def)
  define f' where "f' = f\<lparr>blocks := butlast bl @ [b], fsize := fsize f + k\<rparr>"
  have avail: "(if offset \<noteq> 0 then kMemBlock - offset else kMemBlock) = kMemBlock - offset" by simp
  have step: "append_loop junk src f = append_loop junk (drop k src) f'"
    unfolding append_loop.simps [of junk src f] Let_def offset_def [symmetric] bl_def [symmetric] avail k_def [symmetric] wr
    using assms(2) r(1) by (simp add: f'_def)
  have b: "length b = kMemBlock" using ok(2) k by (simp add: b_def)
  have "fsize f + k + kMemBlock - 1 = (fsize f div kMemBlock + 1) * kMemBlock + (offset + k - 1)"
    using off(2) k(1) by (simp add: algebra_simps)
  then have "(fsize f + k + kMemBlock - 1) div kMemBlock = fsize f div kMemBlock + 1"
    using k by (subst div_block [symmetric, of "offset + k - 1" kMemBlock]) simp_all
  then have fok: "file_ok f'" using ok(1) b r(3) by (simp add: file_ok_def f'_def)
  have "length (concat (butlast bl)) = fsize f - offset"
    using length_concat_blocks [OF ok(1)] r(3) off(2) by simp
  moreover have "fsize f - offset \<le> fsize f + k" "fsize f + k - (fsize f - offset) = offset + k" using off(2) by linarith+
  ultimately have "contents f' = contents f @ take k src"
    using k ok(2) unfolding contents_def [of f'] by (simp add: f'_def r(4) b_def min_def)
  then show ?thesis using k step fok by (intro exI [of _ k] exI [of _ f']) (simp add: f'_def)
qed

lemma append_loop_ok:
  "file_ok f \<Longrightarrow> \<exists>f'. append_loop junk src f = Some f' \<and> file_ok f' \<and> contents f' = contents f @ src \<and> refs f' = refs f"
proof (induction src arbitrary: f rule: length_induct)
  case (1 src)
  show ?case
  proof (cases "src = []")
    case True
    then show ?thesis using 1(2) by (simp add: append_loop.simps)
  next
    case False
    then obtain k f1 where s: "0 < k" "k \<le> length src" "append_loop junk src f = append_loop junk (drop k src) f1"
      "file_ok f1" "contents f1 = contents f @ take k src" "refs f1 = refs f"
      using append_step [OF 1(2)] by blast
    then have "length (drop k src) < length src" using False by simp
    then obtain f' where "append_loop junk (drop k src) f1 = Some f'" "file_ok f'"
      "contents f' = contents f1 @ drop k src" "refs f' = refs f1"
      using 1(1) s(4) by blast
    then show ?thesis using s by simp
  qed
qed

lemma Writable_Append_ok:
  "file_ok f \<Longrightarrow>
   \<exists>f'. Writable_Append junk data f = Some (OK, f') \<and> file_ok f' \<and> contents f' = contents f @ data \<and> refs f' = refs f"
  using append_loop_ok [of f junk data] by (auto simp: Writable_Append_def FileState_Append_def)

text \<open>The files of the in-memory environment provide what the log relies on.\<close>

interpretation mem_out: writable_file "Writable_Append junk" Writable_Flush contents file_ok for junk
proof
  show "\<exists>f'. Writable_Append junk data f = Some (OK, f') \<and> file_ok f' \<and> contents f' = contents f @ data"
    if "file_ok f" for data f using Writable_Append_ok [OF that] by blast
qed (simp add: Writable_Flush_def)

definition seq_rest :: "FileState \<times> nat \<Rightarrow> u8 list" where
  "seq_rest h = drop (snd h) (contents (fst h))"

definition seq_ok :: "FileState \<times> nat \<Rightarrow> bool" where
  "seq_ok h \<longleftrightarrow> file_ok (fst h) \<and> snd h \<le> fsize (fst h)"

interpretation mem_in: sequential_file Seq_Read Seq_Skip seq_rest seq_ok
proof
  fix n r and h :: "FileState \<times> nat"
  assume "seq_ok h"
  then show "\<exists>s'. Seq_Read n r h = Some (OK, take n (seq_rest h), s') \<and> seq_ok s' \<and> seq_rest s' = drop n (seq_rest h)"
    using length_contents [of "fst h"]
    by (auto simp: Seq_Read_def seq_rest_def seq_ok_def FileState_Read_ok ok_def min_def add.commute)
next
  fix n and h :: "FileState \<times> nat"
  assume "seq_ok h"
  then show "\<exists>s'. Seq_Skip n h = Some (OK, s') \<and> seq_ok s' \<and> seq_rest s' = drop n (seq_rest h)"
    using length_contents [of "fst h"] by (auto simp: Seq_Skip_def seq_rest_def seq_ok_def Let_def add.commute)
qed

section \<open>Reference counts\<close>

text \<open>
  The owners of an object are the names that point to it and the open handles that hold it; ow says
  how many owners each address should have.
\<close>

fun object_ok :: "FileState option \<Rightarrow> nat \<Rightarrow> bool" where
  "object_ok None n \<longleftrightarrow> n = 0"
| "object_ok (Some f) n \<longleftrightarrow> file_ok f \<and> refs f = int n \<and> 0 < n"

definition counts_ok :: "InMemoryEnv \<Rightarrow> (nat \<Rightarrow> nat) \<Rightarrow> bool" where
  "counts_ok env ow \<longleftrightarrow> (\<forall>a. object_ok (fheap env a) (ow a))"

definition owners :: "(string \<rightharpoonup> nat option) \<Rightarrow> nat list \<Rightarrow> nat \<Rightarrow> nat" where
  "owners fm hs a = card {n. fm n = Some (Some a)} + count_list hs a"

definition env_inv :: "InMemoryEnv \<Rightarrow> nat list \<Rightarrow> bool" where
  "env_inv env hs \<longleftrightarrow> finite (dom (file_map env)) \<and> counts_ok env (owners (file_map env) hs)"

text \<open>A name that is in the map with a null pointer.\<close>

definition null_name :: "InMemoryEnv \<Rightarrow> string \<Rightarrow> bool" where
  "null_name env n \<longleftrightarrow> file_map env n = Some None"

text \<open>The bytes behind an address, and the objects that an operation leaves with their bytes.\<close>

definition bytes_at :: "InMemoryEnv \<Rightarrow> nat \<Rightarrow> u8 list option" where
  "bytes_at env a = map_option contents (fheap env a)"

lemma counts_ok_get:
  "counts_ok env ow \<Longrightarrow> 0 < ow a \<Longrightarrow> \<exists>f. fheap env a = Some f \<and> file_ok f \<and> refs f = int (ow a)"
  unfolding counts_ok_def by (cases "fheap env a") (metis object_ok.simps not_less_zero)+

lemma counts_ok_update:
  "counts_ok env ow \<Longrightarrow> file_ok f \<Longrightarrow> refs f = int n \<Longrightarrow> 0 < n \<Longrightarrow>
   counts_ok (env\<lparr>fheap := (fheap env)(a \<mapsto> f)\<rparr>) (ow(a := n))"
  by (auto simp: counts_ok_def)

lemma counts_ok_free:
  "counts_ok env ow \<Longrightarrow> counts_ok (env\<lparr>fheap := (fheap env)(a := None)\<rparr>) (ow(a := 0))"
  by (auto simp: counts_ok_def)

lemma counts_ok_map [simp]: "counts_ok (env\<lparr>file_map := fm\<rparr>) ow = counts_ok env ow"
  by (simp add: counts_ok_def)

lemma file_ok_refs [simp]: "file_ok (f\<lparr>refs := r\<rparr>) = file_ok f" "contents (f\<lparr>refs := r\<rparr>) = contents f"
  by (simp_all add: file_ok_def contents_def)

lemma bytes_at_simps [simp]:
  "bytes_at (env\<lparr>file_map := fm\<rparr>) = bytes_at env"
  "bytes_at (env\<lparr>fheap := (fheap env)(a \<mapsto> f)\<rparr>) = (bytes_at env)(a \<mapsto> contents f)"
  "bytes_at (env\<lparr>fheap := (fheap env)(a := None)\<rparr>) = (bytes_at env)(a := None)"
  by (auto simp: bytes_at_def)

lemma Ref_ok:
  assumes "counts_ok env ow" "0 < ow a"
  shows "\<exists>env'. Ref a env = Some env' \<and> file_map env' = file_map env \<and> bytes_at env' = bytes_at env \<and>
    counts_ok env' (ow(a := ow a + 1))"
proof -
  obtain f where f: "fheap env a = Some f" "file_ok f" "refs f = int (ow a)" using counts_ok_get [OF assms] by blast
  moreover have "bytes_at env a = Some (contents f)" using f(1) by (simp add: bytes_at_def)
  ultimately show ?thesis using counts_ok_update [OF assms(1), of "f\<lparr>refs := refs f + 1\<rparr>" "ow a + 1" a]
    by (auto simp: Ref_def fun_upd_idem)
qed

lemma Unref_ok:
  assumes "counts_ok env ow" "0 < ow a"
  shows "\<exists>env'. Unref a env = Some env' \<and> file_map env' = file_map env \<and>
    (\<forall>b. 0 < (ow(a := ow a - 1)) b \<longrightarrow> bytes_at env' b = bytes_at env b) \<and> counts_ok env' (ow(a := ow a - 1))"
proof -
  obtain f where f: "fheap env a = Some f" "file_ok f" "refs f = int (ow a)" using counts_ok_get [OF assms] by blast
  have b: "bytes_at env a = Some (contents f)" using f(1) by (simp add: bytes_at_def)
  show ?thesis
  proof (cases "ow a = 1")
    case True
    then show ?thesis using f counts_ok_free [OF assms(1), of a] by (simp add: Unref_def)
  next
    case False
    then show ?thesis
      using f b assms(2) counts_ok_update [OF assms(1), of "f\<lparr>refs := refs f - 1\<rparr>" "ow a - 1" a]
      by (auto simp: Unref_def Let_def of_nat_diff)
  qed
qed

lemma alloc_Ref_ok:
  assumes "counts_ok env ow" "fheap env a = None"
  shows "\<exists>env'. do { env \<leftarrow> alloc_FileState a env; Ref a env } = Some env' \<and> file_map env' = file_map env \<and>
    bytes_at env' = (bytes_at env)(a \<mapsto> []) \<and> counts_ok env' (ow(a := 1))"
  using assms(2) counts_ok_update [OF assms(1), of "new_FileState\<lparr>refs := 1\<rparr>" 1 a] new_FileState_ok
  by (simp add: alloc_FileState_def Ref_def)

text \<open>How the owners change when names and handles come and go.\<close>

lemma owners_handle: "owners fm (a # hs) = (owners fm hs)(a := owners fm hs a + 1)"
  by (auto simp: owners_def)

lemma owners_close: "a \<in> set hs \<Longrightarrow> owners fm (remove1 a hs) = (owners fm hs)(a := owners fm hs a - 1)"
proof -
  have "count_list (remove1 a xs) b = count_list xs b - (if a = b then 1 else 0)" for xs b
    by (induction xs) (auto simp: count_list_0_iff)
  moreover assume "a \<in> set hs"
  then have "0 < count_list hs a" using count_list_0_iff [of hs a] by auto
  ultimately show ?thesis by (auto simp: owners_def fun_eq_iff)
qed

lemma owners_insert:
  assumes "finite (dom fm)" "fm n = None"
  shows "owners (fm(n \<mapsto> Some a)) hs = (owners fm hs)(a := owners fm hs a + 1)"
proof -
  have fin: "finite {m. fm m = Some (Some b)}" for b
    by (rule finite_subset [OF _ assms(1)]) auto
  have "{m. (fm(n \<mapsto> Some a)) m = Some (Some b)} =
      (if b = a then insert n {m. fm m = Some (Some b)} else {m. fm m = Some (Some b)})" for b
    using assms(2) by auto
  then show ?thesis using fin assms(2) by (auto simp: owners_def fun_eq_iff)
qed

lemma owners_delete:
  assumes "finite (dom fm)" "fm n = Some (Some a)"
  shows "owners (fm(n := None)) hs = (owners fm hs)(a := owners fm hs a - 1)"
proof -
  have "owners ((fm(n := None))(n \<mapsto> Some a)) hs = (owners (fm(n := None)) hs)(a := owners (fm(n := None)) hs a + 1)"
    by (rule owners_insert) (use assms in auto)
  moreover have "(fm(n := None))(n \<mapsto> Some a) = fm" using assms(2) by auto
  ultimately show ?thesis by simp
qed

lemma owners_null: "owners (fm(n \<mapsto> None)) hs = owners (fm(n := None)) hs"
  by (auto simp: owners_def fun_eq_iff intro!: arg_cong [where f = card])

text \<open>Moving a pointer from one name to another keeps the owners.\<close>

lemma owners_move:
  assumes "finite (dom fm)" "fm src = Some ptr" "fm target = None"
  shows "owners (fm(target \<mapsto> ptr, src := None)) hs = owners fm hs"
proof (cases ptr)
  case None
  have "fm(target \<mapsto> None, src := None) = (fm(src := None))(target \<mapsto> None)" using assms by (auto simp: fun_eq_iff)
  then have "owners (fm(target \<mapsto> None, src := None)) hs = owners (fm(src := None)) hs"
    using owners_null [of "fm(src := None)" target hs] assms(2,3) by (simp add: fun_upd_idem)
  also have "\<dots> = owners fm hs" using owners_null [of fm src hs] assms(2) None by (simp add: fun_upd_idem)
  finally show ?thesis using None by simp
next
  case (Some a)
  let ?g = "fm(src := None)"
  have "owners fm hs = (owners ?g hs)(a := owners ?g hs a + 1)"
    using owners_insert [of ?g src a hs] assms Some by (simp add: fun_upd_idem)
  moreover have "fm(target \<mapsto> ptr, src := None) = ?g(target \<mapsto> Some a)" using assms Some by (auto simp: fun_eq_iff)
  then have "owners (fm(target \<mapsto> ptr, src := None)) hs = (owners ?g hs)(a := owners ?g hs a + 1)"
    using owners_insert [of ?g target a hs] assms by simp
  ultimately show ?thesis by simp
qed

lemma owners_name: "finite (dom fm) \<Longrightarrow> fm n = Some (Some a) \<Longrightarrow> 0 < owners fm hs a"
proof -
  assume "finite (dom fm)" "fm n = Some (Some a)"
  then have "finite {m. fm m = Some (Some a)}" "n \<in> {m. fm m = Some (Some a)}"
    by (auto intro: finite_subset [of _ "dom fm"])
  then show ?thesis by (auto simp: owners_def card_gt_0_iff)
qed

lemma owners_member: "a \<in> set hs \<Longrightarrow> 0 < owners fm hs a"
  using count_list_0_iff [of hs a] by (auto simp: owners_def)

section \<open>Every operation keeps the counts\<close>

lemma env_inv_name:
  assumes "env_inv env hs" "file_map env n = Some (Some a)"
  shows "0 < owners (file_map env) hs a" "\<exists>f. fheap env a = Some f \<and> file_ok f"
proof -
  show o: "0 < owners (file_map env) hs a" using assms by (auto simp: env_inv_def intro: owners_name)
  then show "\<exists>f. fheap env a = Some f \<and> file_ok f"
    using assms(1) counts_ok_get [of env "owners (file_map env) hs" a] by (auto simp: env_inv_def)
qed

lemma open_ok:
  assumes "env_inv env hs" "0 < owners (file_map env) hs a"
  shows "\<exists>env'. Ref a env = Some env' \<and> env_inv env' (a # hs) \<and> file_map env' = file_map env \<and> bytes_at env' = bytes_at env"
  using assms Ref_ok [of env "owners (file_map env) hs" a] by (auto simp: env_inv_def owners_handle)

lemma NewSequentialFile_ok:
  assumes "env_inv env hs" "file_map env n = Some (Some a)"
  shows "\<exists>env'. NewSequentialFile n env = Some (OK, Some a, env') \<and> env_inv env' (a # hs) \<and>
    file_map env' = file_map env \<and> bytes_at env' = bytes_at env"
  using open_ok [OF assms(1) env_inv_name(1) [OF assms]] assms(2) by (auto simp: NewSequentialFile_def)

lemma NewRandomAccessFile_eq: "NewRandomAccessFile n env = NewSequentialFile n env"
  by (simp add: NewRandomAccessFile_def NewSequentialFile_def)

lemma close_ok:
  assumes "env_inv env hs" "a \<in> set hs"
  shows "\<exists>env'. Unref a env = Some env' \<and> env_inv env' (remove1 a hs) \<and> file_map env' = file_map env \<and>
    (\<forall>b. 0 < owners (file_map env) (remove1 a hs) b \<longrightarrow> bytes_at env' b = bytes_at env b)"
proof -
  obtain env' where "Unref a env = Some env'" "file_map env' = file_map env"
    "\<forall>b. 0 < owners (file_map env) (remove1 a hs) b \<longrightarrow> bytes_at env' b = bytes_at env b"
    "counts_ok env' (owners (file_map env) (remove1 a hs))"
    using assms(1) Unref_ok [of env "owners (file_map env) hs" a, folded owners_close [OF assms(2)]]
      owners_member [OF assms(2)] by (auto simp: env_inv_def)
  then show ?thesis using assms(1) by (simp add: env_inv_def)
qed

lemma DeleteFileInternal_ok:
  fixes n :: string
  assumes "env_inv env hs" "\<not> null_name env n"
  defines "fm \<equiv> (file_map env)(n := None)"
  shows "\<exists>env'. DeleteFileInternal n env = Some env' \<and> env_inv env' hs \<and> file_map env' = fm \<and>
    (\<forall>b. 0 < owners fm hs b \<longrightarrow> bytes_at env' b = bytes_at env b)"
proof (cases "file_map env n")
  case None
  then have "fm = file_map env" by (auto simp: fm_def)
  then show ?thesis using assms(1) None by (simp add: DeleteFileInternal_def)
next
  case (Some ptr)
  then obtain a where a: "ptr = Some a" using assms(2) by (cases ptr) (auto simp: null_name_def)
  then have a: "ptr = Some a" "0 < owners (file_map env) hs a" using env_inv_name(1) [OF assms(1)] Some by simp_all
  have fin: "finite (dom (file_map env))" using assms(1) by (simp add: env_inv_def)
  have ow: "owners fm hs = (owners (file_map env) hs)(a := owners (file_map env) hs a - 1)"
    unfolding fm_def using owners_delete [OF fin] Some a(1) by simp
  obtain env' where e: "Unref a env = Some env'" "file_map env' = file_map env"
    "\<forall>b. 0 < owners fm hs b \<longrightarrow> bytes_at env' b = bytes_at env b" "counts_ok env' (owners fm hs)"
    using Unref_ok [of env "owners (file_map env) hs" a] assms(1) a(2) unfolding ow by (auto simp: env_inv_def)
  then show ?thesis using assms(1) Some a(1) fin
    by (auto simp: DeleteFileInternal_def env_inv_def fm_def)
qed

lemma unowned_free: "counts_ok env ow \<Longrightarrow> ow a = 0 \<Longrightarrow> fheap env a = None"
  unfolding counts_ok_def by (cases "fheap env a") (metis object_ok.simps(2) less_numeral_extra(3))+

lemma NewWritableFile_ok:
  assumes "env_inv env hs" "owners ((file_map env)(n := None)) hs addr = 0" "\<not> null_name env n"
  shows "\<exists>env'. NewWritableFile addr n env = Some (OK, Some addr, env') \<and> env_inv env' (addr # hs) \<and>
    file_map env' = (file_map env)(n \<mapsto> Some addr) \<and> bytes_at env' addr = Some [] \<and>
    (\<forall>b. 0 < owners ((file_map env)(n := None)) hs b \<longrightarrow> bytes_at env' b = bytes_at env b)"
proof -
  let ?fm = "(file_map env)(n := None)"
  obtain e1 where e1: "DeleteFileInternal n env = Some e1" "env_inv e1 hs" "file_map e1 = ?fm"
    "\<forall>b. 0 < owners ?fm hs b \<longrightarrow> bytes_at e1 b = bytes_at env b"
    using DeleteFileInternal_ok [OF assms(1,3)] by blast
  then have c1: "counts_ok e1 (owners ?fm hs)" by (simp add: env_inv_def)
  have del: "(if file_map env n \<noteq> None then DeleteFileInternal n env else Some env) = Some e1"
    using e1(1) by (auto simp: DeleteFileInternal_def)
  obtain e2 where e2: "do { env \<leftarrow> alloc_FileState addr e1; Ref addr env } = Some e2" "file_map e2 = ?fm"
    "bytes_at e2 = (bytes_at e1)(addr \<mapsto> [])" "counts_ok e2 ((owners ?fm hs)(addr := 1))"
    using alloc_Ref_ok [OF c1 unowned_free [OF c1 assms(2)]] e1(3) by auto
  let ?e3 = "e2\<lparr>file_map := (file_map env)(n \<mapsto> Some addr)\<rparr>"
  have fin: "finite (dom ?fm)" using e1(2,3) by (simp add: env_inv_def)
  have ow: "owners ((file_map env)(n \<mapsto> Some addr)) hs = (owners ?fm hs)(addr := 1)"
    using owners_insert [OF fin, of n addr hs] assms(2) by simp
  have "env_inv ?e3 hs" using assms(1) e2(4) by (simp add: env_inv_def ow)
  then obtain e4 where e4: "Ref addr ?e3 = Some e4" "env_inv e4 (addr # hs)" "file_map e4 = file_map ?e3" "bytes_at e4 = bytes_at e2"
    using open_ok [of ?e3 hs addr] ow by auto
  have "NewWritableFile addr n env = Some (OK, Some addr, e4)"
  proof -
    obtain a1 where "alloc_FileState addr e1 = Some a1" "Ref addr a1 = Some e2"
      using e2(1) by (auto split: bind_splits)
    then show ?thesis using e4(1) e2(2) unfolding NewWritableFile_def del by (simp add: Let_def)
  qed
  then show ?thesis using e1(4) e2(3) e4 assms(2) by auto
qed

lemma RenameFile_ok:
  assumes "env_inv env hs" "file_map env src = Some ptr" "src \<noteq> target" "\<not> null_name env target"
  shows "\<exists>env'. RenameFile src target env = Some (OK, env') \<and> env_inv env' hs \<and>
    file_map env' = (file_map env)(target \<mapsto> ptr, src := None) \<and>
    (\<forall>b. 0 < owners ((file_map env)(target := None)) hs b \<longrightarrow> bytes_at env' b = bytes_at env b)"
proof -
  let ?fm = "(file_map env)(target := None)"
  obtain e1 where e1: "DeleteFileInternal target env = Some e1" "env_inv e1 hs" "file_map e1 = ?fm"
    "\<forall>b. 0 < owners ?fm hs b \<longrightarrow> bytes_at e1 b = bytes_at env b"
    using DeleteFileInternal_ok [OF assms(1,4)] by blast
  have fin: "finite (dom ?fm)" using e1(2,3) by (simp add: env_inv_def)
  let ?h = "(file_map env)(target \<mapsto> ptr, src := None)"
  have "env_inv (e1\<lparr>file_map := ?h\<rparr>) hs"
    using e1(2,3) fin assms(1) owners_move [OF fin, of src ptr target hs] assms(2,3)
    by (simp add: env_inv_def fun_upd_twist)
  moreover have "RenameFile src target env = Some (OK, e1\<lparr>file_map := ?h\<rparr>)"
    using e1(1,3) assms(2,3) by (simp add: RenameFile_def subscript_def fun_upd_twist)
  ultimately show ?thesis using e1(4) by auto
qed

lemma rename_to_itself:
  assumes "env_inv env hs" "file_map env n = Some ptr" "\<not> null_name env n"
  shows "\<exists>env'. RenameFile n n env = Some (OK, env') \<and> env_inv env' hs \<and> file_map env' = (file_map env)(n := None)"
proof -
  obtain e1 where e1: "DeleteFileInternal n env = Some e1" "env_inv e1 hs" "file_map e1 = (file_map env)(n := None)"
    using DeleteFileInternal_ok [OF assms(1,3)] by blast
  have "e1\<lparr>file_map := (file_map env)(n := None)\<rparr> = e1" using e1(3) by simp
  then have "RenameFile n n env = Some (OK, e1)"
    using e1(1,3) assms(2) by (simp add: RenameFile_def subscript_def)
  then show ?thesis using e1 by simp
qed

lemma handle_Append_ok:
  assumes "env_inv env hs" "a \<in> set hs"
  shows "\<exists>env' bs. bytes_at env a = Some bs \<and> handle_Append junk a data env = Some (OK, env') \<and> env_inv env' hs \<and>
    file_map env' = file_map env \<and> bytes_at env' = (bytes_at env)(a \<mapsto> bs @ data)"
proof -
  let ?ow = "owners (file_map env) hs"
  have c: "counts_ok env ?ow" "0 < ?ow a" using assms owners_member by (auto simp: env_inv_def)
  obtain f where f: "fheap env a = Some f" "file_ok f" "refs f = int (?ow a)" using counts_ok_get [OF c] by blast
  obtain f' where f': "Writable_Append junk data f = Some (OK, f')" "file_ok f'" "contents f' = contents f @ data"
    "refs f' = refs f" using Writable_Append_ok [OF f(2)] by blast
  have "counts_ok (env\<lparr>fheap := (fheap env)(a \<mapsto> f')\<rparr>) (?ow(a := ?ow a))"
    using c f f' by (intro counts_ok_update) auto
  then have "env_inv (env\<lparr>fheap := (fheap env)(a \<mapsto> f')\<rparr>) hs" using assms(1) by (simp add: env_inv_def)
  then show ?thesis using f f' by (simp add: handle_Append_def bytes_at_def)
qed


section \<open>Reachable file systems\<close>

definition new_InMemoryEnv :: InMemoryEnv where
  "new_InMemoryEnv = \<lparr>fheap = Map.empty, file_map = Map.empty\<rparr>"

text \<open>
  A state is an environment with the addresses that open handles hold and, for the account only, the
  addresses whose object was created by NewAppendableFile: such an object has one reference that no
  name and no handle stands for.
\<close>

type_synonym env_state = "InMemoryEnv \<times> nat list \<times> nat list"

inductive env_step :: "(nat \<Rightarrow> nat \<Rightarrow> u8) \<Rightarrow> env_state \<Rightarrow> env_state \<Rightarrow> bool"
  for junk where
  step_sequential: "NewSequentialFile n env = Some (OK, Some a, env') \<Longrightarrow> env_step junk (env, hs, lost) (env', a # hs, lost)"
| step_random: "NewRandomAccessFile n env = Some (OK, Some a, env') \<Longrightarrow> env_step junk (env, hs, lost) (env', a # hs, lost)"
| step_create: "NewWritableFile addr n env = Some (OK, Some a, env') \<Longrightarrow> env_step junk (env, hs, lost) (env', a # hs, lost)"
| step_appendable: "NewAppendableFile addr n env = Some (OK, Some a, env') \<Longrightarrow>
    env_step junk (env, hs, lost) (env', a # hs, if FileExists n env \<and> \<not> null_name env n then lost else a # lost)"
| step_delete: "DeleteFile n env = Some (s, env') \<Longrightarrow> env_step junk (env, hs, lost) (env', hs, lost)"
| step_rename: "RenameFile src target env = Some (s, env') \<Longrightarrow> env_step junk (env, hs, lost) (env', hs, lost)"
| step_append: "a \<in> set hs \<Longrightarrow> handle_Append junk a data env = Some (s, env') \<Longrightarrow> env_step junk (env, hs, lost) (env', hs, lost)"
| step_close: "a \<in> set hs \<Longrightarrow> Unref a env = Some env' \<Longrightarrow> env_step junk (env, hs, lost) (env', remove1 a hs, lost)"

lemma NewSequentialFile_null: "NewSequentialFile n env = None" if "null_name env n"
  using that by (simp add: NewSequentialFile_def null_name_def)

lemma DeleteFileInternal_null: "DeleteFileInternal n env = None" if "null_name env n"
  using that by (simp add: DeleteFileInternal_def null_name_def)

lemma null_undefined:
  assumes "null_name env n"
  shows "NewSequentialFile n env = None" "NewRandomAccessFile n env = None" "NewWritableFile addr n env = None"
    "DeleteFile n env = None" "GetFileSize n env = None" "FileExists src env \<Longrightarrow> RenameFile src n env = None"
  using assms DeleteFileInternal_null [OF assms]
  by (simp_all add: NewSequentialFile_def NewRandomAccessFile_def NewWritableFile_def DeleteFile_def GetFileSize_def
      RenameFile_def FileExists_def null_name_def)

lemma DeleteFile_ok:
  assumes "env_inv env hs" "\<not> null_name env n"
  shows "\<exists>s env'. DeleteFile n env = Some (s, env') \<and> env_inv env' hs \<and> file_map env' = (file_map env)(n := None) \<and>
    (\<forall>b. 0 < owners ((file_map env)(n := None)) hs b \<longrightarrow> bytes_at env' b = bytes_at env b)"
proof (cases "file_map env n = None")
  case True
  then show ?thesis using assms(1) by (simp add: DeleteFile_def fun_upd_idem)
next
  case False
  then show ?thesis using DeleteFileInternal_ok [OF assms] by (auto simp: DeleteFile_def)
qed

text \<open>No operation but NewAppendableFile makes a null name where there was none.\<close>

definition no_null :: "InMemoryEnv \<Rightarrow> bool" where
  "no_null env \<longleftrightarrow> (\<forall>n. \<not> null_name env n)"

lemma RenameFile_inv:
  assumes "env_inv env hs" "\<not> FileExists src env \<or> \<not> null_name env target"
  shows "\<exists>s env'. RenameFile src target env = Some (s, env') \<and> env_inv env' hs \<and> (no_null env \<longrightarrow> no_null env')"
proof (cases "file_map env src")
  case None
  then show ?thesis using assms by (simp add: RenameFile_def)
next
  case (Some ptr)
  then have t: "\<not> null_name env target" using assms(2) by (simp add: FileExists_def)
  show ?thesis
  proof (cases "src = target")
    case True
    then show ?thesis using rename_to_itself [OF assms(1) Some] t by (fastforce simp: no_null_def null_name_def)
  next
    case False
    then obtain env' where e: "RenameFile src target env = Some (OK, env')" "env_inv env' hs"
      "file_map env' = (file_map env)(target \<mapsto> ptr, src := None)" using RenameFile_ok [OF assms(1) Some False t] by blast
    then have "no_null env \<longrightarrow> no_null env'" using Some by (cases ptr) (auto simp: no_null_def null_name_def)
    then show ?thesis using e by blast
  qed
qed

lemma NewWritableFile_addr:
  assumes "env_inv env hs" "NewWritableFile addr n env = Some r"
  shows "owners ((file_map env)(n := None)) hs addr = 0" "\<not> null_name env n"
proof -
  show n: "\<not> null_name env n" using assms(2) null_undefined(3) by force
  obtain e1 where e1: "DeleteFileInternal n env = Some e1" "env_inv e1 hs" "file_map e1 = (file_map env)(n := None)"
    using DeleteFileInternal_ok [OF assms(1) n] by blast
  have "(if file_map env n \<noteq> None then DeleteFileInternal n env else Some env) = Some e1"
    using e1(1) by (auto simp: DeleteFileInternal_def)
  then have "alloc_FileState addr e1 \<noteq> None" using assms(2) unfolding NewWritableFile_def by (auto split: bind_splits)
  then have "fheap e1 addr = None" by (simp add: alloc_FileState_def split: if_splits)
  then show "owners ((file_map env)(n := None)) hs addr = 0"
    using e1(2,3) by (auto simp: env_inv_def counts_ok_def dest: spec [of _ addr])
qed

lemma NewAppendableFile_ok:
  assumes "FileExists n env" "\<not> null_name env n"
  shows "NewAppendableFile addr n env = NewSequentialFile n env"
  using assms by (auto simp: NewAppendableFile_def NewSequentialFile_def subscript_def FileExists_def null_name_def split: option.splits)

lemma NewAppendableFile_new:
  assumes "env_inv env hs" "\<not> FileExists n env \<or> null_name env n" "fheap env addr = None"
  shows "\<exists>env'. NewAppendableFile addr n env = Some (OK, Some addr, env') \<and> env_inv env' (addr # addr # hs) \<and>
    file_map env' = (file_map env)(n \<mapsto> None) \<and> bytes_at env' = (bytes_at env)(addr \<mapsto> [])"
proof -
  define fm where "fm = (file_map env)(n \<mapsto> None)"
  have sub: "subscript n env = (None, env\<lparr>file_map := fm\<rparr>)"
    using assms(2) by (auto simp: subscript_def fm_def FileExists_def null_name_def fun_upd_idem)
  have ow: "owners fm hs = owners (file_map env) hs"
    using assms(2) owners_null [of "file_map env" n hs] by (auto simp: fm_def FileExists_def null_name_def fun_upd_idem)
  have c: "counts_ok (env\<lparr>file_map := fm\<rparr>) (owners fm hs)" "finite (dom fm)"
    using assms(1) unfolding ow by (simp_all add: env_inv_def fm_def)
  obtain e1 where e1: "do { env \<leftarrow> alloc_FileState addr (env\<lparr>file_map := fm\<rparr>); Ref addr env } = Some e1" "file_map e1 = fm"
    "bytes_at e1 = (bytes_at env)(addr \<mapsto> [])" "counts_ok e1 ((owners fm hs)(addr := 1))"
    using alloc_Ref_ok [OF c(1), of addr] assms(3) by auto
  have "owners fm hs addr = 0" using c(1) assms(3) by (auto simp: counts_ok_def dest: spec [of _ addr])
  then have "env_inv e1 (addr # hs)" using e1(2,4) c(2) by (simp add: env_inv_def owners_handle)
  then obtain e2 where "Ref addr e1 = Some e2" "env_inv e2 (addr # addr # hs)" "file_map e2 = fm" "bytes_at e2 = bytes_at e1"
    using open_ok [of e1 "addr # hs" addr] owners_member [of addr "addr # hs"] e1(2) by auto
  moreover obtain a1 where "alloc_FileState addr (env\<lparr>file_map := fm\<rparr>) = Some a1" "Ref addr a1 = Some e1"
    using e1(1) by (auto split: bind_splits)
  ultimately show ?thesis using e1(3) by (simp add: NewAppendableFile_def sub fm_def)
qed

lemma NewAppendableFile_addr:
  assumes "NewAppendableFile addr n env = Some r" "\<not> FileExists n env \<or> null_name env n"
  shows "fheap env addr = None"
  using assms by (auto simp: NewAppendableFile_def subscript_def alloc_FileState_def FileExists_def null_name_def split: if_splits bind_splits)

lemma NewSequentialFile_inv:
  assumes "env_inv env hs" "NewSequentialFile n env = Some (OK, Some a, env')"
  shows "env_inv env' (a # hs) \<and> file_map env' = file_map env"
proof -
  have "file_map env n = Some (Some a)"
    using assms(2) by (auto simp: NewSequentialFile_def not_found_def split: option.splits bind_splits)
  from NewSequentialFile_ok [OF assms(1) this] show ?thesis using assms(2) by auto
qed

section \<open>The invariant of the states\<close>

fun state_inv :: "env_state \<Rightarrow> bool" where
  "state_inv (env, hs, lost) \<longleftrightarrow> env_inv env (hs @ lost) \<and> (lost = [] \<longrightarrow> no_null env)"

lemma env_inv_swap: "env_inv env (a # b # hs @ lost) = env_inv env (a # hs @ b # lost)"
proof -
  have "owners fm (a # b # hs @ lost) = owners fm (a # hs @ b # lost)" for fm by (auto simp: owners_def)
  then show ?thesis by (simp add: env_inv_def)
qed

lemma env_step_inv: "env_step junk w w' \<Longrightarrow> state_inv w \<Longrightarrow> state_inv w'"
proof (induction rule: env_step.induct)
  case (step_sequential n env a env' hs lost)
  then show ?case using NewSequentialFile_inv [of env "hs @ lost" n a env'] by (auto simp: no_null_def null_name_def)
next
  case (step_random n env a env' hs lost)
  then show ?case using NewSequentialFile_inv [of env "hs @ lost" n a env']
    by (auto simp: NewRandomAccessFile_eq no_null_def null_name_def)
next
  case (step_create addr n env a env' hs lost)
  then have i: "env_inv env (hs @ lost)" by simp
  show ?case using NewWritableFile_ok [OF i NewWritableFile_addr [OF i step_create(1)]] step_create
    by (auto simp: no_null_def null_name_def)
next
  case (step_appendable addr n env a env' hs lost)
  then have i: "env_inv env (hs @ lost)" by simp
  show ?case
  proof (cases "FileExists n env \<and> \<not> null_name env n")
    case True
    then have "NewSequentialFile n env = Some (OK, Some a, env')" using NewAppendableFile_ok [of n env addr] step_appendable(1) by simp
    then show ?thesis using NewSequentialFile_inv [OF i] step_appendable(2) True by (auto simp: no_null_def null_name_def)
  next
    case False
    then have "fheap env addr = None" using NewAppendableFile_addr [OF step_appendable(1)] by blast
    then have "env_inv env' (a # a # hs @ lost)"
      using NewAppendableFile_new [OF i, of n addr] False step_appendable(1) by auto
    then have "state_inv (env', a # hs, a # lost)" using env_inv_swap [of env' a a hs lost] by simp
    then show ?thesis unfolding if_not_P [OF False] .
  qed
next
  case (step_delete n env s env' hs lost)
  then have "\<not> null_name env n" using null_undefined(4) by force
  then show ?case using DeleteFile_ok [of env "hs @ lost" n] step_delete by (auto simp: no_null_def null_name_def)
next
  case (step_rename src target env s env' hs lost)
  then have "\<not> FileExists src env \<or> \<not> null_name env target" using null_undefined(6) [of env target src] by force
  then show ?case using RenameFile_inv [of env "hs @ lost" src target] step_rename by auto
next
  case (step_append a hs data env s env' lost)
  then show ?case using handle_Append_ok [of env "hs @ lost" a junk data] by (auto simp: no_null_def null_name_def)
next
  case (step_close a hs env env' lost)
  then show ?case using close_ok [of env "hs @ lost" a] by (auto simp: remove1_append no_null_def null_name_def)
qed

lemma env_reach_state: "(env_step junk)\<^sup>*\<^sup>* (new_InMemoryEnv, [], []) w \<Longrightarrow> state_inv w"
proof (induction rule: rtranclp_induct)
  case base
  then show ?case by (simp add: env_inv_def new_InMemoryEnv_def counts_ok_def owners_def no_null_def null_name_def)
qed (rule env_step_inv)

lemma env_reach_inv: "(env_step junk)\<^sup>*\<^sup>* (new_InMemoryEnv, [], []) (env, hs, lost) \<Longrightarrow> env_inv env (hs @ lost)"
  using env_reach_state by fastforce

text \<open>What the operations give on a state that satisfies the invariant.\<close>

lemma counts_exact:
  assumes "env_inv env hs" "fheap env a = Some f"
  shows "0 < refs f \<and> refs f = int (card {n. file_map env n = Some (Some a)} + count_list hs a)"
proof -
  have "object_ok (fheap env a) (owners (file_map env) hs a)" using assms(1) by (simp add: env_inv_def counts_ok_def)
  then have "0 < refs f \<and> refs f = int (owners (file_map env) hs a)" using assms(2) by simp
  then show ?thesis unfolding owners_def .
qed

lemma names_defined:
  assumes "env_inv env hs"
  shows "(\<exists>r. NewSequentialFile n env = Some r) \<longleftrightarrow> \<not> null_name env n" "(\<exists>r. GetFileSize n env = Some r) \<longleftrightarrow> \<not> null_name env n"
proof -
  have "(\<exists>r. NewSequentialFile n env = Some r) \<and> (\<exists>r. GetFileSize n env = Some r)" if nn: "\<not> null_name env n"
  proof (cases "file_map env n")
    case None
    then show ?thesis by (simp add: NewSequentialFile_def GetFileSize_def)
  next
    case (Some ptr)
    then obtain a where a: "file_map env n = Some (Some a)" using nn by (cases ptr) (auto simp: null_name_def)
    then show ?thesis using NewSequentialFile_ok [OF assms a] env_inv_name(2) [OF assms a] by (auto simp: GetFileSize_def)
  qed
  then show "(\<exists>r. NewSequentialFile n env = Some r) \<longleftrightarrow> \<not> null_name env n" "(\<exists>r. GetFileSize n env = Some r) \<longleftrightarrow> \<not> null_name env n"
    using null_undefined [of env n] by force+
qed

lemma owners_mono: "finite (dom fm) \<Longrightarrow> owners (fm(n := None)) hs a \<le> owners fm hs a"
  by (auto simp: owners_def intro!: card_mono intro: finite_subset [of _ "dom fm"])

lemma create_defined:
  assumes "env_inv env hs" "fheap env addr = None"
  shows "(\<exists>r. NewWritableFile addr n env = Some r) \<longleftrightarrow> \<not> null_name env n"
proof -
  have "owners (file_map env) hs addr = 0"
    using assms by (auto simp: env_inv_def counts_ok_def dest: spec [of _ addr])
  then have "owners ((file_map env)(n := None)) hs addr = 0"
    using assms(1) owners_mono [of "file_map env" n hs addr] by (simp add: env_inv_def)
  then show ?thesis using NewWritableFile_ok [OF assms(1)] null_undefined(3) by force
qed

lemma appendable_defined:
  assumes "env_inv env hs" "fheap env addr = None"
  shows "\<exists>r. NewAppendableFile addr n env = Some r"
proof (cases "FileExists n env \<and> \<not> null_name env n")
  case True
  then show ?thesis using NewAppendableFile_ok [of n env addr] names_defined(1) [OF assms(1), of n] by simp
next
  case False
  then show ?thesis using NewAppendableFile_new [OF assms(1) _ assms(2), of n] by blast
qed

lemma change_defined:
  assumes "env_inv env hs"
  shows "(\<exists>r. DeleteFile n env = Some r) \<longleftrightarrow> \<not> null_name env n"
    "(\<exists>r. RenameFile src n env = Some r) \<longleftrightarrow> \<not> (FileExists src env \<and> null_name env n)"
  using DeleteFile_ok [OF assms, of n] RenameFile_inv [OF assms, of src n] null_undefined(4,6) [of env n] by force+

lemma handle_defined:
  assumes "env_inv env hs" "a \<in> set hs"
  shows "\<exists>r. Unref a env = Some r" "\<exists>r. handle_Append junk a data env = Some r"
    "\<exists>r. handle_Read a offset n result env = Some r"
proof -
  show "\<exists>r. Unref a env = Some r" "\<exists>r. handle_Append junk a data env = Some r"
    using close_ok [OF assms] handle_Append_ok [OF assms] by blast+
  have c: "counts_ok env (owners (file_map env) hs)" "0 < owners (file_map env) hs a"
    using assms owners_member by (auto simp: env_inv_def)
  obtain f where f: "fheap env a = Some f" "file_ok f" using counts_ok_get [OF c] by blast
  then show "\<exists>r. handle_Read a offset n result env = Some r"
    using FileState_Read_ok [OF f(2), of offset n result]
    by (cases "offset \<le> fsize f") (auto simp: handle_Read_def FileState_Read_def)
qed

text \<open>
  C11. Reference counting in the in-memory environment. Whatever operations have been carried out on
  files and handles, the count of every file object is positive and is the number of names and open
  handles that refer to it, plus one when NewAppendableFile created it. So nothing is deleted while it
  is in use, and nothing is leaked unless a file that did not exist was opened for appending. That is
  also the only way a name comes to hold a null pointer. The operations are undefined exactly where
  they follow such a pointer: opening, creating, deleting or sizing that name, or renaming a file to
  it. Everything else is defined, for every open handle in particular.
\<close>

theorem memenv_safe:
  assumes "(env_step junk)\<^sup>*\<^sup>* (new_InMemoryEnv, [], []) (env, hs, lost)"
  shows "(\<forall>a f. fheap env a = Some f \<longrightarrow>
      0 < refs f \<and> refs f = int (card {n. file_map env n = Some (Some a)} + count_list hs a + count_list lost a)) \<and>
    (lost = [] \<longrightarrow> (\<forall>n. \<not> null_name env n)) \<and>
    (\<forall>n. ((\<exists>r. NewSequentialFile n env = Some r) \<longleftrightarrow> \<not> null_name env n) \<and>
      ((\<exists>r. NewRandomAccessFile n env = Some r) \<longleftrightarrow> \<not> null_name env n) \<and>
      ((\<exists>r. DeleteFile n env = Some r) \<longleftrightarrow> \<not> null_name env n) \<and>
      ((\<exists>r. GetFileSize n env = Some r) \<longleftrightarrow> \<not> null_name env n) \<and>
      (\<forall>src. (\<exists>r. RenameFile src n env = Some r) \<longleftrightarrow> \<not> (FileExists src env \<and> null_name env n)) \<and>
      (\<forall>addr. fheap env addr = None \<longrightarrow>
        ((\<exists>r. NewWritableFile addr n env = Some r) \<longleftrightarrow> \<not> null_name env n) \<and> (\<exists>r. NewAppendableFile addr n env = Some r))) \<and>
    (\<forall>a\<in>set hs. (\<exists>r. Unref a env = Some r) \<and> (\<forall>data. \<exists>r. handle_Append junk a data env = Some r) \<and>
      (\<forall>offset n. \<exists>r. handle_Read a offset n [] env = Some r))"
proof -
  have i: "env_inv env (hs @ lost)" by (rule env_reach_inv [OF assms])
  have null: "lost = [] \<longrightarrow> (\<forall>n. \<not> null_name env n)" using env_reach_state [OF assms] by (simp add: no_null_def)
  have counts: "\<forall>a f. fheap env a = Some f \<longrightarrow>
      0 < refs f \<and> refs f = int (card {n. file_map env n = Some (Some a)} + count_list hs a + count_list lost a)"
    using counts_exact [OF i] unfolding count_list_append add.assoc [symmetric] by blast
  have handles: "\<forall>a\<in>set hs. (\<exists>r. Unref a env = Some r) \<and> (\<forall>data. \<exists>r. handle_Append junk a data env = Some r) \<and>
      (\<forall>offset n. \<exists>r. handle_Read a offset n [] env = Some r)" using handle_defined [OF i] by simp
  show ?thesis
    by (intro conjI [OF counts] conjI [OF null] conjI [OF _ handles])
      (simp add: NewRandomAccessFile_eq names_defined [OF i] change_defined [OF i] create_defined [OF i] appendable_defined [OF i]
        del: split_paired_Ex)
qed

text \<open>A file that is created, and another that is opened for appending without existing.\<close>

definition demo_env :: InMemoryEnv where
  "demo_env = \<lparr>fheap = [0 \<mapsto> \<lparr>refs = 2, blocks = [], fsize = 0\<rparr>], file_map = [''a'' \<mapsto> Some 0]\<rparr>"

lemma demo_create: "NewWritableFile 0 ''a'' new_InMemoryEnv = Some (OK, Some 0, demo_env)"
  by (simp add: NewWritableFile_def new_InMemoryEnv_def alloc_FileState_def Ref_def demo_env_def new_FileState_def)

lemma demo_reach: "(env_step junk)\<^sup>*\<^sup>* (new_InMemoryEnv, [], []) (demo_env, [0], [])"
  using step_create [OF demo_create, of junk "[]" "[]"] by blast

definition demo_lost :: InMemoryEnv where
  "demo_lost = \<lparr>fheap = [0 \<mapsto> \<lparr>refs = 2, blocks = [], fsize = 0\<rparr>, 1 \<mapsto> \<lparr>refs = 2, blocks = [], fsize = 0\<rparr>],
     file_map = [''a'' \<mapsto> Some 0, ''b'' \<mapsto> None]\<rparr>"

lemma demo_appendable: "NewAppendableFile 1 ''b'' demo_env = Some (OK, Some 1, demo_lost)"
  by (simp add: NewAppendableFile_def subscript_def alloc_FileState_def Ref_def demo_env_def demo_lost_def new_FileState_def)

lemma demo_lost_reach: "(env_step junk)\<^sup>*\<^sup>* (new_InMemoryEnv, [], []) (demo_lost, [1, 0], [1])"
  using rtranclp.rtrancl_into_rtrancl [OF demo_reach step_appendable [OF demo_appendable, of junk "[0]" "[]"]]
  by (simp add: FileExists_def demo_env_def)

theorem memenv_safe_witness:
  "(env_step (\<lambda>_ _. 0))\<^sup>*\<^sup>* (new_InMemoryEnv, [], []) (demo_lost, [1, 0], [1]) \<and>
   (\<exists>r. DeleteFile ''a'' demo_lost = Some r) \<and> DeleteFile ''b'' demo_lost = None \<and>
   (\<exists>r. handle_Append (\<lambda>_ _. 0) 1 [1, 2] demo_lost = Some r)"
proof -
  have "\<not> null_name demo_lost ''a''" "null_name demo_lost ''b''" by (simp_all add: null_name_def demo_lost_def)
  then show ?thesis using memenv_safe [OF demo_lost_reach, of "\<lambda>_ _. 0"] demo_lost_reach by auto
qed

section \<open>The file system view\<close>

definition file_bytes :: "InMemoryEnv \<Rightarrow> string \<Rightarrow> u8 list option" where
  "file_bytes env n = (case file_map env n of Some (Some a) \<Rightarrow> bytes_at env a | _ \<Rightarrow> None)"








text \<open>
  C37. Two operations lose files. In any state reached without opening a file for appending that did not
  exist: opening a new file for appending never stores the new object in the
  map: the name then exists but is a null pointer, so opening it for reading is undefined, and what is
  written to the file belongs to no name. Renaming an existing file to its own name reports success
  and deletes it.
\<close>

theorem memenv_lost_files:
  assumes "(env_step junk)\<^sup>*\<^sup>* (new_InMemoryEnv, [], []) (env, hs, [])" and "\<not> FileExists n env" "fheap env addr = None"
    and "FileExists m env"
  shows "(\<exists>env'. NewAppendableFile addr n env = Some (OK, Some addr, env') \<and> FileExists n env' \<and>
      NewSequentialFile n env' = None \<and> GetFileSize n env' = None \<and> file_bytes env' n = None) \<and>
    (\<exists>env'. RenameFile m m env = Some (OK, env') \<and> \<not> FileExists m env')"
proof -
  have "file_map env n = None" using assms(2) by (simp add: FileExists_def)
  moreover obtain ptr where "file_map env m = Some ptr" using assms(4) by (auto simp: FileExists_def)
  then have "\<exists>env'. RenameFile m m env = Some (OK, env') \<and> \<not> FileExists m env'"
    using rename_to_itself [OF env_reach_inv [OF assms(1)]] env_reach_state [OF assms(1)] by (fastforce simp: FileExists_def no_null_def)
  ultimately show ?thesis using assms(3)
    by (simp add: NewAppendableFile_def subscript_def alloc_FileState_def Ref_def FileExists_def
        NewSequentialFile_def GetFileSize_def file_bytes_def)
qed

theorem memenv_lost_files_witness:
  "(env_step (\<lambda>_ _. 0))\<^sup>*\<^sup>* (new_InMemoryEnv, [], []) (demo_env, [0], []) \<and>
   (\<exists>env'. NewAppendableFile 1 ''b'' demo_env = Some (OK, Some 1, env') \<and> NewSequentialFile ''b'' env' = None) \<and>
   (\<exists>env'. RenameFile ''a'' ''a'' demo_env = Some (OK, env') \<and> \<not> FileExists ''a'' env')"
proof -
  have "\<not> FileExists ''b'' demo_env" "fheap demo_env 1 = None" "FileExists ''a'' demo_env"
    by (simp_all add: FileExists_def demo_env_def)
  from memenv_lost_files [OF demo_reach this] show ?thesis using demo_reach by blast
qed

end
