(* ===== verification/Level_Recovery.thy ===== *)
theory Level_Recovery
  imports Level_Memenv
begin

text \<open>
  The log on the files of the in-memory environment: what is left of a log after a crash is read back
  up to the record in which it was cut.
\<close>

section \<open>Logs written in several sessions\<close>

text \<open>Each session opens the file for appending, as a database that reuses its log does.\<close>

fun write_sessions :: "(nat \<Rightarrow> nat \<Rightarrow> u8) \<Rightarrow> bool \<Rightarrow> nat \<Rightarrow> u8 list list list \<Rightarrow> FileState \<Rightarrow> FileState option" where
  "write_sessions junk e addr [] f = Some f"
| "write_sessions junk e addr (ds # ss) f = do {
     w \<leftarrow> new_Writer_at addr f (fsize f);
     w \<leftarrow> write_all (Writable_Append junk) Writable_Flush e addr ds w;
     write_sessions junk e addr ss (dest w) }"

lemma log_frames_append:
  "log_frames pos e ds fss \<Longrightarrow> log_frames (pos + length (log_bytes e fss)) e ds' fss' \<Longrightarrow>
   log_frames pos e (ds @ ds') (fss @ fss')"
  by (induction pos e ds fss rule: log_frames.induct) (simp_all add: add.assoc)

lemma log_frames_length: "log_frames pos e ds fss \<Longrightarrow> length fss = length ds"
  by (induction pos e ds fss rule: log_frames.induct) simp_all

lemma session_ok:
  assumes "file_ok f"
  shows "\<exists>w w' fss. new_Writer_at addr f (fsize f) = Some w \<and>
    write_all (Writable_Append junk) Writable_Flush e addr ds w = Some w' \<and> file_ok (dest w') \<and>
    log_frames (length (contents f)) e ds fss \<and> contents (dest w') = contents f @ log_bytes e fss"
proof -
  obtain w where w: "new_Writer_at addr f (fsize f) = Some w" "mem_out.writer_ok w" "dest w = f"
    using mem_out.new_Writer_at_ok [OF assms, of "fsize f" addr] length_contents [OF assms] by auto
  then show ?thesis using mem_out.write_all_ok [OF w(2), of junk e addr ds] by (auto simp: mem_out.writer_ok_def)
qed

lemma sessions_ok:
  "file_ok f \<Longrightarrow>
   \<exists>g fss. write_sessions junk e addr ss f = Some g \<and> file_ok g \<and>
     log_frames (length (contents f)) e (concat ss) fss \<and> contents g = contents f @ log_bytes e fss"
proof (induction ss arbitrary: f)
  case Nil
  then show ?case by (intro exI [of _ f] exI [of _ "[]"]) simp
next
  case (Cons ds ss)
  obtain w w' fss where w: "new_Writer_at addr f (fsize f) = Some w"
    "write_all (Writable_Append junk) Writable_Flush e addr ds w = Some w'" "file_ok (dest w')"
    "log_frames (length (contents f)) e ds fss" "contents (dest w') = contents f @ log_bytes e fss"
    using session_ok [OF Cons.prems] by blast
  obtain g fss' where g: "write_sessions junk e addr ss (dest w') = Some g" "file_ok g"
    "log_frames (length (contents (dest w'))) e (concat ss) fss'" "contents g = contents (dest w') @ log_bytes e fss'"
    using Cons.IH [OF w(3)] by blast
  have "log_frames (length (contents f)) e (concat (ds # ss)) (fss @ fss')"
    using log_frames_append [OF w(4)] g(3) w(5) by simp
  then show ?case using w g by (intro exI [of _ g] exI [of _ "fss @ fss'"]) simp
qed

text \<open>A log up to a record in the middle of a session, and its continuation.\<close>

lemma write_all_append:
  "write_all fa ff e addr (xs @ ys) w = do { w \<leftarrow> write_all fa ff e addr xs w; write_all fa ff e addr ys w }"
  by (induction xs arbitrary: w) (auto split: bind_splits)

lemma write_sessions_append:
  "write_sessions junk e addr (ss @ ss') f = do { f \<leftarrow> write_sessions junk e addr ss f; write_sessions junk e addr ss' f }"
  by (induction ss arbitrary: f) (auto split: bind_splits)

lemma sessions_split:
  assumes "file_ok f"
  shows "\<exists>f1 g fss1 fss2. write_sessions junk e addr (ss1 @ [xs]) f = Some f1 \<and>
    write_sessions junk e addr (ss1 @ (xs @ ys) # ss2) f = Some g \<and> file_ok f1 \<and> file_ok g \<and>
    log_frames (length (contents f)) e (concat ss1 @ xs @ ys @ concat ss2) (fss1 @ fss2) \<and>
    length fss1 = length (concat ss1 @ xs) \<and>
    contents f1 = contents f @ log_bytes e fss1 \<and> contents g = contents f @ log_bytes e (fss1 @ fss2)"
proof -
  obtain h A where h: "write_sessions junk e addr ss1 f = Some h" "file_ok h"
    "log_frames (length (contents f)) e (concat ss1) A" "contents h = contents f @ log_bytes e A"
    using sessions_ok [OF assms] by blast
  obtain w where w: "new_Writer_at addr h (fsize h) = Some w" "mem_out.writer_ok w" "dest w = h"
    using mem_out.new_Writer_at_ok [OF h(2), of "fsize h" addr] length_contents [OF h(2)] by auto
  obtain w1 B where w1: "write_all (Writable_Append junk) Writable_Flush e addr xs w = Some w1" "mem_out.writer_ok w1"
    "log_frames (length (contents h)) e xs B" "contents (dest w1) = contents h @ log_bytes e B"
    using mem_out.write_all_ok [OF w(2), of junk e addr xs] w(3) by auto
  obtain w2 C where w2: "write_all (Writable_Append junk) Writable_Flush e addr ys w1 = Some w2" "mem_out.writer_ok w2"
    "log_frames (length (contents (dest w1))) e ys C" "contents (dest w2) = contents (dest w1) @ log_bytes e C"
    using mem_out.write_all_ok [OF w1(2), of junk e addr ys] by auto
  have ok: "file_ok (dest w1)" "file_ok (dest w2)" using w1(2) w2(2) by (auto simp: mem_out.writer_ok_def)
  obtain g D where g: "write_sessions junk e addr ss2 (dest w2) = Some g" "file_ok g"
    "log_frames (length (contents (dest w2))) e (concat ss2) D" "contents g = contents (dest w2) @ log_bytes e D"
    using sessions_ok [OF ok(2)] by blast
  have AB: "log_frames (length (contents f)) e (concat ss1 @ xs) (A @ B)"
    using log_frames_append [OF h(3)] w1(3) h(4) by simp
  moreover have "log_frames (length (contents f) + length (log_bytes e (A @ B))) e (ys @ concat ss2) (C @ D)"
    using log_frames_append [OF w2(3)] g(3) h(4) w1(4) w2(4) by (simp add: add.assoc)
  ultimately have "log_frames (length (contents f)) e (concat ss1 @ xs @ ys @ concat ss2) ((A @ B) @ C @ D)"
    using log_frames_append by fastforce
  moreover have "write_sessions junk e addr (ss1 @ [xs]) f = Some (dest w1)"
    using h(1) w(1) w1(1) by (simp add: write_sessions_append)
  moreover have "write_sessions junk e addr (ss1 @ (xs @ ys) # ss2) f = Some g"
    using h(1) w(1) w1(1) w2(1) g(1) by (simp add: write_sessions_append write_all_append)
  ultimately show ?thesis using ok g(2,4) h(4) w1(4) w2(4) log_frames_length [OF AB]
    by (intro exI [of _ "dest w1"] exI [of _ g] exI [of _ "A @ B"] exI [of _ "C @ D"]) simp
qed

lemma recover_cut:
  assumes "log_frames 0 e ds fss" "file_ok g" "contents g = take k (log_bytes e fss)"
  shows "\<exists>m r. reads Seq_Read Seq_Skip e' addr (take m ds) (new_Reader (g, 0) rep chk 0) r \<and>
    (\<forall>i\<le>length ds. length (log_bytes e (take i fss)) \<le> k \<longrightarrow> i \<le> m) \<and> m \<le> length ds"
proof -
  have "seq_ok (g, 0)" "seq_rest (g, 0) = contents g" using assms(2) by (simp_all add: seq_ok_def seq_rest_def)
  then have "mem_in.reader_at (contents g) 0 (new_Reader (g, 0) rep chk 0)" using mem_in.new_Reader_at by metis
  then show ?thesis
    using mem_in.reads_ok [OF assms(1), of "contents g" k "new_Reader (g, 0) rep chk 0" e' addr] assms(3) by simp
qed

lemma recover_read_all:
  assumes "log_frames 0 e ds fss" "file_ok g" "contents g = take k (log_bytes e fss)"
  shows "\<exists>m r. read_all Seq_Read Seq_Skip e' addr (new_Reader (g, 0) rep chk 0) = Some (take m ds, r) \<and> reports r = [] \<and>
    (\<forall>i\<le>length ds. length (log_bytes e (take i fss)) \<le> k \<longrightarrow> i \<le> m) \<and> m \<le> length ds"
proof -
  have "reports (new_Reader (g, 0 :: nat) rep chk 0) = []" by (simp add: new_Reader_def)
  then show ?thesis using recover_cut [OF assms, of e' addr rep chk] reads_read_all by metis
qed

text \<open>
  C5. Crash recovery of the log. Whatever records are added, in however many sessions, every call
  succeeds; and if the file is then cut at any byte, reading it from the start returns the records
  in order up to some record, then the end of the log, and reports no corruption. Every record whose
  bytes had reached the file before the cut is among them.
\<close>

theorem log_crash_recovery:
  "\<exists>f. write_sessions junk e addr ss new_FileState = Some f \<and> file_ok f \<and>
     (\<forall>k g. file_ok g \<longrightarrow> contents g = take k (contents f) \<longrightarrow>
       (\<exists>m r. read_all Seq_Read Seq_Skip e' addr' (new_Reader (g, 0) rep chk 0) = Some (take m (concat ss), r) \<and>
          m \<le> length (concat ss) \<and> reports r = [] \<and>
          (\<forall>ss1 xs ys ss2 f1. ss = ss1 @ (xs @ ys) # ss2 \<longrightarrow>
             write_sessions junk e addr (ss1 @ [xs]) new_FileState = Some f1 \<longrightarrow> fsize f1 \<le> k \<longrightarrow>
             length (concat ss1 @ xs) \<le> m)))"
proof -
  obtain f fss where f: "write_sessions junk e addr ss new_FileState = Some f" "log_frames 0 e (concat ss) fss"
    "contents f = log_bytes e fss" "file_ok f"
    using sessions_ok [OF new_FileState_ok(1), of junk e addr ss] new_FileState_ok(2) by auto
  show ?thesis
  proof (intro exI [of _ f] conjI f(1,4) allI impI)
    fix k g
    assume g: "file_ok g" "contents g = take k (contents f)"
    then obtain m r where m: "read_all Seq_Read Seq_Skip e' addr' (new_Reader (g, 0) rep chk 0) = Some (take m (concat ss), r)"
      "m \<le> length (concat ss)" "reports r = []"
      using recover_read_all [OF f(2) g(1), of k e' addr' rep chk] f(3) by auto
    have "length (concat ss1 @ xs) \<le> m" if s: "ss = ss1 @ (xs @ ys) # ss2"
      "write_sessions junk e addr (ss1 @ [xs]) new_FileState = Some f1" "fsize f1 \<le> k" for ss1 xs ys ss2 f1
    proof -
      obtain A B where AB: "log_frames 0 e (concat ss) (A @ B)" "length A = length (concat ss1 @ xs)"
        "contents f1 = log_bytes e A" "contents f = log_bytes e (A @ B)" "file_ok f1"
        using sessions_split [OF new_FileState_ok(1), of junk e addr ss1 xs ys ss2] new_FileState_ok(2) f(1) s(1,2) by auto
      obtain m' where "take m (concat ss) = take m' (concat ss)" "m' \<le> length (concat ss)"
        "\<forall>i\<le>length (concat ss). length (log_bytes e (take i (A @ B))) \<le> k \<longrightarrow> i \<le> m'"
        using recover_read_all [OF AB(1) g(1), of k e' addr' rep chk] g(2) AB(4) m(1) by auto
      moreover have "length (log_bytes e A) \<le> k" using s(3) AB(3) length_contents [OF AB(5)] by simp
      ultimately have "length A \<le> m'" using AB(2) s(1) by (elim allE [of _ "length A"]) simp
      moreover have "m = m'"
        using arg_cong [OF \<open>take m (concat ss) = take m' (concat ss)\<close>, of length] m(2) \<open>m' \<le> length (concat ss)\<close> by simp
      ultimately show ?thesis using AB(2) by simp
    qed
    then show "\<exists>m r. read_all Seq_Read Seq_Skip e' addr' (new_Reader (g, 0) rep chk 0) = Some (take m (concat ss), r) \<and>
          m \<le> length (concat ss) \<and> reports r = [] \<and>
          (\<forall>ss1 xs ys ss2 f1. ss = ss1 @ (xs @ ys) # ss2 \<longrightarrow>
             write_sessions junk e addr (ss1 @ [xs]) new_FileState = Some f1 \<longrightarrow> fsize f1 \<le> k \<longrightarrow>
             length (concat ss1 @ xs) \<le> m)"
      using m by blast
  qed
qed

theorem log_crash_recovery_witness:
  "\<exists>f r. write_sessions (\<lambda>_ _. 0) True 0 [[[1], []], [[2, 3]]] new_FileState = Some f \<and>
     read_all Seq_Read Seq_Skip False 1 (new_Reader (f, 0) True True 0) = Some ([[1], [], [2, 3]], r) \<and> reports r = []"
proof -
  let ?ss = "[[[1], []], [[2, 3]]] :: u8 list list list"
  obtain f where f: "write_sessions (\<lambda>_ _. 0) True 0 ?ss new_FileState = Some f" "file_ok f"
    and cut: "\<forall>k g. file_ok g \<longrightarrow> contents g = take k (contents f) \<longrightarrow>
      (\<exists>m r. read_all Seq_Read Seq_Skip False 1 (new_Reader (g, 0) True True 0) = Some (take m (concat ?ss), r) \<and>
         m \<le> length (concat ?ss) \<and> reports r = [] \<and>
         (\<forall>ss1 xs ys ss2 f1. ?ss = ss1 @ (xs @ ys) # ss2 \<longrightarrow>
            write_sessions (\<lambda>_ _. 0) True 0 (ss1 @ [xs]) new_FileState = Some f1 \<longrightarrow> fsize f1 \<le> k \<longrightarrow>
            length (concat ss1 @ xs) \<le> m))"
    using log_crash_recovery [of "\<lambda>_ _. 0" True 0 ?ss False 1 True True] by blast
  obtain m r where m: "read_all Seq_Read Seq_Skip False 1 (new_Reader (f, 0) True True 0) = Some (take m (concat ?ss), r)"
    "reports r = []"
    and all: "\<forall>ss1 xs ys ss2 f1. ?ss = ss1 @ (xs @ ys) # ss2 \<longrightarrow>
       write_sessions (\<lambda>_ _. 0) True 0 (ss1 @ [xs]) new_FileState = Some f1 \<longrightarrow> fsize f1 \<le> fsize f \<longrightarrow>
       length (concat ss1 @ xs) \<le> m"
    using cut [rule_format, of f "fsize f"] f(2) length_contents [OF f(2)] by auto
  have "length (concat [[[1], []]] @ [[2, 3]] :: u8 list list) \<le> m"
    using all [rule_format, of "[[[1], []]]" "[[2, 3]]" "[]" "[]" f] f(1) by (simp del: write_sessions.simps)
  then show ?thesis using m f(1) by (intro exI [of _ f] exI [of _ r]) (simp del: write_sessions.simps)
qed

end
