(* ===== verification/Level_Db.thy ===== *)
theory Level_Db
  imports Level_Recovery
begin

text \<open>
  Writing to and recovering a LevelDB database (db/db_impl.cc): the queue of writers, of which the
  first commits a group on behalf of the others, and the replay of a log into memtables. The log file
  is given by its operations, the memtable by Add and its memory usage, the writing of a table by a
  function on the tables written so far. MakeRoomForWrite is represented by the status it returned.
\<close>

section \<open>Group commit\<close>

record WriteRequest =
  wbatch :: "WriteBatch option"
  wsync :: bool

definition ByteSize :: "WriteBatch \<Rightarrow> nat" where
  "ByteSize b = length (brep b)"

text \<open>
  The loop of BuildBatchGroup over the writers behind the first: the temporary batch once it is in
  use, and the position of the last writer of the group.
\<close>

fun group_loop ::
  "bool \<Rightarrow> bool \<Rightarrow> WriteBatch \<Rightarrow> WriteBatch \<Rightarrow> nat \<Rightarrow> nat \<Rightarrow> WriteBatch option \<Rightarrow> nat \<Rightarrow> nat \<Rightarrow>
   WriteRequest list \<Rightarrow> (WriteBatch option \<times> nat) option" where
  "group_loop e first_sync first_batch tmp max_size sz result final i [] = Some (result, final)"
| "group_loop e first_sync first_batch tmp max_size sz result final i (w # ws) =
     (if wsync w \<and> \<not> first_sync then Some (result, final)
      else case wbatch w of
        None \<Rightarrow> group_loop e first_sync first_batch tmp max_size sz result i (i + 1) ws
      | Some b \<Rightarrow>
          let sz = sz + ByteSize b
          in if sz > max_size then Some (result, final)
             else do {
               r \<leftarrow> (case result of
                       None \<Rightarrow> do { c \<leftarrow> Count e tmp; assert_opt (c = 0); Append e tmp first_batch }
                     | Some r \<Rightarrow> Some r);
               r \<leftarrow> Append e r b;
               group_loop e first_sync first_batch tmp max_size sz (Some r) i (i + 1) ws })"

definition BuildBatchGroup :: "bool \<Rightarrow> WriteBatch \<Rightarrow> WriteRequest list \<Rightarrow> (WriteBatch option \<times> nat) option" where
  "BuildBatchGroup e tmp writers =
     (case writers of
        [] \<Rightarrow> None
      | w0 # ws \<Rightarrow>
          (case wbatch w0 of
             None \<Rightarrow> None
           | Some first_batch \<Rightarrow>
               let sz = ByteSize first_batch;
                   max_size = 2 ^ 20;
                   max_size = (if sz \<le> 128 * 2 ^ 10 then sz + 128 * 2 ^ 10 else max_size)
               in group_loop e (wsync w0) first_batch tmp max_size sz None 0 1 ws))"

record ('f, 'm) DBImpl =
  last_sequence :: u64
  memtable :: 'm
  logw :: "'f Writer"
  tmp_batch :: WriteBatch
  bg_error :: Status

definition RecordBackgroundError :: "Status \<Rightarrow> ('f, 'm) DBImpl \<Rightarrow> ('f, 'm) DBImpl" where
  "RecordBackgroundError s db = (if ok (bg_error db) then db\<lparr>bg_error := s\<rparr> else db)"

text \<open>
  What the first writer of the queue does: the status for its group, the size of the group and the
  new state.
\<close>

definition write_front ::
  "(u8 list \<Rightarrow> 'f \<Rightarrow> (Status \<times> 'f) option) \<Rightarrow> ('f \<Rightarrow> (Status \<times> 'f) option) \<Rightarrow> ('f \<Rightarrow> (Status \<times> 'f) option) \<Rightarrow>
   (u64 \<Rightarrow> ValueType \<Rightarrow> u8 list \<Rightarrow> u8 list \<Rightarrow> 'm \<Rightarrow> 'm) \<Rightarrow> bool \<Rightarrow> nat \<Rightarrow> Status \<Rightarrow>
   WriteRequest list \<Rightarrow> ('f, 'm) DBImpl \<Rightarrow> (Status \<times> nat \<times> ('f, 'm) DBImpl) option" where
  "write_front fappend fflush fsync add e addr room writers db =
     (case writers of
        [] \<Rightarrow> None
      | w # _ \<Rightarrow>
          (case wbatch w of
             None \<Rightarrow> Some (room, 1, db)
           | Some my_batch \<Rightarrow>
               if \<not> ok room then Some (room, 1, db)
               else do {
                 (result, final) \<leftarrow> BuildBatchGroup e (tmp_batch db) writers;
                 let updates = (case result of None \<Rightarrow> my_batch | Some t \<Rightarrow> t);
                 updates \<leftarrow> SetSequence e updates (last_sequence db + 1);
                 c \<leftarrow> Count e updates;
                 let last_seq = last_sequence db + of_int c;
                 (s, lw) \<leftarrow> AddRecord fappend fflush e addr (brep updates) (logw db);
                 (s, lw, sync_error) \<leftarrow>
                   (if ok s \<and> wsync w then do { (s, d) \<leftarrow> fsync (dest lw); Some (s, lw\<lparr>dest := d\<rparr>, \<not> ok s) }
                    else Some (s, lw, False));
                 (s, m) \<leftarrow> (if ok s then InsertInto e add updates (memtable db) else Some (s, memtable db));
                 let db = db\<lparr>logw := lw, memtable := m\<rparr>;
                 let db = (if sync_error then RecordBackgroundError s db else db);
                 let db = (case result of None \<Rightarrow> db | Some t \<Rightarrow> db\<lparr>tmp_batch := Clear updates\<rparr>);
                 Some (s, final + 1, db\<lparr>last_sequence := last_seq\<rparr>) }))"

section \<open>Recovery\<close>

definition MaybeIgnoreError :: "bool \<Rightarrow> Status \<Rightarrow> Status" where
  "MaybeIgnoreError paranoid_checks s = (if ok s \<or> paranoid_checks then s else OK)"

record ('m, 'd, 's) Recovery =
  rstatus :: Status
  compactions :: nat
  save_manifest :: bool
  max_sequence :: u64
  rmem :: "'m option"
  tables :: 'd
  rreader :: "'s Reader"

text \<open>The reporter keeps the first corruption as the status when checks are paranoid.\<close>

definition reporter_Corruption :: "bool \<Rightarrow> Status \<Rightarrow> ('m, 'd, 's) Recovery \<Rightarrow> ('m, 'd, 's) Recovery" where
  "reporter_Corruption paranoid_checks s st =
     (if paranoid_checks \<and> ok (rstatus st) then st\<lparr>rstatus := s\<rparr> else st)"

definition recover_record ::
  "bool \<Rightarrow> bool \<Rightarrow> 'm \<Rightarrow> (u64 \<Rightarrow> ValueType \<Rightarrow> u8 list \<Rightarrow> u8 list \<Rightarrow> 'm \<Rightarrow> 'm) \<Rightarrow> ('m \<Rightarrow> nat) \<Rightarrow> nat \<Rightarrow> ('m \<Rightarrow> 'd \<Rightarrow> Status \<times> 'd) \<Rightarrow>
   u8 list \<Rightarrow> ('m, 'd, 's) Recovery \<Rightarrow> (bool \<times> ('m, 'd, 's) Recovery) option" where
  "recover_record e paranoid_checks new_mem add usage write_buffer_size WriteLevel0Table record st =
     (if length record < 12 then
        Some (True, reporter_Corruption paranoid_checks (Corruption ''log record too small'') st)
      else do {
        batch \<leftarrow> SetContents record new_WriteBatch;
        let mem = (case rmem st of None \<Rightarrow> new_mem | Some m \<Rightarrow> m);
        (s, mem) \<leftarrow> InsertInto e add batch mem;
        let st = st\<lparr>rmem := Some mem, rstatus := MaybeIgnoreError paranoid_checks s\<rparr>;
        if \<not> ok (rstatus st) then Some (False, st)
        else do {
          seq \<leftarrow> Sequence e batch;
          c \<leftarrow> Count e batch;
          let last_seq = seq + of_int c - 1;
          let st = (if last_seq > max_sequence st then st\<lparr>max_sequence := last_seq\<rparr> else st);
          if usage mem > write_buffer_size then
            (case WriteLevel0Table mem (tables st) of (s, d) \<Rightarrow>
               Some (ok s, st\<lparr>compactions := compactions st + 1, save_manifest := True, rstatus := s, tables := d, rmem := None\<rparr>))
          else Some (True, st) } })"

text \<open>
  One round: the reader reports through the reporter, so that the first report of a round may become
  the status.
\<close>

definition recover_step ::
  "(nat \<Rightarrow> u8 list \<Rightarrow> 's \<Rightarrow> (Status \<times> u8 list \<times> 's) option) \<Rightarrow> (nat \<Rightarrow> 's \<Rightarrow> (Status \<times> 's) option) \<Rightarrow> nat \<Rightarrow>
   bool \<Rightarrow> bool \<Rightarrow> 'm \<Rightarrow> (u64 \<Rightarrow> ValueType \<Rightarrow> u8 list \<Rightarrow> u8 list \<Rightarrow> 'm \<Rightarrow> 'm) \<Rightarrow> ('m \<Rightarrow> nat) \<Rightarrow> nat \<Rightarrow> ('m \<Rightarrow> 'd \<Rightarrow> Status \<times> 'd) \<Rightarrow>
   ('m, 'd, 's) Recovery \<Rightarrow> (bool \<times> ('m, 'd, 's) Recovery) option" where
  "recover_step fread fskip addr e paranoid_checks new_mem add usage write_buffer_size WriteLevel0Table st = do {
     (got, record, r) \<leftarrow> ReadRecord fread fskip e addr (rreader st);
     let news = drop (length (reports (rreader st))) (reports r);
     let st = foldl (\<lambda>st (_, s). reporter_Corruption paranoid_checks s st) (st\<lparr>rreader := r\<rparr>) news;
     if got \<and> ok (rstatus st) then
       recover_record e paranoid_checks new_mem add usage write_buffer_size WriteLevel0Table record st
     else Some (False, st) }"

partial_function (option) recover_loop ::
  "(nat \<Rightarrow> u8 list \<Rightarrow> 's \<Rightarrow> (Status \<times> u8 list \<times> 's) option) \<Rightarrow> (nat \<Rightarrow> 's \<Rightarrow> (Status \<times> 's) option) \<Rightarrow> nat \<Rightarrow>
   bool \<Rightarrow> bool \<Rightarrow> 'm \<Rightarrow> (u64 \<Rightarrow> ValueType \<Rightarrow> u8 list \<Rightarrow> u8 list \<Rightarrow> 'm \<Rightarrow> 'm) \<Rightarrow> ('m \<Rightarrow> nat) \<Rightarrow> nat \<Rightarrow> ('m \<Rightarrow> 'd \<Rightarrow> Status \<times> 'd) \<Rightarrow>
   ('m, 'd, 's) Recovery \<Rightarrow> ('m, 'd, 's) Recovery option" where
  "recover_loop fread fskip addr e paranoid_checks new_mem add usage write_buffer_size WriteLevel0Table st = do {
     (go, st) \<leftarrow> recover_step fread fskip addr e paranoid_checks new_mem add usage write_buffer_size WriteLevel0Table st;
     if go then recover_loop fread fskip addr e paranoid_checks new_mem add usage write_buffer_size WriteLevel0Table st
     else Some st }"

declare recover_loop.simps [code]

text \<open>
  RecoverLogFile, given the status of opening the file and the file; reuse says that the log is the
  last one, that reuse is enabled and that the file could be opened for appending. The result has the
  memtable the database goes on with, if any.
\<close>

definition RecoverLogFile ::
  "(nat \<Rightarrow> u8 list \<Rightarrow> 's \<Rightarrow> (Status \<times> u8 list \<times> 's) option) \<Rightarrow> (nat \<Rightarrow> 's \<Rightarrow> (Status \<times> 's) option) \<Rightarrow> nat \<Rightarrow>
   bool \<Rightarrow> bool \<Rightarrow> 'm \<Rightarrow> (u64 \<Rightarrow> ValueType \<Rightarrow> u8 list \<Rightarrow> u8 list \<Rightarrow> 'm \<Rightarrow> 'm) \<Rightarrow> ('m \<Rightarrow> nat) \<Rightarrow> nat \<Rightarrow> ('m \<Rightarrow> 'd \<Rightarrow> Status \<times> 'd) \<Rightarrow>
   bool \<Rightarrow> Status \<Rightarrow> 's \<Rightarrow> u64 \<Rightarrow> bool \<Rightarrow> 'd \<Rightarrow> (('m, 'd, 's) Recovery \<times> 'm option) option" where
  "RecoverLogFile fread fskip addr e paranoid_checks new_mem add usage write_buffer_size WriteLevel0Table reuse opened f max_seq saved d = (
     let st = \<lparr>rstatus = opened, compactions = 0, save_manifest = saved, max_sequence = max_seq, rmem = None, tables = d,
               rreader = new_Reader f True True 0\<rparr>
     in if \<not> ok opened then Some (st\<lparr>rstatus := MaybeIgnoreError paranoid_checks opened\<rparr>, None)
     else do {
       st \<leftarrow> recover_loop fread fskip addr e paranoid_checks new_mem add usage write_buffer_size WriteLevel0Table st;
       if ok (rstatus st) \<and> reuse \<and> compactions st = 0 then
         Some (st\<lparr>rmem := None\<rparr>, Some (case rmem st of None \<Rightarrow> new_mem | Some m \<Rightarrow> m))
       else
         (case rmem st of
            None \<Rightarrow> Some (st, None)
          | Some m \<Rightarrow>
              if ok (rstatus st) then
                (case WriteLevel0Table m (tables st) of (s, d) \<Rightarrow>
                   Some (st\<lparr>save_manifest := True, rstatus := s, tables := d, rmem := None\<rparr>, None))
              else Some (st\<lparr>rmem := None\<rparr>, None)) })"

section \<open>Requests and what they ask for\<close>

text \<open>A request is followed together with the updates that its batch holds.\<close>

type_synonym request = "WriteRequest \<times> update list"

definition request_ok :: "bool \<Rightarrow> request \<Rightarrow> bool" where
  "request_ok e q \<longleftrightarrow> (case wbatch (fst q) of None \<Rightarrow> snd q = [] | Some b \<Rightarrow> \<exists>seq. batch_ok e seq (snd q) b)"

abbreviation updates_of :: "request list \<Rightarrow> update list" where
  "updates_of qs \<equiv> concat (map snd qs)"

definition with_batch :: "request list \<Rightarrow> request list" where
  "with_batch qs = filter (\<lambda>q. wbatch (fst q) \<noteq> None) qs"

lemma with_batch_simps [simp]: "with_batch [] = []" "with_batch (qs @ qs') = with_batch qs @ with_batch qs'"
  by (simp_all add: with_batch_def)

lemma updates_of_with_batch: "list_all (request_ok e) qs \<Longrightarrow> updates_of (with_batch qs) = updates_of qs"
  by (induction qs) (auto simp: with_batch_def request_ok_def split: option.splits)

text \<open>The batch built so far holds the updates of the first writer and of those behind it.\<close>

definition group_holds :: "bool \<Rightarrow> update list \<Rightarrow> WriteBatch option \<Rightarrow> update list \<Rightarrow> bool" where
  "group_holds e us0 result acc \<longleftrightarrow> (case result of None \<Rightarrow> acc = us0 | Some r \<Rightarrow> \<exists>seq. batch_ok e seq acc r)"

lemma group_loop_ok:
  assumes "batch_ok e s0 [] tmp" "batch_ok e s1 us0 fb"
  shows "list_all (request_ok e) qs \<Longrightarrow> group_holds e us0 result acc \<Longrightarrow> length acc + length (updates_of qs) < 2 ^ 31 \<Longrightarrow>
    \<exists>result' m. m \<le> length qs \<and> group_loop e fs fb tmp mx sz result final (final + 1) (map fst qs) = Some (result', final + m) \<and>
      group_holds e us0 result' (acc @ updates_of (take m qs))"
proof (induction qs arbitrary: result acc sz final)
  case Nil
  then show ?case by simp
next
  case (Cons q qs)
  obtain w us where q: "q = (w, us)" by (cases q)
  show ?case
  proof (cases "wsync w \<and> \<not> fs")
    case True
    then show ?thesis using Cons.prems(2) by (intro exI [of _ result] exI [of _ 0]) (simp add: q)
  next
    case False
    show ?thesis
    proof (cases "wbatch w")
      case None
      then have "us = []" using Cons.prems(1) by (simp add: q request_ok_def)
      then obtain result' m where "m \<le> length qs"
        "group_loop e fs fb tmp mx sz result (final + 1) (final + 1 + 1) (map fst qs) = Some (result', final + 1 + m)"
        "group_holds e us0 result' (acc @ updates_of (take m qs))"
        using Cons.IH [of result acc sz "final + 1"] Cons.prems by (auto simp: q)
      then show ?thesis using False None \<open>us = []\<close>
        by (intro exI [of _ result'] exI [of _ "Suc m"]) (simp add: q)
    next
      case (Some b)
      show ?thesis
      proof (cases "sz + ByteSize b > mx")
        case True
        then show ?thesis using False Some Cons.prems(2) by (intro exI [of _ result] exI [of _ 0]) (simp add: q Let_def)
      next
        case fits: False
        obtain sb where b: "batch_ok e sb us b" using Cons.prems(1) Some by (auto simp: q request_ok_def)
        have small: "length acc + length us < 2 ^ 31" using Cons.prems(3) by (simp add: q)
        have "\<exists>r seq. (case result of None \<Rightarrow> do { c \<leftarrow> Count e tmp; assert_opt (c = 0); Append e tmp fb } | Some r \<Rightarrow> Some r) = Some r \<and>
            batch_ok e seq acc r"
        proof (cases result)
          case None
          then have "acc = us0" using Cons.prems(2) by (simp add: group_holds_def)
          then show ?thesis using None Count_batch [OF assms(1)] Append_batch [OF assms(1,2)] small by auto
        next
          case (Some r)
          then show ?thesis using Cons.prems(2) by (auto simp: group_holds_def)
        qed
        then obtain r seq where r: "(case result of None \<Rightarrow> do { c \<leftarrow> Count e tmp; assert_opt (c = 0); Append e tmp fb } | Some r \<Rightarrow> Some r) = Some r"
          "batch_ok e seq acc r" by blast
        obtain r2 where r2: "Append e r b = Some r2" "batch_ok e seq (acc @ us) r2" using Append_batch [OF r(2) b small] by blast
        obtain result' m where "m \<le> length qs"
          "group_loop e fs fb tmp mx (sz + ByteSize b) (Some r2) (final + 1) (final + 1 + 1) (map fst qs) = Some (result', final + 1 + m)"
          "group_holds e us0 result' ((acc @ us) @ updates_of (take m qs))"
          using Cons.IH [of "Some r2" "acc @ us" "sz + ByteSize b" "final + 1"] Cons.prems r2(2) by (auto simp: q group_holds_def)
        then show ?thesis using False Some fits r(1) r2(1)
          by (intro exI [of _ result'] exI [of _ "Suc m"]) (simp add: q Let_def)
      qed
    qed
  qed
qed

lemma BuildBatchGroup_ok:
  assumes tmp: "batch_ok e s0 [] tmp" and qs: "list_all (request_ok e) ((w, us) # qs)" and fb: "wbatch w = Some fb"
    and n: "length (updates_of ((w, us) # qs)) < 2 ^ 31"
  shows "\<exists>result m. m \<le> length qs \<and> BuildBatchGroup e tmp (w # map fst qs) = Some (result, m) \<and>
    group_holds e us result (updates_of (take (Suc m) ((w, us) # qs)))"
proof -
  obtain s1 where "batch_ok e s1 us fb" using qs fb by (auto simp: request_ok_def)
  then show ?thesis
    using group_loop_ok [OF tmp, of s1 us fb qs None us "wsync w"
      "if ByteSize fb \<le> 128 * 2 ^ 10 then ByteSize fb + 128 * 2 ^ 10 else 2 ^ 20" "ByteSize fb" 0] qs n fb
    by (auto simp: BuildBatchGroup_def Let_def group_holds_def)
qed

lemma AddRecord_ok:
  assumes "mem_out.writer_ok w"
  shows "\<exists>w' fs. AddRecord (Writable_Append junk) Writable_Flush e addr data w = Some (OK, w') \<and> mem_out.writer_ok w' \<and>
    frames_for True data fs \<and> all_placed (length (contents (dest w))) fs \<and>
    contents (dest w') = contents (dest w) @ concat (map (enc_frame e) fs)"
  using mem_out.add_loop_ok [OF assms] by (simp add: AddRecord_def)

text \<open>
  The first writer commits the requests at the front of the queue: one record in the log, the updates
  in the memtable under the next sequence numbers.
\<close>

lemma write_front_ok:
  assumes lw: "mem_out.writer_ok (logw db)" and tmp: "batch_ok e s0 [] (tmp_batch db)"
    and qs: "list_all (request_ok e) ((w, us) # qs)" and fb: "wbatch w = Some fb"
    and n: "length (updates_of ((w, us) # qs)) < 2 ^ 31"
  shows "\<exists>m db' fs s1. m \<le> length qs \<and>
    write_front (Writable_Append junk) Writable_Flush Writable_Sync add e addr OK (w # map fst qs) db = Some (OK, Suc m, db') \<and>
    mem_out.writer_ok (logw db') \<and> batch_ok e s1 [] (tmp_batch db') \<and>
    (let vs = updates_of (take (Suc m) ((w, us) # qs)) in
       memtable db' = numbered add (last_sequence db + 1) vs (memtable db) \<and>
       last_sequence db' = last_sequence db + of_nat (length vs) \<and> bg_error db' = bg_error db \<and>
       frames_for True (enc_batch e (last_sequence db + 1) vs) fs \<and> all_placed (length (contents (dest (logw db)))) fs \<and>
       contents (dest (logw db')) = contents (dest (logw db)) @ concat (map (enc_frame e) fs))"
proof -
  obtain result m where g: "m \<le> length qs" "BuildBatchGroup e (tmp_batch db) (w # map fst qs) = Some (result, m)"
    "group_holds e us result (updates_of (take (Suc m) ((w, us) # qs)))"
    using BuildBatchGroup_ok [OF tmp qs fb n] by blast
  define vs where "vs = updates_of (take (Suc m) ((w, us) # qs))"
  define b where "b = (case result of None \<Rightarrow> fb | Some t \<Rightarrow> t)"
  have "\<exists>seq. batch_ok e seq vs b"
    using g(3) [folded vs_def] qs fb by (cases result) (auto simp: group_holds_def b_def request_ok_def)
  then obtain u where u: "SetSequence e b (last_sequence db + 1) = Some u" "batch_ok e (last_sequence db + 1) vs u"
    using SetSequence_batch by blast
  have ur: "brep u = enc_batch e (last_sequence db + 1) vs" using u(2) by (simp add: batch_ok_def)
  obtain lw' fs where l: "AddRecord (Writable_Append junk) Writable_Flush e addr (brep u) (logw db) = Some (OK, lw')"
    "mem_out.writer_ok lw'" "frames_for True (brep u) fs" "all_placed (length (contents (dest (logw db)))) fs"
    "contents (dest lw') = contents (dest (logw db)) @ concat (map (enc_frame e) fs)"
    using AddRecord_ok [OF lw] by blast
  let ?db = "(let db1 = db\<lparr>logw := lw', memtable := numbered add (last_sequence db + 1) vs (memtable db)\<rparr>;
      db2 = (case result of None \<Rightarrow> db1 | Some t \<Rightarrow> db1\<lparr>tmp_batch := Clear u\<rparr>)
    in db2\<lparr>last_sequence := last_sequence db + of_nat (length vs)\<rparr>)"
  have "lw'\<lparr>dest := dest lw'\<rparr> = lw'" by simp
  then have "write_front (Writable_Append junk) Writable_Flush Writable_Sync add e addr OK (w # map fst qs) db = Some (OK, Suc m, ?db)"
    using g(2) u(1) l(1) fb Count_batch [OF u(2)] unfolding b_def
    by (cases result; cases "wsync w") (simp_all add: write_front_def Writable_Sync_def Let_def ok_def InsertInto_batch [OF u(2)])
  moreover have "\<exists>s1. batch_ok e s1 [] (tmp_batch ?db)" using tmp Clear_batch [of e u] by (cases result) (auto simp: Let_def)
  moreover have "logw ?db = lw'" "memtable ?db = numbered add (last_sequence db + 1) vs (memtable db)"
    "last_sequence ?db = last_sequence db + of_nat (length vs)" "bg_error ?db = bg_error db"
    by (simp_all add: Let_def split: option.split)
  moreover define db' where "db' = ?db"
  ultimately obtain s1 where "write_front (Writable_Append junk) Writable_Flush Writable_Sync add e addr OK (w # map fst qs) db = Some (OK, Suc m, db')"
    "batch_ok e s1 [] (tmp_batch db')" "logw db' = lw'" "memtable db' = numbered add (last_sequence db + 1) vs (memtable db)"
    "last_sequence db' = last_sequence db + of_nat (length vs)" "bg_error db' = bg_error db" by auto
  then show ?thesis using g(1) l(2-5)
    by (intro exI [of _ m] exI [of _ db'] exI [of _ fs] exI [of _ s1]) (simp add: vs_def [symmetric] ur Let_def del: take_Suc_Cons)
qed

section \<open>Runs of a database\<close>

text \<open>
  A world is the database, the queue of writers, the group being committed (its status and size) and
  the requests that have returned, each with its status. The steps are: a request joins the queue; the
  writer at the front commits a group, during which others may still join; the group leaves the queue.
\<close>

type_synonym 'm world = "(FileState, 'm) DBImpl \<times> request list \<times> (Status \<times> nat) option \<times> (request \<times> Status) list"

inductive db_step ::
  "(nat \<Rightarrow> nat \<Rightarrow> u8) \<Rightarrow> (u64 \<Rightarrow> ValueType \<Rightarrow> u8 list \<Rightarrow> u8 list \<Rightarrow> 'm \<Rightarrow> 'm) \<Rightarrow> bool \<Rightarrow> 'm world \<Rightarrow> 'm world \<Rightarrow> bool"
  for junk add e where
  db_join: "request_ok e q \<Longrightarrow> db_step junk add e (db, qs, p, fin) (db, qs @ [q], p, fin)"
| db_lead: "write_front (Writable_Append junk) Writable_Flush Writable_Sync add e addr room (map fst qs) db = Some (s, n, db') \<Longrightarrow>
    db_step junk add e (db, qs, None, fin) (db', qs, Some (s, n), fin)"
| db_leave: "db_step junk add e (db, qs, Some (s, n), fin) (db, drop n qs, None, fin @ map (\<lambda>q. (q, s)) (take n qs))"

text \<open>The requests that were successful, those of the group being committed included.\<close>

fun applied :: "'m world \<Rightarrow> request list" where
  "applied (db, qs, p, fin) = with_batch (map fst (filter (\<lambda>(q, s). ok s) fin) @
     (case p of None \<Rightarrow> [] | Some (s, n) \<Rightarrow> if ok s then take n qs else []))"

fun arrived :: "'m world \<Rightarrow> request list" where
  "arrived (db, qs, p, fin) = map fst fin @ qs"

text \<open>The records of the log for groups of requests.\<close>

fun records :: "bool \<Rightarrow> u64 \<Rightarrow> request list list \<Rightarrow> u8 list list" where
  "records e seq [] = []"
| "records e seq (g # gs) = enc_batch e seq (updates_of g) # records e (seq + of_nat (length (updates_of g))) gs"

lemma records_snoc:
  "records e seq (gs @ [g]) = records e seq gs @ [enc_batch e (seq + of_nat (length (updates_of (concat gs)))) (updates_of g)]"
  by (induction gs arbitrary: seq) (simp_all add: add.assoc)

lemma length_records [simp]: "length (records e seq gs) = length gs"
  by (induction gs arbitrary: seq) simp_all

lemma take_records: "take m (records e seq gs) = records e seq (take m gs)"
proof (induction gs arbitrary: m seq)
  case (Cons g gs)
  then show ?case by (cases m) simp_all
qed simp

lemma numbered_append: "numbered add seq (us @ vs) m = numbered add (seq + of_nat (length us)) vs (numbered add seq us m)"
  by (induction add seq us m rule: numbered.induct) (simp_all add: add.assoc)

definition db_inv ::
  "bool \<Rightarrow> (u64 \<Rightarrow> ValueType \<Rightarrow> u8 list \<Rightarrow> u8 list \<Rightarrow> 'm \<Rightarrow> 'm) \<Rightarrow> 'm \<Rightarrow> request list list \<Rightarrow> frame list list \<Rightarrow>
   (FileState, 'm) DBImpl \<Rightarrow> request list \<Rightarrow> bool" where
  "db_inv e add m0 gs fss db rs \<longleftrightarrow> mem_out.writer_ok (logw db) \<and> (\<exists>s. batch_ok e s [] (tmp_batch db)) \<and> bg_error db = OK \<and>
     memtable db = numbered add 1 (updates_of rs) m0 \<and> last_sequence db = of_nat (length (updates_of rs)) \<and>
     list_all (request_ok e) rs \<and>
     concat gs = rs \<and> log_frames 0 e (records e 1 gs) fss \<and> contents (dest (logw db)) = log_bytes e fss"

lemma db_inv_commit:
  assumes inv: "db_inv e add m0 gs fss db rs" and g: "list_all (request_ok e) g"
    and db': "mem_out.writer_ok (logw db')" "batch_ok e s1 [] (tmp_batch db')" "bg_error db' = bg_error db"
      "memtable db' = numbered add (last_sequence db + 1) (updates_of g) (memtable db)"
      "last_sequence db' = last_sequence db + of_nat (length (updates_of g))"
    and log: "frames_for True (enc_batch e (last_sequence db + 1) (updates_of g)) fs"
      "all_placed (length (contents (dest (logw db)))) fs"
      "contents (dest (logw db')) = contents (dest (logw db)) @ concat (map (enc_frame e) fs)"
  shows "db_inv e add m0 (gs @ [g]) (fss @ [fs]) db' (rs @ g)"
proof -
  have gs: "concat gs = rs" "log_frames 0 e (records e 1 gs) fss" "contents (dest (logw db)) = log_bytes e fss"
    using inv by (auto simp: db_inv_def)
  have ls: "last_sequence db = of_nat (length (updates_of rs))" using inv by (simp add: db_inv_def)
  have "log_frames (0 + length (log_bytes e fss)) e [enc_batch e (last_sequence db + 1) (updates_of g)] [fs]"
    using log(1,2) gs(3) by simp
  then have "log_frames 0 e (records e 1 gs @ [enc_batch e (last_sequence db + 1) (updates_of g)]) (fss @ [fs])"
    by (rule log_frames_append [OF gs(2)])
  then have "log_frames 0 e (records e 1 (gs @ [g])) (fss @ [fs])"
    using gs(1) ls by (simp add: records_snoc add.commute)
  moreover have "concat (gs @ [g]) = rs @ g" "contents (dest (logw db')) = log_bytes e (fss @ [fs])"
    using gs log(3) by simp_all
  ultimately show ?thesis using inv db' g ls
    by (auto simp: db_inv_def numbered_append add.commute)
qed

fun world_inv :: "bool \<Rightarrow> (u64 \<Rightarrow> ValueType \<Rightarrow> u8 list \<Rightarrow> u8 list \<Rightarrow> 'm \<Rightarrow> 'm) \<Rightarrow> 'm \<Rightarrow> request list list \<Rightarrow> frame list list \<Rightarrow>
   'm world \<Rightarrow> bool" where
  "world_inv e add m0 gs fss (db, qs, p, fin) \<longleftrightarrow> db_inv e add m0 gs fss db (applied (db, qs, p, fin)) \<and>
     list_all (request_ok e) (arrived (db, qs, p, fin)) \<and> (case p of None \<Rightarrow> True | Some (s, n) \<Rightarrow> n \<le> length qs)"

lemma db_step_arrived: "db_step junk add e w w' \<Longrightarrow> \<exists>xs. arrived w' = arrived w @ xs"
  by (induction rule: db_step.induct) (simp_all add: comp_def)

lemma db_steps_arrived: "(db_step junk add e)\<^sup>*\<^sup>* w w' \<Longrightarrow> \<exists>xs. arrived w' = arrived w @ xs"
proof (induction rule: rtranclp_induct)
  case (step w1 w2)
  then show ?case using db_step_arrived [OF step(2)] by auto
qed simp

lemma lead_commits:
  assumes inv: "db_inv e add m0 gs fss db rs" and qs: "list_all (request_ok e) qs" and n: "length (updates_of qs) < 2 ^ 31"
    and front: "write_front (Writable_Append junk) Writable_Flush Writable_Sync add e addr room (map fst qs) db = Some (s, n, db')"
  shows "n \<le> length qs \<and> (\<exists>gs' fss'. db_inv e add m0 (gs @ gs') (fss @ fss') db' (rs @ with_batch (if ok s then take n qs else [])))"
proof (cases qs)
  case Nil
  then show ?thesis using front by (simp add: write_front_def)
next
  case (Cons q qs')
  obtain w us where q: "q = (w, us)" by (cases q)
  show ?thesis
  proof (cases "wbatch w \<noteq> None \<and> ok room")
    case False
    then have "s = room" "n = 1" "db' = db" using front by (cases "wbatch w"; simp add: write_front_def Cons q)+
    then show ?thesis using False inv by (auto simp: Cons q with_batch_def intro!: exI [of _ "[]"])
  next
    case True
    then obtain fb where fb: "wbatch w = Some fb" "room = OK" by (auto simp: ok_def)
    obtain s0 where lw: "mem_out.writer_ok (logw db)" "batch_ok e s0 [] (tmp_batch db)" using inv by (auto simp: db_inv_def)
    have r: "list_all (request_ok e) ((w, us) # qs')" "length (updates_of ((w, us) # qs')) < 2 ^ 31" using qs n by (simp_all add: Cons q)
    have len: "list_all (request_ok e) (take n qs)" using qs by (auto simp: list_all_iff dest: in_set_takeD)
    then have g: "list_all (request_ok e) (with_batch (take n qs))" "updates_of (with_batch (take n qs)) = updates_of (take n qs)"
      using updates_of_with_batch [OF len] by (auto simp: with_batch_def list_all_iff)
    obtain fs s1 where "n \<le> length qs" "s = OK" "mem_out.writer_ok (logw db')" "batch_ok e s1 [] (tmp_batch db')"
      "bg_error db' = bg_error db" "memtable db' = numbered add (last_sequence db + 1) (updates_of (take n qs)) (memtable db)"
      "last_sequence db' = last_sequence db + of_nat (length (updates_of (take n qs)))"
      "frames_for True (enc_batch e (last_sequence db + 1) (updates_of (take n qs))) fs"
      "all_placed (length (contents (dest (logw db)))) fs"
      "contents (dest (logw db')) = contents (dest (logw db)) @ concat (map (enc_frame e) fs)"
      using write_front_ok [OF lw r(1) fb(1) r(2), of junk add addr] front fb(2) by (auto simp: Cons q Let_def)
    then show ?thesis using db_inv_commit [OF inv g(1), of db' s1 fs] g(2)
      by (intro conjI exI [of _ "[with_batch (take n qs)]"] exI [of _ "[fs]"]) (simp_all add: ok_def)
  qed
qed

lemma db_step_inv:
  assumes "db_step junk add e w w'" "world_inv e add m0 gs fss w" "length (updates_of (arrived w')) < 2 ^ 31"
  shows "\<exists>gs' fss'. world_inv e add m0 (gs @ gs') (fss @ fss') w'"
  using assms
proof (induction rule: db_step.induct)
  case (db_join q db qs p fin)
  then show ?case by (cases p) (auto intro!: exI [of _ "[]"])
next
  case (db_lead addr room qs db s n db' fin)
  then show ?case using lead_commits [of e add m0 gs fss db "applied (db, qs, None, fin)" qs junk addr room s n db'] by simp
next
  case (db_leave db qs s n fin)
  have "list_all (request_ok e) (take n qs) \<and> list_all (request_ok e) (drop n qs)" if "list_all (request_ok e) qs"
    using that by (metis append_take_drop_id list_all_append)
  moreover have "filter (\<lambda>(q, s). ok s) (map (\<lambda>q. (q, s)) (take n qs)) = (if ok s then map (\<lambda>q. (q, s)) (take n qs) else [])"
    by (simp add: filter_map comp_def)
  ultimately show ?case using db_leave by (auto simp: comp_def intro!: exI [of _ "[]"])
qed

lemma db_reach_inv:
  assumes "(db_step junk add e)\<^sup>*\<^sup>* w w'" "world_inv e add m0 gs fss w" "length (updates_of (arrived w')) < 2 ^ 31"
  shows "\<exists>gs' fss'. world_inv e add m0 (gs @ gs') (fss @ fss') w'"
  using assms
proof (induction rule: rtranclp_induct)
  case base
  then show ?case by (intro exI [of _ "[]"]) simp
next
  case (step w1 w2)
  obtain xs where "arrived w2 = arrived w1 @ xs" using db_step_arrived [OF step(2)] by blast
  then obtain gs' fss' where "world_inv e add m0 (gs @ gs') (fss @ fss') w1" using step by auto
  then show ?case using db_step_inv [OF step(2)] step.prems(2) by fastforce
qed

section \<open>Recovery replays the log\<close>

lemma updates_ok: "list_all (request_ok e) qs \<Longrightarrow> list_all update_ok (updates_of qs)"
proof (induction qs)
  case (Cons q qs)
  then show ?case by (cases "wbatch (fst q)") (auto simp: request_ok_def batch_ok_def)
qed simp

abbreviation mem_of :: "'m \<Rightarrow> ('m, 'd, 's) Recovery \<Rightarrow> 'm" where
  "mem_of new_mem st \<equiv> case rmem st of None \<Rightarrow> new_mem | Some m \<Rightarrow> m"

lemma recover_record_ok:
  assumes us: "t + length us < 2 ^ 31" "list_all update_ok us" and st: "rstatus st = OK" "max_sequence st = of_nat t"
    and small: "\<And>m. usage m \<le> wbs"
  shows "\<exists>st'. recover_record e pc m0 add usage wbs WL (enc_batch e (of_nat t + 1) us) st = Some (True, st') \<and>
    rstatus st' = OK \<and> compactions st' = compactions st \<and> tables st' = tables st \<and> rreader st' = rreader st \<and>
    save_manifest st' = save_manifest st \<and>
    max_sequence st' = of_nat (t + length us) \<and> mem_of m0 st' = numbered add (of_nat t + 1) us (mem_of m0 st)"
proof -
  let ?r = "enc_batch e (of_nat t + 1) us"
  have len: "12 \<le> length ?r" by (simp add: enc_batch_def)
  define b where "b = new_WriteBatch\<lparr>brep := ?r\<rparr>"
  have b: "SetContents ?r new_WriteBatch = Some b" "brep b = ?r" using len by (simp_all add: SetContents_def kHeader_def b_def)
  then have ok: "batch_ok e (of_nat t + 1) us b" using us by (simp add: batch_ok_def)
  have "(of_nat t :: u64) + 1 + of_nat (length us) - 1 = of_nat (t + length us)" by simp
  moreover have "(of_nat (t + length us) :: u64) > of_nat t \<longleftrightarrow> length us \<noteq> 0"
    using us(1) by (simp add: word_less_nat_alt unsigned_of_nat take_bit_nat_eq_self del: of_nat_add)
  ultimately show ?thesis
    using b(1) len st small [of "numbered add (of_nat t + 1) us (mem_of m0 st)"]
    by (simp add: recover_record_def InsertInto_batch [OF ok] Sequence_batch [OF ok] Count_batch [OF ok] MaybeIgnoreError_def ok_def
        Let_def not_less del: of_nat_add)
qed

lemma recover_loop_ok:
  assumes small: "\<And>m. usage m \<le> wbs"
  shows "reads fread fskip e addr (records e (of_nat t + 1) gs) (rreader st) r' \<Longrightarrow> rstatus st = OK \<Longrightarrow>
    max_sequence st = of_nat t \<Longrightarrow> t + length (updates_of (concat gs)) < 2 ^ 31 \<Longrightarrow> list_all (request_ok e) (concat gs) \<Longrightarrow>
    \<exists>st'. recover_loop fread fskip addr e pc m0 add usage wbs WL st = Some st' \<and> rstatus st' = OK \<and>
      compactions st' = compactions st \<and> tables st' = tables st \<and> save_manifest st' = save_manifest st \<and>
      max_sequence st' = of_nat (t + length (updates_of (concat gs))) \<and>
      mem_of m0 st' = numbered add (of_nat t + 1) (updates_of (concat gs)) (mem_of m0 st)"
proof (induction gs arbitrary: t st)
  case Nil
  then obtain x where "ReadRecord fread fskip e addr (rreader st) = Some (False, x, r')" "reports r' = reports (rreader st)" by auto
  then show ?case using Nil.prems(2,3)
    by (subst recover_loop.simps) (simp add: recover_step_def Let_def)
next
  case (Cons g gs)
  let ?us = "updates_of g"
  obtain r1 where r1: "ReadRecord fread fskip e addr (rreader st) = Some (True, enc_batch e (of_nat t + 1) ?us, r1)"
    "reports r1 = reports (rreader st)" "reads fread fskip e addr (records e (of_nat t + 1 + of_nat (length ?us)) gs) r1 r'"
    using Cons.prems(1) by auto
  have us: "t + length ?us < 2 ^ 31" "list_all update_ok ?us" using Cons.prems(4,5) updates_ok [of e g] by auto
  obtain st1 where st1: "recover_record e pc m0 add usage wbs WL (enc_batch e (of_nat t + 1) ?us) (st\<lparr>rreader := r1\<rparr>) = Some (True, st1)"
    "rstatus st1 = OK" "compactions st1 = compactions st" "tables st1 = tables st" "rreader st1 = r1" "save_manifest st1 = save_manifest st"
    "max_sequence st1 = of_nat (t + length ?us)" "mem_of m0 st1 = numbered add (of_nat t + 1) ?us (mem_of m0 st)"
    using recover_record_ok [OF us, of "st\<lparr>rreader := r1\<rparr>" usage wbs e pc m0 add WL] small Cons.prems(2,3) by auto
  have "recover_loop fread fskip addr e pc m0 add usage wbs WL st = recover_loop fread fskip addr e pc m0 add usage wbs WL st1"
    using r1(1,2) st1(1) Cons.prems(2) unfolding recover_loop.simps [of _ _ _ _ _ _ _ _ _ _ st]
    by (simp add: recover_step_def ok_def Let_def)
  moreover have "of_nat (t + length ?us) + 1 = (of_nat t + 1 + of_nat (length ?us) :: u64)" by simp
  ultimately show ?case
    using Cons.IH [of "t + length ?us" st1] r1(3) st1(2-8) Cons.prems(4,5)
    by (simp add: numbered_append ac_simps)
qed

section \<open>Crashes\<close>

text \<open>The state in which a new database is opened: an empty log, an empty memtable.\<close>

definition fresh_db :: "nat \<Rightarrow> 'm \<Rightarrow> (FileState, 'm) DBImpl option" where
  "fresh_db addr m0 = do {
     w \<leftarrow> new_Writer addr new_FileState;
     Some \<lparr>last_sequence = 0, memtable = m0, logw = w, tmp_batch = new_WriteBatch, bg_error = OK\<rparr> }"

lemma new_log_ok: "\<exists>w. new_Writer addr new_FileState = Some w \<and> mem_out.writer_ok w \<and> dest w = new_FileState"
  using mem_out.new_Writer_at_ok [OF new_FileState_ok(1), of 0 addr] new_FileState_ok(2)
  by (auto simp: new_Writer_at_def new_Writer_def split: bind_splits)

lemma fresh_db_inv:
  assumes "fresh_db addr m0 = Some db0"
  shows "world_inv e add m0 [] [] (db0, [], None, [])"
proof -
  obtain w where w: "new_Writer addr new_FileState = Some w" "mem_out.writer_ok w" "dest w = new_FileState"
    using new_log_ok by blast
  have "db0 = \<lparr>last_sequence = 0, memtable = m0, logw = w, tmp_batch = new_WriteBatch, bg_error = OK\<rparr>"
    using assms w(1) by (simp add: fresh_db_def)
  moreover have "\<exists>s. batch_ok e s [] new_WriteBatch" using new_WriteBatch_ok by blast
  ultimately show ?thesis using w(2,3) new_FileState_ok(2) by (simp add: db_inv_def)
qed

lemma subseq_with_batch: "subseq (with_batch qs) qs"
  by (simp add: with_batch_def)

lemma subseq_applied: "subseq (applied w) (arrived w)"
proof (cases w)
  case (fields db qs p fin)
  have "subseq (case p of None \<Rightarrow> [] | Some (s, n) \<Rightarrow> if ok s then take n qs else []) qs"
    by (auto split: option.split intro: prefix_imp_subseq take_is_prefix)
  then show ?thesis unfolding fields applied.simps arrived.simps
    by (intro subseq_order.trans [OF subseq_with_batch] list_emb_append_mono subseq_map subseq_filter_left)
qed

lemma updates_of_applied: "subseq xs ys \<Longrightarrow> length (updates_of xs) \<le> length (updates_of ys)"
  by (induction rule: list_emb.induct) auto

lemma RecoverLogFile_ok:
  assumes inv: "db_inv e add m0 gs fss db rs" and n: "length (updates_of rs) < 2 ^ 31" and small: "\<And>m. usage m \<le> wbs"
    and g: "file_ok g" "contents g = take k (contents (dest (logw db)))"
  shows "\<exists>m st. m \<le> length gs \<and> (\<forall>i\<le>length gs. length (log_bytes e (take i fss)) \<le> k \<longrightarrow> i \<le> m) \<and>
    RecoverLogFile Seq_Read Seq_Skip addr e pc m0 add usage wbs WL True OK (g, 0) 0 sv d =
      Some (st, Some (numbered add 1 (updates_of (concat (take m gs))) m0)) \<and>
    rstatus st = OK \<and> tables st = d \<and> max_sequence st = of_nat (length (updates_of (concat (take m gs))))"
proof -
  have l: "concat gs = rs" "log_frames 0 e (records e 1 gs) fss" "contents g = take k (log_bytes e fss)" "list_all (request_ok e) rs"
    using inv g(2) by (simp_all add: db_inv_def)
  obtain m r where m: "reads Seq_Read Seq_Skip e addr (take m (records e 1 gs)) (new_Reader (g, 0) True True 0) r"
    "\<forall>i\<le>length gs. length (log_bytes e (take i fss)) \<le> k \<longrightarrow> i \<le> m" "m \<le> length gs"
    using recover_cut [OF l(2) g(1) l(3), of e addr True True] by auto
  let ?us = "updates_of (concat (take m gs))"
  have rs: "rs = concat (take m gs) @ concat (drop m gs)" using l(1) by (metis append_take_drop_id concat_append)
  obtain st where "recover_loop Seq_Read Seq_Skip addr e pc m0 add usage wbs WL
      \<lparr>rstatus = OK, compactions = 0, save_manifest = sv, max_sequence = 0, rmem = None, tables = d, rreader = new_Reader (g, 0) True True 0\<rparr> = Some st"
    "rstatus st = OK" "compactions st = 0" "tables st = d" "max_sequence st = of_nat (length ?us)" "mem_of m0 st = numbered add 1 ?us m0"
    using recover_loop_ok [where usage = usage and wbs = wbs, OF small, of Seq_Read Seq_Skip e addr 0 "take m gs" "\<lparr>rstatus = OK, compactions = 0, save_manifest = sv, max_sequence = 0,
      rmem = None, tables = d, rreader = new_Reader (g, 0) True True 0\<rparr>" r pc m0 add WL] m(1) l(4) n rs
    by (auto simp: take_records)
  then show ?thesis using m(2,3)
    by (intro exI [of _ m] exI [of _ "st\<lparr>rmem := None\<rparr>"]) (simp add: RecoverLogFile_def ok_def)
qed

text \<open>
  C2. Atomicity and durability across a crash. However requests arrive and are grouped, the memtable
  holds the updates of the successful requests in the order of their arrival under consecutive
  sequence numbers. If the log is cut at any byte, recovery succeeds and rebuilds the memtable of the
  first j successful requests, each with all of its updates or none, and the sequence number to go on
  with; when the cut is behind the log of an earlier state, every request that was successful in that
  state is among them. This is for fewer than 2^31 updates and a memtable that recovery need not flush.
\<close>

theorem db_crash_atomic:
  assumes "fresh_db addr0 m0 = Some db0"
    and "(db_step junk add e)\<^sup>*\<^sup>* (db0, [], None, []) w1" "(db_step junk add e)\<^sup>*\<^sup>* w1 w"
    and "length (updates_of (arrived w)) < 2 ^ 31" and "\<And>m. usage m \<le> wbs"
    and "file_ok g" "contents g = take k (contents (dest (logw (fst w))))"
  shows "subseq (applied w) (arrived w) \<and> memtable (fst w) = numbered add 1 (updates_of (applied w)) m0 \<and>
    (\<exists>j st. j \<le> length (applied w) \<and>
       RecoverLogFile Seq_Read Seq_Skip addr e pc m0 add usage wbs WL True OK (g, 0) 0 sv d =
         Some (st, Some (numbered add 1 (updates_of (take j (applied w))) m0)) \<and>
       rstatus st = OK \<and> max_sequence st = of_nat (length (updates_of (take j (applied w)))) \<and>
       (fsize (dest (logw (fst w1))) \<le> k \<longrightarrow> length (applied w1) \<le> j))"
proof -
  have "length (updates_of (arrived w1)) < 2 ^ 31" using db_steps_arrived [OF assms(3)] assms(4) by auto
  then obtain gs1 fss1 where w1: "world_inv e add m0 gs1 fss1 w1"
    using db_reach_inv [OF assms(2) fresh_db_inv [OF assms(1)]] by auto
  obtain gs2 fss2 where "world_inv e add m0 (gs1 @ gs2) (fss1 @ fss2) w"
    using db_reach_inv [OF assms(3) w1 assms(4)] by blast
  then have inv: "db_inv e add m0 gs1 fss1 (fst w1) (applied w1)" "db_inv e add m0 (gs1 @ gs2) (fss1 @ fss2) (fst w) (applied w)"
    and ok: "list_all (request_ok e) (arrived w)" using w1 by (cases w1; cases w; simp)+
  have len: "length fss1 = length gs1" "concat gs1 = applied w1" "length (log_bytes e fss1) = fsize (dest (logw (fst w1)))"
    "concat (gs1 @ gs2) = applied w"
    using inv log_frames_length [of 0 e "records e 1 gs1" fss1] length_contents [of "dest (logw (fst w1))"]
    by (auto simp: db_inv_def mem_out.writer_ok_def)
  have small: "length (updates_of (applied w)) < 2 ^ 31"
    using updates_of_applied [OF subseq_applied, of w] assms(4) by linarith
  obtain m st where m: "m \<le> length (gs1 @ gs2)"
    "\<forall>i\<le>length (gs1 @ gs2). length (log_bytes e (take i (fss1 @ fss2))) \<le> k \<longrightarrow> i \<le> m"
    "RecoverLogFile Seq_Read Seq_Skip addr e pc m0 add usage wbs WL True OK (g, 0) 0 sv d =
      Some (st, Some (numbered add 1 (updates_of (concat (take m (gs1 @ gs2)))) m0))"
    "rstatus st = OK" "max_sequence st = of_nat (length (updates_of (concat (take m (gs1 @ gs2)))))"
    using RecoverLogFile_ok [where usage = usage and wbs = wbs, OF inv(2) small assms(5,6,7), of addr pc WL sv d] by blast
  let ?j = "length (concat (take m (gs1 @ gs2)))"
  have "concat (take m (gs1 @ gs2)) @ concat (drop m (gs1 @ gs2)) = applied w"
    using len(4) by (metis append_take_drop_id concat_append)
  then have j: "take ?j (applied w) = concat (take m (gs1 @ gs2))" "?j \<le> length (applied w)"
    by (metis append_eq_conv_conj, metis length_append le_add1)
  have "length (applied w1) \<le> ?j" if "fsize (dest (logw (fst w1))) \<le> k"
  proof -
    have "length gs1 \<le> m" using m(2) [rule_format, of "length gs1"] len(1,3) that by simp
    then show ?thesis using len(2) by (simp del: length_concat)
  qed
  then show ?thesis using subseq_applied [of w] inv(2) m(3-5) j by (auto simp: db_inv_def)
qed

text \<open>One request on a new database.\<close>

abbreviation entry_add :: "u64 \<Rightarrow> ValueType \<Rightarrow> u8 list \<Rightarrow> u8 list \<Rightarrow> (u64 \<times> ValueType \<times> u8 list \<times> u8 list) list \<Rightarrow>
  (u64 \<times> ValueType \<times> u8 list \<times> u8 list) list" where
  "entry_add s t k v m \<equiv> (s, t, k, v) # m"

abbreviation put_request :: "WriteBatch \<Rightarrow> request" where
  "put_request b \<equiv> (\<lparr>wbatch = Some b, wsync = True\<rparr>, [Upd [7] [8]])"

lemma one_request:
  "\<exists>b db0 db. Put True [7] [8] new_WriteBatch = Some b \<and> fresh_db 0 m0 = Some db0 \<and>
     (db_step (\<lambda>_ _. 0) add True)\<^sup>*\<^sup>* (db0, [], None, []) (db, [], None, [(put_request b, OK)]) \<and>
     file_ok (dest (logw db))"
proof -
  obtain b where b: "Put True [7] [8] new_WriteBatch = Some b" "batch_ok True 0 [Upd [7] [8]] b"
    using Put_batch [OF new_WriteBatch_ok, of "[7]" "[8]" True] by auto
  obtain db0 where db0: "fresh_db 0 m0 = Some db0"
    using new_log_ok [of 0] by (auto simp: fresh_db_def)
  have inv: "world_inv True add m0 [] [] (db0, [], None, [])" by (rule fresh_db_inv [OF db0])
  have q: "request_ok True (put_request b)" using b(2) by (auto simp: request_ok_def)
  obtain s0 where "mem_out.writer_ok (logw db0)" "batch_ok True s0 [] (tmp_batch db0)" using inv by (auto simp: db_inv_def)
  then obtain db where db: "write_front (Writable_Append (\<lambda>_ _. 0)) Writable_Flush Writable_Sync add True 0 OK
      (map fst [put_request b]) db0 = Some (OK, 1, db)" "mem_out.writer_ok (logw db)"
    using write_front_ok [of db0 True s0 "\<lparr>wbatch = Some b, wsync = True\<rparr>" "[Upd [7] [8]]" "[]" b "\<lambda>_ _. 0" add 0] q by auto
  have "db_step (\<lambda>_ _. 0) add True (db0, [], None, []) (db0, [put_request b], None, [])"
    using db_step.db_join [OF q, of "\<lambda>_ _. 0" add db0 "[]" None "[]"] by simp
  moreover have "db_step (\<lambda>_ _. 0) add True (db0, [put_request b], None, []) (db, [put_request b], Some (OK, 1), [])"
    by (rule db_step.db_lead [OF db(1)])
  moreover have "db_step (\<lambda>_ _. 0) add True (db, [put_request b], Some (OK, 1), []) (db, [], None, [(put_request b, OK)])"
    using db_step.db_leave [of "\<lambda>_ _. 0" add True db "[put_request b]" OK 1 "[]"] by simp
  ultimately have "(db_step (\<lambda>_ _. 0) add True)\<^sup>*\<^sup>* (db0, [], None, []) (db, [], None, [(put_request b, OK)])"
    by (meson converse_rtranclp_into_rtranclp rtranclp.rtrancl_refl)
  then show ?thesis using b(1) db0 db(2) by (auto simp: mem_out.writer_ok_def)
qed

theorem db_crash_atomic_witness:
  "\<exists>b db0 db st. Put True [7] [8] new_WriteBatch = Some b \<and> fresh_db 0 [] = Some db0 \<and>
     (db_step (\<lambda>_ _. 0) entry_add True)\<^sup>*\<^sup>* (db0, [], None, []) (db, [], None, [(put_request b, OK)]) \<and>
     RecoverLogFile Seq_Read Seq_Skip 0 True True [] entry_add (\<lambda>_. 0) 0 (\<lambda>m d. (OK, d)) True OK (dest (logw db), 0) 0 False () =
       Some (st, Some [(1, kTypeValue, [7], [8])]) \<and> max_sequence st = 1"
proof -
  obtain b db0 db where r: "Put True [7] [8] new_WriteBatch = Some b" "fresh_db 0 [] = Some db0"
    "(db_step (\<lambda>_ _. 0) entry_add True)\<^sup>*\<^sup>* (db0, [], None, []) (db, [], None, [(put_request b, OK)])" "file_ok (dest (logw db))"
    using one_request [of "[]" entry_add] by blast
  let ?w = "(db, [], None, [(put_request b, OK)]) :: (u64 \<times> ValueType \<times> u8 list \<times> u8 list) list world"
  let ?f = "dest (logw db)"
  have a: "applied ?w = [put_request b]" "length (updates_of (arrived ?w)) < 2 ^ 31" by (simp_all add: ok_def with_batch_def)
  have cut: "contents ?f = take (fsize ?f) (contents (dest (logw (fst ?w))))" using length_contents [OF r(4)] by simp
  obtain j st where j: "j \<le> length (applied ?w)"
    "RecoverLogFile Seq_Read Seq_Skip 0 True True [] entry_add (\<lambda>_. 0) 0 (\<lambda>m d. (OK, d)) True OK (?f, 0) 0 False () =
      Some (st, Some (numbered entry_add 1 (updates_of (take j (applied ?w))) []))"
    "max_sequence st = of_nat (length (updates_of (take j (applied ?w))))"
    "fsize (dest (logw (fst ?w))) \<le> fsize ?f \<longrightarrow> length (applied ?w) \<le> j"
    using db_crash_atomic [OF r(2,3) rtranclp.rtrancl_refl a(2) _ r(4) cut, of "\<lambda>_. 0" 0 0 True "\<lambda>m d. (OK, d)" False "()"] by auto
  have "j = 1" using j(1,4) a(1) by simp
  then show ?thesis using r(1-3) j(2,3) a(1) by (intro exI [of _ b] exI [of _ db0] exI [of _ db] exI [of _ st]) simp
qed

end
