(* ===== verification/Level_Format.thy ===== *)
theory Level_Format
  imports Level_Batch "HOL-Library.List_Lexorder" "HOL-Library.Product_Lexorder"
begin

text \<open>
  The key format of LevelDB (db/dbformat.h, db/dbformat.cc) and the default comparator
  (util/comparator.cc): user keys in bytewise order, internal keys in increasing order of the user key
  and decreasing order of the sequence number, lookup keys, and the short keys for index blocks.
\<close>

unbundle bit_operations_syntax

section \<open>The bytewise comparator\<close>

definition Slice_compare :: "u8 list \<Rightarrow> u8 list \<Rightarrow> int" where
  "Slice_compare a b = (
     let min_len = (if length a < length b then length a else length b);
         r = memcmp (take min_len a) (take min_len b)
     in if r = 0 then (if length a < length b then - 1 else if length a > length b then 1 else r) else r)"

fun common_prefix :: "u8 list \<Rightarrow> u8 list \<Rightarrow> nat" where
  "common_prefix (a # as) (b # bs) = (if a = b then Suc (common_prefix as bs) else 0)"
| "common_prefix _ _ = 0"

definition FindShortestSeparator :: "u8 list \<Rightarrow> u8 list \<Rightarrow> u8 list option" where
  "FindShortestSeparator start lim = (
     let min_length = min (length start) (length lim);
         diff_index = common_prefix start lim
     in if diff_index \<ge> min_length then Some start
        else do {
          diff_byte \<leftarrow> nth_opt start diff_index;
          l \<leftarrow> nth_opt lim diff_index;
          if diff_byte < 0xff \<and> uint diff_byte + 1 < uint l then do {
            let start = take (diff_index + 1) (start[diff_index := diff_byte + 1]);
            assert_opt (Slice_compare start lim < 0);
            Some start }
          else Some start })"

fun FindShortSuccessor :: "u8 list \<Rightarrow> u8 list" where
  "FindShortSuccessor [] = []"
| "FindShortSuccessor (byte # key) = (if byte \<noteq> 0xff then [byte + 1] else byte # FindShortSuccessor key)"

section \<open>Internal keys\<close>

definition kMaxSequenceNumber :: u64 where "kMaxSequenceNumber = push_bit 56 1 - 1"

definition kValueTypeForSeek :: ValueType where "kValueTypeForSeek = kTypeValue"

record ParsedInternalKey =
  pk_user_key :: "u8 list"
  pk_sequence :: u64
  pk_type :: u8

definition PackSequenceAndType :: "u64 \<Rightarrow> ValueType \<Rightarrow> u64 option" where
  "PackSequenceAndType seq t = do {
     assert_opt (seq \<le> kMaxSequenceNumber);
     assert_opt (tag_byte t \<le> tag_byte kValueTypeForSeek);
     Some (push_bit 8 seq OR ucast (tag_byte t)) }"

definition AppendInternalKey :: "bool \<Rightarrow> u8 list \<Rightarrow> u8 list \<Rightarrow> u64 \<Rightarrow> ValueType \<Rightarrow> u8 list option" where
  "AppendInternalKey e result user_key seq t = do {
     tag \<leftarrow> PackSequenceAndType seq t;
     Some (PutFixed64 e (result @ user_key) tag) }"

definition ExtractUserKey :: "u8 list \<Rightarrow> u8 list option" where
  "ExtractUserKey internal_key = do {
     assert_opt (length internal_key \<ge> 8);
     Some (take (length internal_key - 8) internal_key) }"

text \<open>The parsed key is there when the slice is long enough; the flag says whether its type is known.\<close>

definition ParseInternalKey :: "bool \<Rightarrow> u8 list \<Rightarrow> (bool \<times> ParsedInternalKey option) option" where
  "ParseInternalKey e internal_key = (
     let n = length internal_key
     in if n < 8 then Some (False, None)
        else do {
          num \<leftarrow> DecodeFixed64 e (drop (n - 8) internal_key);
          let c = ucast (num AND 0xff);
          Some (c \<le> tag_byte kTypeValue,
                Some \<lparr>pk_user_key = take (n - 8) internal_key, pk_sequence = drop_bit 8 num, pk_type = c\<rparr>) })"

definition InternalKey_Compare :: "bool \<Rightarrow> u8 list \<Rightarrow> u8 list \<Rightarrow> int option" where
  "InternalKey_Compare e akey bkey = do {
     a \<leftarrow> ExtractUserKey akey;
     b \<leftarrow> ExtractUserKey bkey;
     let r = Slice_compare a b;
     if r = 0 then do {
       anum \<leftarrow> DecodeFixed64 e (drop (length akey - 8) akey);
       bnum \<leftarrow> DecodeFixed64 e (drop (length bkey - 8) bkey);
       Some (if anum > bnum then - 1 else if anum < bnum then 1 else r) }
     else Some r }"

definition InternalKey_FindShortestSeparator :: "bool \<Rightarrow> u8 list \<Rightarrow> u8 list \<Rightarrow> u8 list option" where
  "InternalKey_FindShortestSeparator e start lim = do {
     user_start \<leftarrow> ExtractUserKey start;
     user_limit \<leftarrow> ExtractUserKey lim;
     tmp \<leftarrow> FindShortestSeparator user_start user_limit;
     if length tmp < length user_start \<and> Slice_compare user_start tmp < 0 then do {
       tag \<leftarrow> PackSequenceAndType kMaxSequenceNumber kValueTypeForSeek;
       let tmp = PutFixed64 e tmp tag;
       c \<leftarrow> InternalKey_Compare e start tmp;
       assert_opt (c < 0);
       c \<leftarrow> InternalKey_Compare e tmp lim;
       assert_opt (c < 0);
       Some tmp }
     else Some start }"

definition InternalKey_FindShortSuccessor :: "bool \<Rightarrow> u8 list \<Rightarrow> u8 list option" where
  "InternalKey_FindShortSuccessor e key = do {
     user_key \<leftarrow> ExtractUserKey key;
     let tmp = FindShortSuccessor user_key;
     if length tmp < length user_key \<and> Slice_compare user_key tmp < 0 then do {
       tag \<leftarrow> PackSequenceAndType kMaxSequenceNumber kValueTypeForSeek;
       let tmp = PutFixed64 e tmp tag;
       c \<leftarrow> InternalKey_Compare e key tmp;
       assert_opt (c < 0);
       Some tmp }
     else Some key }"

section \<open>Lookup keys\<close>

record LookupKey =
  lk_rep :: "u8 list"
  lk_kstart :: nat

definition new_LookupKey :: "bool \<Rightarrow> u8 list \<Rightarrow> u64 \<Rightarrow> LookupKey option" where
  "new_LookupKey e user_key s = do {
     let needed = length user_key + 13;
     let dst = EncodeVarint32 (of_nat (length user_key + 8));
     tag \<leftarrow> PackSequenceAndType s kValueTypeForSeek;
     let rep = dst @ user_key @ EncodeFixed64 e tag;
     assert_opt (length rep \<le> needed);
     Some \<lparr>lk_rep = rep, lk_kstart = length dst\<rparr> }"

definition memtable_key :: "LookupKey \<Rightarrow> u8 list" where
  "memtable_key k = lk_rep k"

definition internal_key :: "LookupKey \<Rightarrow> u8 list" where
  "internal_key k = drop (lk_kstart k) (lk_rep k)"

definition user_key :: "LookupKey \<Rightarrow> u8 list" where
  "user_key k = take (length (lk_rep k) - lk_kstart k - 8) (drop (lk_kstart k) (lk_rep k))"

section \<open>Orders\<close>

lemma Slice_compare_simps:
  "Slice_compare [] [] = 0" "Slice_compare [] (b # bs) = - 1" "Slice_compare (a # as) [] = 1"
  "Slice_compare (a # as) (b # bs) = (if a = b then Slice_compare as bs else uint a - uint b)"
  by (auto simp: Slice_compare_def Let_def word_uint_eq_iff)

lemma Slice_compare_order: "(Slice_compare a b < 0 \<longleftrightarrow> a < b) \<and> (Slice_compare a b = 0 \<longleftrightarrow> a = b)"
proof (induction a arbitrary: b)
  case Nil
  then show ?case by (cases b) (auto simp: Slice_compare_simps)
next
  case (Cons x a)
  then show ?case by (cases b) (auto simp: Slice_compare_simps word_less_def word_uint_eq_iff)
qed

lemmas Slice_less [simp] = conjunct1 [OF Slice_compare_order]

lemmas Slice_eq [simp] = conjunct2 [OF Slice_compare_order]

text \<open>The rank of an internal key.\<close>

definition irank :: "bool \<Rightarrow> u8 list \<Rightarrow> u8 list \<times> int" where
  "irank e k = (take (length k - 8) k, - uint (the (DecodeFixed64 e (drop (length k - 8) k))))"

lemma DecodeFixed64_defined: "8 \<le> length p \<Longrightarrow> \<exists>v. DecodeFixed64 e p = Some v"
  by (simp add: DecodeFixed64_le)

lemma InternalKey_Compare_order:
  assumes "8 \<le> length a" "8 \<le> length b"
  shows "\<exists>c. InternalKey_Compare e a b = Some c \<and> (c < 0 \<longleftrightarrow> irank e a < irank e b) \<and> (c = 0 \<longleftrightarrow> irank e a = irank e b)"
proof -
  obtain va vb where "DecodeFixed64 e (drop (length a - 8) a) = Some va" "DecodeFixed64 e (drop (length b - 8) b) = Some vb"
    using DecodeFixed64_defined [of "drop (length a - 8) a" e] DecodeFixed64_defined [of "drop (length b - 8) b" e] assms by auto
  then show ?thesis using assms
    by (auto simp: InternalKey_Compare_def ExtractUserKey_def irank_def Let_def less_prod_def' word_less_def word_uint_eq_iff)
qed

section \<open>Short keys between two keys\<close>

lemma common_prefix_take: "common_prefix a b \<le> length a \<and> common_prefix a b \<le> length b \<and> take (common_prefix a b) a = take (common_prefix a b) b"
  by (induction a b rule: common_prefix.induct) auto

lemma append_less_append: "(xs @ ys :: u8 list) < xs @ zs \<longleftrightarrow> ys < zs"
  by (induction xs) simp_all

lemma split_nth: "i < length xs \<Longrightarrow> xs = take i xs @ xs ! i # drop (Suc i) xs"
  by (simp add: id_take_nth_drop [symmetric])

lemma FindShortestSeparator_ok:
  "\<exists>s. FindShortestSeparator start lim = Some s \<and> length s \<le> length start \<and> (s = start \<or> start < s \<and> s < lim)"
proof (cases "common_prefix start lim \<ge> min (length start) (length lim)")
  case True
  then show ?thesis by (simp add: FindShortestSeparator_def Let_def)
next
  case False
  define i where "i = common_prefix start lim"
  have i: "i < length start" "i < length lim" "take i start = take i lim"
    using False common_prefix_take [of start lim] by (auto simp: i_def)
  let ?s = "take (i + 1) (start[i := start ! i + 1])"
  show ?thesis
  proof (cases "start ! i < 0xff \<and> uint (start ! i) + 1 < uint (lim ! i)")
    case changed: True
    have "uint (start ! i + 1) = uint (start ! i) + 1" using changed
      by (simp add: word_less_def uint_word_ariths)
    then have b: "start ! i < start ! i + 1" "start ! i + 1 < lim ! i" using changed by (simp_all add: word_less_def)
    have s: "?s = take i start @ [start ! i + 1]" using i(1) by (simp add: take_Suc_conv_app_nth)
    have "take i start @ start ! i # drop (Suc i) start < take i start @ [start ! i + 1]"
      "take i lim @ [start ! i + 1] < take i lim @ lim ! i # drop (Suc i) lim"
      using b by (simp_all add: append_less_append)
    then have "start < take i start @ [start ! i + 1]" "take i lim @ [start ! i + 1] < lim"
      unfolding split_nth [OF i(1), symmetric] split_nth [OF i(2), symmetric] by simp_all
    then have "start < ?s" "?s < lim" unfolding s i(3) by simp_all
    then show ?thesis using False changed i(1,2) by (simp add: FindShortestSeparator_def Let_def flip: i_def)
  next
    case unchanged: False
    then have "FindShortestSeparator start lim = Some start"
      using False i(1,2) by (auto simp: FindShortestSeparator_def Let_def simp flip: i_def)
    then show ?thesis by simp
  qed
qed

lemma FindShortSuccessor_ok: "length (FindShortSuccessor key) \<le> length key \<and> key \<le> FindShortSuccessor key"
proof (induction key)
  case (Cons b key)
  have "b < b + 1" if "b \<noteq> 0xff"
  proof -
    have "uint b \<noteq> 255" using that by (simp add: word_uint_eq_iff)
    then show ?thesis using uint_lt2p [of b] by (simp add: word_less_def uint_word_ariths)
  qed
  then show ?case using Cons by auto
qed simp

lemma PackSequenceAndType_ok: "seq \<le> kMaxSequenceNumber \<Longrightarrow> \<exists>tag. PackSequenceAndType seq t = Some tag \<and> tag = push_bit 8 seq OR ucast (tag_byte t)"
  by (cases t) (simp_all add: PackSequenceAndType_def kValueTypeForSeek_def tag_byte_def)

lemma irank_PutFixed64 [simp]: "irank e (PutFixed64 e u tag) = (u, - uint tag)"
  using DecodeFixed_Encode(2) [of e e tag "[]"] by (simp add: irank_def PutFixed64_def)

lemma length_PutFixed64 [simp]: "length (PutFixed64 e u tag) = length u + 8"
  by (simp add: PutFixed64_def)

lemma Compare_less:
  assumes "8 \<le> length a" "8 \<le> length b" "irank e a < irank e b"
  shows "\<exists>c. InternalKey_Compare e a b = Some c \<and> c < 0"
  using InternalKey_Compare_order [OF assms(1,2), of e] assms(3) by auto

text \<open>
  C38. Short keys for index blocks. For internal keys, FindShortestSeparator returns a key that is not
  longer, not before the start, and before the limit when the start is; FindShortSuccessor returns a
  key that is not longer and not before the given one. Their assertions never fail.
\<close>

theorem short_keys_between:
  assumes "8 \<le> length start" "8 \<le> length lim" and "irank e start < irank e lim"
  shows "(\<exists>s. InternalKey_FindShortestSeparator e start lim = Some s \<and> length s \<le> length start \<and>
      irank e start \<le> irank e s \<and> irank e s < irank e lim) \<and>
    (\<exists>s. InternalKey_FindShortSuccessor e start = Some s \<and> length s \<le> length start \<and> irank e start \<le> irank e s)"
proof -
  let ?us = "take (length start - 8) start" and ?ul = "take (length lim - 8) lim"
  obtain tag where tag: "PackSequenceAndType kMaxSequenceNumber kValueTypeForSeek = Some tag" using PackSequenceAndType_ok by blast
  have u: "ExtractUserKey start = Some ?us" "ExtractUserKey lim = Some ?ul" using assms(1,2) by (simp_all add: ExtractUserKey_def)
  obtain t where t: "FindShortestSeparator ?us ?ul = Some t" "t = ?us \<or> ?us < t \<and> t < ?ul" using FindShortestSeparator_ok by blast
  have 1: "\<exists>s. InternalKey_FindShortestSeparator e start lim = Some s \<and> length s \<le> length start \<and>
      irank e start \<le> irank e s \<and> irank e s < irank e lim"
  proof (cases "length t < length ?us \<and> ?us < t")
    case True
    then have "irank e start < irank e (PutFixed64 e t tag)" "irank e (PutFixed64 e t tag) < irank e lim"
      using t(2) by (auto simp: irank_def [of e start] irank_def [of e lim] less_prod_def')
    then show ?thesis
      using True u t(1) tag assms(1,2) Compare_less [of start "PutFixed64 e t tag" e] Compare_less [of "PutFixed64 e t tag" lim e]
      by (auto simp: InternalKey_FindShortestSeparator_def)
  next
    case False
    then have "InternalKey_FindShortestSeparator e start lim = Some start"
      using u t(1) by (auto simp: InternalKey_FindShortestSeparator_def)
    then show ?thesis using assms(3) by simp
  qed
  let ?t = "FindShortSuccessor ?us"
  have "\<exists>s. InternalKey_FindShortSuccessor e start = Some s \<and> length s \<le> length start \<and> irank e start \<le> irank e s"
  proof (cases "length ?t < length ?us \<and> ?us < ?t")
    case True
    then have "irank e start < irank e (PutFixed64 e ?t tag)" by (simp add: irank_def [of e start] less_prod_def')
    then show ?thesis
      using True u(1) tag assms(1) Compare_less [of start "PutFixed64 e ?t tag" e] by (auto simp: InternalKey_FindShortSuccessor_def Let_def)
  next
    case False
    then have "InternalKey_FindShortSuccessor e start = Some start" using u(1) by (auto simp: InternalKey_FindShortSuccessor_def Let_def)
    then show ?thesis by simp
  qed
  with 1 show ?thesis by blast
qed

theorem short_keys_between_witness:
  "\<exists>s. InternalKey_FindShortestSeparator True [97, 98, 99, 1, 0, 0, 0, 0, 0, 0, 0] [97, 100, 1, 0, 0, 0, 0, 0, 0, 0] = Some s \<and>
     length s \<le> 11 \<and> irank True s < irank True [97, 100, 1, 0, 0, 0, 0, 0, 0, 0]"
proof -
  have "irank True [97, 98, 99, 1, 0, 0, 0, 0, 0, 0, 0] < irank True [97, 100, 1, 0, 0, 0, 0, 0, 0, 0]"
    by (simp add: irank_def less_prod_def')
  then show ?thesis
    using short_keys_between [of "[97, 98, 99, 1, 0, 0, 0, 0, 0, 0, 0]" "[97, 100, 1, 0, 0, 0, 0, 0, 0, 0]" True] by auto
qed

end
