(* ===== verification/Level_Skiplist.thy ===== *)
theory Level_Skiplist
  imports Prelude
begin

text \<open>
  The skip list of LevelDB (db/skiplist.h) with the random numbers it draws (util/random.h). Nodes live
  at addresses that the arena hands out in increasing order; a node has as many links as it is high.
  The comparator is a parameter; it is partial, since a comparator may itself read memory.
\<close>

unbundle bit_operations_syntax

section \<open>Random numbers\<close>

definition Random_new :: "u32 \<Rightarrow> u32" where
  "Random_new s = (let seed = s AND 0x7fffffff in if seed = 0 \<or> seed = 2147483647 then 1 else seed)"

definition Random_Next :: "u32 \<Rightarrow> u32" where
  "Random_Next seed = (
     let M = 2147483647 :: u32;
         product = (ucast seed :: u64) * 16807;
         seed = ucast (drop_bit 31 product + (product AND ucast M))
     in if seed > M then seed - M else seed)"

section \<open>Nodes and lists\<close>

record 'k Node =
  nkey :: 'k
  nnext :: "nat option list"

record 'k SkipList =
  nodes :: "nat \<Rightarrow> 'k Node option"
  head :: nat
  max_height :: nat
  rnd :: u32
  arena :: nat

definition kMaxHeight :: nat where "kMaxHeight = 12"

definition Node_Next :: "'k SkipList \<Rightarrow> nat \<Rightarrow> nat \<Rightarrow> nat option option" where
  "Node_Next sl x n = do { nd \<leftarrow> nodes sl x; nth_opt (nnext nd) n }"

definition SetNext :: "nat \<Rightarrow> nat \<Rightarrow> nat option \<Rightarrow> 'k SkipList \<Rightarrow> 'k SkipList option" where
  "SetNext x n y sl = do {
     nd \<leftarrow> nodes sl x;
     ns \<leftarrow> upd_opt (nnext nd) n y;
     Some (sl\<lparr>nodes := (nodes sl)(x \<mapsto> nd\<lparr>nnext := ns\<rparr>)\<rparr>) }"

definition node_key :: "'k SkipList \<Rightarrow> nat \<Rightarrow> 'k option" where
  "node_key sl x = map_option nkey (nodes sl x)"

text \<open>The links of a new node hold whatever the arena's memory holds.\<close>

definition NewNode :: "(nat \<Rightarrow> nat option) \<Rightarrow> 'k \<Rightarrow> nat \<Rightarrow> 'k SkipList \<Rightarrow> nat \<times> 'k SkipList" where
  "NewNode junk key height sl =
     (arena sl, sl\<lparr>nodes := (nodes sl)(arena sl \<mapsto> \<lparr>nkey = key, nnext = map junk [0..<height]\<rparr>), arena := arena sl + 1\<rparr>)"

fun clear_links :: "nat \<Rightarrow> nat list \<Rightarrow> 'k SkipList \<Rightarrow> 'k SkipList option" where
  "clear_links x [] sl = Some sl"
| "clear_links x (i # is) sl = do { sl \<leftarrow> SetNext x i None sl; clear_links x is sl }"

definition new_SkipList :: "(nat \<Rightarrow> nat option) \<Rightarrow> 'k \<Rightarrow> 'k SkipList option" where
  "new_SkipList junk any_key = (
     let sl = \<lparr>nodes = Map.empty, head = 0, max_height = 1, rnd = Random_new 0xdeadbeef, arena = 0\<rparr>;
         (h, sl) = NewNode junk any_key kMaxHeight sl
     in clear_links h [0..<kMaxHeight] (sl\<lparr>head := h\<rparr>))"

function height_loop :: "nat \<Rightarrow> u32 \<Rightarrow> nat \<times> u32" where
  "height_loop height seed =
     (if height < kMaxHeight then
        let seed = Random_Next seed in if seed mod 4 = 0 then height_loop (height + 1) seed else (height, seed)
      else (height, seed))"
  by pat_completeness auto
termination by (relation "measure (\<lambda>(height, _). kMaxHeight - height)") auto

declare height_loop.simps [simp del]

definition RandomHeight :: "'k SkipList \<Rightarrow> (nat \<times> 'k SkipList) option" where
  "RandomHeight sl = (case height_loop 1 (rnd sl) of (height, seed) \<Rightarrow> do {
     assert_opt (height > 0);
     assert_opt (height \<le> kMaxHeight);
     Some (height, sl\<lparr>rnd := seed\<rparr>) })"

definition KeyIsAfterNode :: "('k \<Rightarrow> 'k \<Rightarrow> int option) \<Rightarrow> 'k SkipList \<Rightarrow> 'k \<Rightarrow> nat option \<Rightarrow> bool option" where
  "KeyIsAfterNode cmp sl key n =
     (case n of None \<Rightarrow> Some False
      | Some x \<Rightarrow> do { k \<leftarrow> node_key sl x; c \<leftarrow> cmp k key; Some (c < 0) })"

section \<open>Searches\<close>

text \<open>One round of the loop of FindGreaterOrEqual: the node reached and the level, or the result.\<close>

definition ge_step ::
  "('k \<Rightarrow> 'k \<Rightarrow> int option) \<Rightarrow> 'k SkipList \<Rightarrow> 'k \<Rightarrow> nat \<times> nat \<times> nat list option \<Rightarrow>
   ((nat \<times> nat \<times> nat list option) + (nat option \<times> nat list option)) option" where
  "ge_step cmp sl key = (\<lambda>(x, level, prev). do {
     next \<leftarrow> Node_Next sl x level;
     after \<leftarrow> KeyIsAfterNode cmp sl key next;
     if after then do { y \<leftarrow> next; Some (Inl (y, level, prev)) }
     else do {
       prev \<leftarrow> (case prev of None \<Rightarrow> Some None | Some p \<Rightarrow> map_option Some (upd_opt p level x));
       if level = 0 then Some (Inr (next, prev)) else Some (Inl (x, level - 1, prev)) } })"

partial_function (option) ge_loop ::
  "('k \<Rightarrow> 'k \<Rightarrow> int option) \<Rightarrow> 'k SkipList \<Rightarrow> 'k \<Rightarrow> nat \<times> nat \<times> nat list option \<Rightarrow> (nat option \<times> nat list option) option" where
  "ge_loop cmp sl key st = do {
     r \<leftarrow> ge_step cmp sl key st;
     case r of Inl st \<Rightarrow> ge_loop cmp sl key st | Inr res \<Rightarrow> Some res }"

declare ge_loop.simps [code]

definition FindGreaterOrEqual ::
  "('k \<Rightarrow> 'k \<Rightarrow> int option) \<Rightarrow> 'k SkipList \<Rightarrow> 'k \<Rightarrow> nat list option \<Rightarrow> (nat option \<times> nat list option) option" where
  "FindGreaterOrEqual cmp sl key prev = ge_loop cmp sl key (head sl, max_height sl - 1, prev)"

partial_function (option) less_loop :: "('k \<Rightarrow> 'k \<Rightarrow> int option) \<Rightarrow> 'k SkipList \<Rightarrow> 'k \<Rightarrow> nat \<Rightarrow> nat \<Rightarrow> nat option" where
  "less_loop cmp sl key x level = do {
     ok \<leftarrow> (if x = head sl then Some True else do { k \<leftarrow> node_key sl x; c \<leftarrow> cmp k key; Some (c < 0) });
     _ \<leftarrow> assert_opt ok;
     next \<leftarrow> Node_Next sl x level;
     stop \<leftarrow> (case next of None \<Rightarrow> Some True | Some y \<Rightarrow> do { k \<leftarrow> node_key sl y; c \<leftarrow> cmp k key; Some (c \<ge> 0) });
     if stop then (if level = 0 then Some x else less_loop cmp sl key x (level - 1))
     else Option.bind next (\<lambda>y. less_loop cmp sl key y level) }"

declare less_loop.simps [code]

definition FindLessThan :: "('k \<Rightarrow> 'k \<Rightarrow> int option) \<Rightarrow> 'k SkipList \<Rightarrow> 'k \<Rightarrow> nat option" where
  "FindLessThan cmp sl key = less_loop cmp sl key (head sl) (max_height sl - 1)"

partial_function (option) last_loop :: "'k SkipList \<Rightarrow> nat \<Rightarrow> nat \<Rightarrow> nat option" where
  "last_loop sl x level = do {
     next \<leftarrow> Node_Next sl x level;
     case next of
       None \<Rightarrow> if level = 0 then Some x else last_loop sl x (level - 1)
     | Some y \<Rightarrow> last_loop sl y level }"

declare last_loop.simps [code]

definition FindLast :: "'k SkipList \<Rightarrow> nat option" where
  "FindLast sl = last_loop sl (head sl) (max_height sl - 1)"

section \<open>Insertion and iteration\<close>

fun link_loop :: "nat \<Rightarrow> nat list \<Rightarrow> nat list \<Rightarrow> 'k SkipList \<Rightarrow> 'k SkipList option" where
  "link_loop x prev [] sl = Some sl"
| "link_loop x prev (i # is) sl = do {
     p \<leftarrow> nth_opt prev i;
     y \<leftarrow> Node_Next sl p i;
     sl \<leftarrow> SetNext x i y sl;
     sl \<leftarrow> SetNext p i (Some x) sl;
     link_loop x prev is sl }"

text \<open>Everything Insert does before it links the node in; raise_prev fills the new levels with the head.\<close>

fun raise_prev :: "nat \<Rightarrow> nat list \<Rightarrow> nat list \<Rightarrow> nat list option" where
  "raise_prev h [] prev = Some prev"
| "raise_prev h (i # is) prev = do { prev \<leftarrow> upd_opt prev i h; raise_prev h is prev }"

definition insert_prepare ::
  "('k \<Rightarrow> 'k \<Rightarrow> int option) \<Rightarrow> (nat \<Rightarrow> nat option) \<Rightarrow> nat list \<Rightarrow> 'k \<Rightarrow> 'k SkipList \<Rightarrow> (nat \<times> nat \<times> nat list \<times> 'k SkipList) option" where
  "insert_prepare cmp junk prev0 key sl = do {
     (x, prev) \<leftarrow> FindGreaterOrEqual cmp sl key (Some prev0);
     prev \<leftarrow> prev;
     fresh \<leftarrow> (case x of None \<Rightarrow> Some True | Some y \<Rightarrow> do { k \<leftarrow> node_key sl y; c \<leftarrow> cmp key k; Some (c \<noteq> 0) });
     _ \<leftarrow> assert_opt fresh;
     (height, sl) \<leftarrow> RandomHeight sl;
     (prev, sl) \<leftarrow> (if height > max_height sl then do {
         prev \<leftarrow> raise_prev (head sl) [max_height sl..<height] prev;
         Some (prev, sl\<lparr>max_height := height\<rparr>) }
       else Some (prev, sl));
     let (x, sl) = NewNode junk key height sl;
     Some (x, height, prev, sl) }"

definition Insert :: "('k \<Rightarrow> 'k \<Rightarrow> int option) \<Rightarrow> (nat \<Rightarrow> nat option) \<Rightarrow> nat list \<Rightarrow> 'k \<Rightarrow> 'k SkipList \<Rightarrow> 'k SkipList option" where
  "Insert cmp junk prev0 key sl = do {
     (x, height, prev, sl) \<leftarrow> insert_prepare cmp junk prev0 key sl;
     link_loop x prev [0..<height] sl }"

definition Contains :: "('k \<Rightarrow> 'k \<Rightarrow> int option) \<Rightarrow> 'k SkipList \<Rightarrow> 'k \<Rightarrow> bool option" where
  "Contains cmp sl key = do {
     (x, _) \<leftarrow> FindGreaterOrEqual cmp sl key None;
     case x of None \<Rightarrow> Some False | Some y \<Rightarrow> do { k \<leftarrow> node_key sl y; c \<leftarrow> cmp key k; Some (c = 0) } }"

text \<open>An iterator is the node it is at, if any.\<close>

definition Iter_key :: "'k SkipList \<Rightarrow> nat option \<Rightarrow> 'k option" where
  "Iter_key sl it = do { x \<leftarrow> it; node_key sl x }"

definition Iter_Next :: "'k SkipList \<Rightarrow> nat option \<Rightarrow> nat option option" where
  "Iter_Next sl it = do { x \<leftarrow> it; Node_Next sl x 0 }"

definition Iter_Prev :: "('k \<Rightarrow> 'k \<Rightarrow> int option) \<Rightarrow> 'k SkipList \<Rightarrow> nat option \<Rightarrow> nat option option" where
  "Iter_Prev cmp sl it = do {
     x \<leftarrow> it;
     k \<leftarrow> node_key sl x;
     y \<leftarrow> FindLessThan cmp sl k;
     Some (if y = head sl then None else Some y) }"

definition Iter_Seek :: "('k \<Rightarrow> 'k \<Rightarrow> int option) \<Rightarrow> 'k SkipList \<Rightarrow> 'k \<Rightarrow> nat option option" where
  "Iter_Seek cmp sl target = do { (x, _) \<leftarrow> FindGreaterOrEqual cmp sl target None; Some x }"

definition Iter_SeekToFirst :: "'k SkipList \<Rightarrow> nat option option" where
  "Iter_SeekToFirst sl = Node_Next sl (head sl) 0"

definition Iter_SeekToLast :: "'k SkipList \<Rightarrow> nat option option" where
  "Iter_SeekToLast sl = do { y \<leftarrow> FindLast sl; Some (if y = head sl then None else Some y) }"

section \<open>One writer and a reader\<close>

text \<open>
  The stores of Insert, one at a time, and the rounds of a search that runs at the same time. A writer
  in progress has the new node, its height, the predecessors, the level and whether the new node's own
  link at the level is filled; a search is at a node and a level, or done. Memory is sequentially
  consistent.
\<close>

type_synonym writer = "(nat \<times> nat \<times> nat list \<times> nat \<times> bool) option"
type_synonym reader = "(nat \<times> nat + nat option) option"

inductive rw_step ::
  "('k \<Rightarrow> 'k \<Rightarrow> int option) \<Rightarrow> (nat \<Rightarrow> nat option) \<Rightarrow> ('k \<Rightarrow> bool) \<Rightarrow> 'k \<Rightarrow>
   'k SkipList \<times> writer \<times> reader \<Rightarrow> 'k SkipList \<times> writer \<times> reader \<Rightarrow> bool"
  for cmp junk P target where
  w_begin: "P key \<Longrightarrow> length prev0 = kMaxHeight \<Longrightarrow> insert_prepare cmp junk prev0 key sl = Some (x, h, prev, sl') \<Longrightarrow>
    rw_step cmp junk P target (sl, None, r) (sl', Some (x, h, prev, 0, False), r)"
| w_fill: "i < h \<Longrightarrow> nth_opt prev i = Some p \<Longrightarrow> Node_Next sl p i = Some y \<Longrightarrow> SetNext x i y sl = Some sl' \<Longrightarrow>
    rw_step cmp junk P target (sl, Some (x, h, prev, i, False), r) (sl', Some (x, h, prev, i, True), r)"
| w_link: "nth_opt prev i = Some p \<Longrightarrow> SetNext p i (Some x) sl = Some sl' \<Longrightarrow>
    rw_step cmp junk P target (sl, Some (x, h, prev, i, True), r) (sl', Some (x, h, prev, i + 1, False), r)"
| w_end: "rw_step cmp junk P target (sl, Some (x, h, prev, h, False), r) (sl, None, r)"
| r_begin: "rw_step cmp junk P target (sl, w, None) (sl, w, Some (Inl (head sl, max_height sl - 1)))"
| r_round: "ge_step cmp sl target (x, level, None) = Some (Inl (x', level', pv)) \<Longrightarrow>
    rw_step cmp junk P target (sl, w, Some (Inl (x, level))) (sl, w, Some (Inl (x', level')))"
| r_end: "ge_step cmp sl target (x, level, None) = Some (Inr (n, pv)) \<Longrightarrow>
    rw_step cmp junk P target (sl, w, Some (Inl (x, level))) (sl, w, Some (Inr n))"

section \<open>Chains of links\<close>

definition first_of :: "nat list \<Rightarrow> nat option" where
  "first_of xs = (case xs of [] \<Rightarrow> None | x # _ \<Rightarrow> Some x)"

lemma first_of_simps [simp]: "first_of [] = None" "first_of (x # xs) = Some x"
  by (simp_all add: first_of_def)

text \<open>From a node, the links of a level lead through these nodes and end.\<close>

fun chain :: "'k SkipList \<Rightarrow> nat \<Rightarrow> nat \<Rightarrow> nat list \<Rightarrow> bool" where
  "chain sl i a [] \<longleftrightarrow> Node_Next sl a i = Some None"
| "chain sl i a (y # ys) \<longleftrightarrow> Node_Next sl a i = Some (Some y) \<and> chain sl i y ys"

lemma chain_at: "chain sl i h L \<Longrightarrow> h # L = us @ x # vs \<Longrightarrow> Node_Next sl x i = Some (first_of vs)"
proof (induction L arbitrary: h us)
  case Nil
  then show ?case by (cases us) auto
next
  case (Cons y L)
  show ?case
  proof (cases us)
    case Nil
    then show ?thesis using Cons.prems by auto
  next
    case (Cons u us')
    then show ?thesis using Cons.prems Cons.IH [of y us'] by auto
  qed
qed

lemma chain_frame:
  "chain sl i h L \<Longrightarrow> (\<And>a. a \<in> set (h # L) \<Longrightarrow> Node_Next sl' a i = Node_Next sl a i) \<Longrightarrow> chain sl' i h L"
  by (induction L arbitrary: h) auto

lemma chain_insert:
  assumes "chain sl i h (P @ Q)" "distinct (h # P @ Q)" "x \<notin> set (h # P @ Q)" "p = last (h # P)"
    and new: "Node_Next sl' x i = Some (first_of Q)" "Node_Next sl' p i = Some (Some x)"
    and same: "\<And>a. a \<noteq> x \<Longrightarrow> a \<noteq> p \<Longrightarrow> Node_Next sl' a i = Node_Next sl a i"
  shows "chain sl' i h (P @ x # Q)"
  using assms(1-4) new(2)
proof (induction P arbitrary: h)
  case Nil
  have "chain sl' i x Q"
  proof (cases Q)
    case Nil
    then show ?thesis using new(1) by simp
  next
    case (Cons q Q')
    then have "chain sl i q Q'" using Nil.prems(1) by simp
    then have "chain sl' i q Q'" by (rule chain_frame) (use Nil.prems Cons in \<open>auto intro!: same\<close>)
    then show ?thesis using new(1) Cons by simp
  qed
  then show ?case using Nil.prems by simp
next
  case (Cons y P)
  have "Node_Next sl' h i = Node_Next sl h i" using Cons.prems(2-4) by (intro same) (auto split: if_splits)
  then show ?case using Cons.prems Cons.IH [of y] by (auto split: if_splits)
qed

lemma Node_Next_def2: "Node_Next sl x n = Some y \<longleftrightarrow> (\<exists>nd. nodes sl x = Some nd \<and> n < length (nnext nd) \<and> nnext nd ! n = y)"
  by (auto simp: Node_Next_def nth_opt_def split: bind_splits if_splits)

lemma SetNext_ok:
  assumes "nodes sl x = Some nd" "i < length (nnext nd)"
  shows "\<exists>sl'. SetNext x i y sl = Some sl' \<and> (\<forall>a l. Node_Next sl' a l = (if a = x \<and> l = i then Some y else Node_Next sl a l)) \<and>
    (\<forall>a. node_key sl' a = node_key sl a) \<and> (\<forall>a. map_option (length \<circ> nnext) (nodes sl' a) = map_option (length \<circ> nnext) (nodes sl a)) \<and>
    head sl' = head sl \<and> max_height sl' = max_height sl \<and> rnd sl' = rnd sl \<and> arena sl' = arena sl"
proof -
  let ?sl = "sl\<lparr>nodes := (nodes sl)(x \<mapsto> nd\<lparr>nnext := (nnext nd)[i := y]\<rparr>)\<rparr>"
  have "Node_Next ?sl a l = (if a = x \<and> l = i then Some y else Node_Next sl a l)" for a l
    using assms by (auto simp: Node_Next_def nth_opt_def)
  moreover have "SetNext x i y sl = Some ?sl" using assms by (simp add: SetNext_def)
  moreover have "\<forall>a. node_key ?sl a = node_key sl a"
    "\<forall>a. map_option (length \<circ> nnext) (nodes ?sl a) = map_option (length \<circ> nnext) (nodes sl a)"
    using assms by (simp_all add: node_key_def)
  ultimately show ?thesis by (intro exI [of _ ?sl]) simp
qed

lemma height_loop_bounds: "0 < h \<Longrightarrow> h \<le> kMaxHeight \<Longrightarrow> 0 < fst (height_loop h seed) \<and> fst (height_loop h seed) \<le> kMaxHeight"
proof (induction h seed rule: height_loop.induct)
  case (1 h seed)
  then show ?case by (subst (1 2) height_loop.simps) (auto simp: Let_def)
qed

lemma RandomHeight_ok: "\<exists>h seed. RandomHeight sl = Some (h, sl\<lparr>rnd := seed\<rparr>) \<and> 0 < h \<and> h \<le> kMaxHeight"
  using height_loop_bounds [of 1 "rnd sl"] by (auto simp: RandomHeight_def kMaxHeight_def split: prod.split)

lemma raise_prev_ok:
  "(\<forall>i\<in>set is. i < length prev) \<Longrightarrow>
   \<exists>prev'. raise_prev h is prev = Some prev' \<and> length prev' = length prev \<and>
     (\<forall>l<length prev. prev' ! l = (if l \<in> set is then h else prev ! l))"
proof (induction "is" arbitrary: prev)
  case (Cons i "is")
  then show ?case using Cons.IH [of "prev[i := h]"] by (auto simp: nth_list_update)
qed simp

lemma clear_links_ok:
  "nodes sl x = Some nd \<Longrightarrow> (\<forall>i\<in>set is. i < length (nnext nd)) \<Longrightarrow>
   \<exists>sl'. clear_links x is sl = Some sl' \<and> (\<forall>a l. Node_Next sl' a l = (if a = x \<and> l \<in> set is then Some None else Node_Next sl a l)) \<and>
     head sl' = head sl \<and> max_height sl' = max_height sl \<and> arena sl' = arena sl"
proof (induction "is" arbitrary: sl nd)
  case (Cons i "is")
  obtain sl1 where sl1: "SetNext x i None sl = Some sl1"
    "\<forall>a l. Node_Next sl1 a l = (if a = x \<and> l = i then Some None else Node_Next sl a l)"
    "\<forall>a. map_option (length \<circ> nnext) (nodes sl1 a) = map_option (length \<circ> nnext) (nodes sl a)"
    "head sl1 = head sl" "max_height sl1 = max_height sl" "arena sl1 = arena sl"
    using SetNext_ok [OF Cons.prems(1), of i None] Cons.prems(2) by auto
  obtain nd1 where "nodes sl1 x = Some nd1" "length (nnext nd1) = length (nnext nd)"
    using sl1(3) [rule_format, of x] Cons.prems(1) by auto
  then show ?case using Cons.IH [of sl1 nd1] Cons.prems(2) sl1 by auto
qed simp

section \<open>Sorted lists of nodes\<close>

text \<open>What the list relies on: on valid keys the comparator decides the order of their ranks.\<close>

locale key_order =
  fixes cmp :: "'k \<Rightarrow> 'k \<Rightarrow> int option" and valid :: "'k \<Rightarrow> bool" and rank :: "'k \<Rightarrow> 'o :: linorder"
  assumes cmp_ok: "valid a \<Longrightarrow> valid b \<Longrightarrow> \<exists>c. cmp a b = Some c \<and> (c < 0 \<longleftrightarrow> rank a < rank b) \<and> (c = 0 \<longleftrightarrow> rank a = rank b)"
begin

abbreviation key_of :: "'k SkipList \<Rightarrow> nat \<Rightarrow> 'k" where
  "key_of sl a \<equiv> the (node_key sl a)"

abbreviation less_than :: "'k SkipList \<Rightarrow> 'k \<Rightarrow> nat \<Rightarrow> bool" where
  "less_than sl key a \<equiv> rank (key_of sl a) < rank key"

definition key_at :: "'k SkipList \<Rightarrow> nat \<Rightarrow> bool" where
  "key_at sl a \<longleftrightarrow> (\<exists>k. node_key sl a = Some k \<and> valid k)"

text \<open>
  The nodes in order, and up to which level each is linked in; that may be less than its height while
  it is being inserted.
\<close>

definition sl_wf :: "'k SkipList \<Rightarrow> (nat \<Rightarrow> nat) \<Rightarrow> nat list \<Rightarrow> bool" where
  "sl_wf sl ht xs \<longleftrightarrow>
     (\<forall>i<kMaxHeight. chain sl i (head sl) (filter (\<lambda>a. i < ht a) xs)) \<and>
     (\<forall>a\<in>set xs. 0 < ht a \<and> ht a \<le> max_height sl \<and> key_at sl a) \<and>
     sorted_wrt (\<lambda>a b. rank (key_of sl a) < rank (key_of sl b)) xs \<and> head sl \<notin> set xs \<and>
     0 < max_height sl \<and> max_height sl \<le> kMaxHeight \<and> (\<forall>a. a \<in> set (head sl # xs) \<longrightarrow> a < arena sl)"

lemma cmp_less: "valid a \<Longrightarrow> valid b \<Longrightarrow> \<exists>c. cmp a b = Some c \<and> (c < 0 \<longleftrightarrow> rank a < rank b)"
  using cmp_ok by blast

lemma sorted_distinct: "sorted_wrt (\<lambda>a b. rank (key_of sl a) < rank (key_of sl b)) xs \<Longrightarrow> distinct xs"
  by (induction xs) auto

lemma wf_distinct: "sl_wf sl ht xs \<Longrightarrow> distinct (head sl # xs)"
  unfolding sl_wf_def distinct.simps using sorted_distinct by blast

lemma split_sorted:
  "sorted_wrt (\<lambda>a b. rank (key_of sl a) < rank (key_of sl b)) xs \<Longrightarrow>
   a \<in> set (dropWhile (less_than sl key) xs) \<Longrightarrow> \<not> less_than sl key a"
  by (induction xs) (auto split: if_splits)

definition lower :: "'k SkipList \<Rightarrow> 'k \<Rightarrow> nat list \<Rightarrow> nat list" where
  "lower sl key xs = takeWhile (less_than sl key) xs"

definition upper :: "'k SkipList \<Rightarrow> 'k \<Rightarrow> nat list \<Rightarrow> nat list" where
  "upper sl key xs = dropWhile (less_than sl key) xs"

lemma lower_upper: "lower sl key xs @ upper sl key xs = xs"
  by (simp add: lower_def upper_def)

lemma in_lower: "a \<in> set (lower sl key xs) \<Longrightarrow> a \<in> set xs \<and> less_than sl key a"
  unfolding lower_def using set_takeWhileD by metis

lemma in_upper: "sl_wf sl ht xs \<Longrightarrow> a \<in> set (upper sl key xs) \<Longrightarrow> a \<in> set xs \<and> \<not> less_than sl key a"
  using split_sorted [of sl xs a key] by (auto simp: sl_wf_def upper_def dest: set_dropWhileD)

lemma lower_iff: "sl_wf sl ht xs \<Longrightarrow> a \<in> set (lower sl key xs) \<longleftrightarrow> a \<in> set xs \<and> less_than sl key a"
  using in_lower [of a sl key xs] in_upper [of sl ht xs a key] lower_upper [of sl key xs] by (metis Un_iff set_append)

lemma KeyIsAfter_ok:
  "sl_wf sl ht xs \<Longrightarrow> valid key \<Longrightarrow> set ys \<subseteq> set xs \<Longrightarrow>
   KeyIsAfterNode cmp sl key (first_of ys) = Some (ys \<noteq> [] \<and> less_than sl key (hd ys))"
proof (cases ys)
  case (Cons y ys')
  assume "sl_wf sl ht xs" "valid key" "set ys \<subseteq> set xs"
  then obtain k where "node_key sl y = Some k" "valid k" by (auto simp: sl_wf_def key_at_def Cons)
  then show ?thesis using cmp_less [of k key] \<open>valid key\<close> by (auto simp: KeyIsAfterNode_def Cons)
qed (simp add: KeyIsAfterNode_def)

section \<open>Searching\<close>

text \<open>Where a search may be: at the head, or at a node that is linked in at the level and before the key.\<close>

definition reader_ok :: "'k SkipList \<Rightarrow> (nat \<Rightarrow> nat) \<Rightarrow> nat list \<Rightarrow> 'k \<Rightarrow> nat \<Rightarrow> nat \<Rightarrow> bool" where
  "reader_ok sl ht xs key x level \<longleftrightarrow>
     level < kMaxHeight \<and> (x = head sl \<or> x \<in> set xs \<and> level < ht x \<and> less_than sl key x)"

lemma reader_split:
  assumes "sl_wf sl ht xs" "reader_ok sl ht xs key x level"
  shows "\<exists>us vs. head sl # filter (\<lambda>a. level < ht a) (lower sl key xs) = us @ x # vs"
  using assms lower_iff [OF assms(1), of x key] by (intro split_list) (auto simp: reader_ok_def)

lemma level_split:
  "filter P xs = filter P (lower sl key xs) @ filter P (upper sl key xs)"
  by (metis filter_append lower_upper)

lemma reader_next:
  assumes wf: "sl_wf sl ht xs" and r: "reader_ok sl ht xs key x level"
    and split: "head sl # filter (\<lambda>a. level < ht a) (lower sl key xs) = us @ x # vs"
  shows "Node_Next sl x level = Some (first_of (vs @ filter (\<lambda>a. level < ht a) (upper sl key xs)))"
proof -
  have "chain sl level (head sl) (filter (\<lambda>a. level < ht a) xs)" using wf r by (auto simp: sl_wf_def reader_ok_def)
  moreover have "head sl # filter (\<lambda>a. level < ht a) xs = us @ x # (vs @ filter (\<lambda>a. level < ht a) (upper sl key xs))"
    using split level_split [of "\<lambda>a. level < ht a" xs sl key] by (metis append.assoc append_Cons)
  ultimately show ?thesis by (rule chain_at)
qed

lemma upper_stops:
  assumes "sl_wf sl ht xs" "ys = filter P (upper sl key xs)"
  shows "\<not> (ys \<noteq> [] \<and> less_than sl key (hd ys)) \<and> set ys \<subseteq> set xs"
proof -
  have "a \<in> set xs \<and> \<not> less_than sl key a" if "a \<in> set ys" for a
    using that assms(2) in_upper [OF assms(1), of a key] by simp
  then show ?thesis using hd_in_set by blast
qed

lemma path_nodes:
  assumes "sl_wf sl ht xs" "head sl # filter P (lower sl key xs) = us @ x # v # vs"
  shows "set (v # vs @ filter P (upper sl key xs)) \<subseteq> set xs" "less_than sl key v" "P v"
proof -
  have "set (v # vs) \<subseteq> set (filter P (lower sl key xs))" using assms(2) by (cases us) auto
  then show "set (v # vs @ filter P (upper sl key xs)) \<subseteq> set xs" "less_than sl key v" "P v"
    using in_lower [of _ sl key xs] in_upper [OF assms(1), of _ key] by fastforce+
qed

lemma ge_move:
  assumes wf: "sl_wf sl ht xs" and key: "valid key" and r: "reader_ok sl ht xs key x level"
    and split: "head sl # filter (\<lambda>a. level < ht a) (lower sl key xs) = us @ x # v # vs"
  shows "ge_step cmp sl key (x, level, prev) = Some (Inl (v, level, prev))" "reader_ok sl ht xs key v level"
proof -
  note v = path_nodes [OF wf split]
  have "Node_Next sl x level = Some (Some v)" using reader_next [OF wf r split] by simp
  moreover have "KeyIsAfterNode cmp sl key (Some v) = Some True"
    using KeyIsAfter_ok [OF wf key v(1)] v(2) by simp
  ultimately show "ge_step cmp sl key (x, level, prev) = Some (Inl (v, level, prev))" by (simp add: ge_step_def)
  show "reader_ok sl ht xs key v level" using v r by (simp add: reader_ok_def)
qed

lemma ge_stop:
  assumes wf: "sl_wf sl ht xs" and key: "valid key" and r: "reader_ok sl ht xs key x level"
    and split: "head sl # filter (\<lambda>a. level < ht a) (lower sl key xs) = us @ [x]"
    and prev: "\<And>p. prev = Some p \<Longrightarrow> length p = kMaxHeight"
  shows "ge_step cmp sl key (x, level, prev) =
      Some (if level = 0 then Inr (first_of (upper sl key xs), map_option (\<lambda>p. p[level := x]) prev)
            else Inl (x, level - 1, map_option (\<lambda>p. p[level := x]) prev))"
    "level \<noteq> 0 \<Longrightarrow> reader_ok sl ht xs key x (level - 1)"
proof -
  let ?ys = "filter (\<lambda>a. level < ht a) (upper sl key xs)"
  have n: "Node_Next sl x level = Some (first_of ?ys)" using reader_next [OF wf r, of us "[]"] split by simp
  have a: "KeyIsAfterNode cmp sl key (first_of ?ys) = Some False"
    using KeyIsAfter_ok [OF wf key, of ?ys] upper_stops [OF wf refl, of "\<lambda>a. level < ht a" key] by simp
  have "\<forall>a\<in>set (upper sl key xs). 0 < ht a" using wf in_upper [OF wf, of _ key] by (auto simp: sl_wf_def)
  then have "level = 0 \<Longrightarrow> ?ys = upper sl key xs" by (simp add: filter_id_conv)
  then show "ge_step cmp sl key (x, level, prev) =
      Some (if level = 0 then Inr (first_of (upper sl key xs), map_option (\<lambda>p. p[level := x]) prev)
            else Inl (x, level - 1, map_option (\<lambda>p. p[level := x]) prev))"
    using n a r prev by (cases prev) (simp_all add: ge_step_def reader_ok_def)
  show "reader_ok sl ht xs key x (level - 1)" if "level \<noteq> 0" using r that by (auto simp: reader_ok_def)
qed

text \<open>A search ends at the first node that is not before the key and knows its predecessors.\<close>

definition before_at :: "'k SkipList \<Rightarrow> (nat \<Rightarrow> nat) \<Rightarrow> nat list \<Rightarrow> 'k \<Rightarrow> nat \<Rightarrow> nat" where
  "before_at sl ht xs key l = last (head sl # filter (\<lambda>a. l < ht a) (lower sl key xs))"

definition found_prev :: "'k SkipList \<Rightarrow> (nat \<Rightarrow> nat) \<Rightarrow> nat list \<Rightarrow> 'k \<Rightarrow> nat \<Rightarrow> nat list option \<Rightarrow> nat list option \<Rightarrow> bool" where
  "found_prev sl ht xs key level prev prev' \<longleftrightarrow>
     (case prev of None \<Rightarrow> prev' = None
      | Some p \<Rightarrow> \<exists>p'. prev' = Some p' \<and> length p' = length p \<and> (\<forall>l\<le>level. p' ! l = before_at sl ht xs key l) \<and>
          (\<forall>l>level. p' ! l = p ! l))"

lemma found_prev_step:
  "found_prev sl ht xs key l (map_option (\<lambda>p. p[Suc l := before_at sl ht xs key (Suc l)]) prev) prev' \<Longrightarrow>
   (\<And>p. prev = Some p \<Longrightarrow> Suc l < length p) \<Longrightarrow> found_prev sl ht xs key (Suc l) prev prev'"
  by (cases prev) (auto simp: found_prev_def le_Suc_eq)

lemma ge_loop_ok:
  assumes wf: "sl_wf sl ht xs" and key: "valid key"
  shows "reader_ok sl ht xs key x level \<Longrightarrow> (\<And>p. prev = Some p \<Longrightarrow> length p = kMaxHeight) \<Longrightarrow>
    \<exists>prev'. ge_loop cmp sl key (x, level, prev) = Some (first_of (upper sl key xs), prev') \<and> found_prev sl ht xs key level prev prev'"
proof (induction level arbitrary: x prev)
  case 0
  obtain us vs where "head sl # filter (\<lambda>a. 0 < ht a) (lower sl key xs) = us @ x # vs" using reader_split [OF wf 0(1)] by blast
  then show ?case using 0
  proof (induction vs arbitrary: us x)
    case Nil
    then have "x = before_at sl ht xs key 0" by (simp add: before_at_def)
    then show ?case using ge_stop(1) [OF wf key Nil(2,1), of prev] Nil(3)
      by (subst ge_loop.simps) (cases prev; auto simp: found_prev_def kMaxHeight_def)
  next
    case (Cons v vs)
    note m = ge_move [OF wf key Cons.prems(2,1)]
    show ?case using Cons.IH [of "us @ [x]" v] Cons.prems m(2)
      by (subst ge_loop.simps) (simp add: m(1))
  qed
next
  case (Suc l)
  obtain us vs where "head sl # filter (\<lambda>a. Suc l < ht a) (lower sl key xs) = us @ x # vs" using reader_split [OF wf Suc(2)] by blast
  then show ?case using Suc.prems
  proof (induction vs arbitrary: us x)
    case Nil
    have x: "x = before_at sl ht xs key (Suc l)" using Nil(1) by (simp add: before_at_def)
    have l: "Suc l < kMaxHeight" using Nil(2) by (simp add: reader_ok_def)
    have st: "ge_step cmp sl key (x, Suc l, prev) = Some (Inl (x, l, map_option (\<lambda>p. p[Suc l := x]) prev))" "reader_ok sl ht xs key x l"
      using ge_stop [where prev = prev, OF wf key Nil(2,1)] Nil(3) by simp_all
    have "length p = kMaxHeight" if "map_option (\<lambda>p. p[Suc l := x]) prev = Some p" for p using that Nil(3) by auto
    then obtain prev' where "ge_loop cmp sl key (x, l, map_option (\<lambda>p. p[Suc l := x]) prev) = Some (first_of (upper sl key xs), prev')"
      "found_prev sl ht xs key l (map_option (\<lambda>p. p[Suc l := x]) prev) prev'"
      using Suc.IH [OF st(2), of "map_option (\<lambda>p. p[Suc l := x]) prev"] by blast
    then show ?case using found_prev_step [of sl ht xs key l prev prev'] st(1) Nil(3) l x
      by (subst ge_loop.simps) auto
  next
    case (Cons v vs)
    note m = ge_move [OF wf key Cons.prems(2,1)]
    show ?case using Cons.IH [of "us @ [x]" v] Cons.prems m(2)
      by (subst ge_loop.simps) (simp add: m(1))
  qed
qed

lemma FindGreaterOrEqual_ok:
  assumes wf: "sl_wf sl ht xs" and key: "valid key" and prev: "\<And>p. prev = Some p \<Longrightarrow> length p = kMaxHeight"
  shows "\<exists>prev'. FindGreaterOrEqual cmp sl key prev = Some (first_of (upper sl key xs), prev') \<and>
    found_prev sl ht xs key (max_height sl - 1) prev prev'"
proof -
  have "reader_ok sl ht xs key (head sl) (max_height sl - 1)" using wf by (auto simp: sl_wf_def reader_ok_def)
  then show ?thesis unfolding FindGreaterOrEqual_def using ge_loop_ok [OF wf key] prev by blast
qed

lemma wf_key: "sl_wf sl ht xs \<Longrightarrow> a \<in> set xs \<Longrightarrow> \<exists>k. node_key sl a = Some k \<and> valid k"
  by (simp add: sl_wf_def key_at_def)

lemma before_ok:
  assumes "sl_wf sl ht xs" "valid key" "reader_ok sl ht xs key x level"
  shows "(if x = head sl then Some True else do { k \<leftarrow> node_key sl x; c \<leftarrow> cmp k key; Some (c < 0) }) = Some True"
proof (cases "x = head sl")
  case False
  then have x: "x \<in> set xs" "less_than sl key x" using assms(3) by (auto simp: reader_ok_def)
  then show ?thesis using wf_key [OF assms(1) x(1)] cmp_less [of "key_of sl x" key] assms(2) by auto
qed simp

lemma stop_iff:
  assumes "sl_wf sl ht xs" "valid key" "set ys \<subseteq> set xs"
  shows "(case first_of ys of None \<Rightarrow> Some True | Some y \<Rightarrow> do { k \<leftarrow> node_key sl y; c \<leftarrow> cmp k key; Some (c \<ge> 0) }) =
    Some (\<not> (ys \<noteq> [] \<and> less_than sl key (hd ys)))"
proof (cases ys)
  case (Cons y ys')
  then obtain k where "node_key sl y = Some k" "valid k" using assms(1,3) by (auto simp: sl_wf_def key_at_def)
  then show ?thesis using cmp_less [of k key] assms(2) by (auto simp: Cons)
qed simp

lemma less_loop_ok:
  assumes wf: "sl_wf sl ht xs" and key: "valid key"
  shows "reader_ok sl ht xs key x level \<Longrightarrow> less_loop cmp sl key x level = Some (before_at sl ht xs key 0)"
proof (induction level arbitrary: x)
  case (0 x)
  obtain us vs where "head sl # filter (\<lambda>a. 0 < ht a) (lower sl key xs) = us @ x # vs" using reader_split [OF wf 0] by blast
  then show ?case using 0
  proof (induction vs arbitrary: us x)
    case Nil
    show ?case using reader_next [OF wf Nil(2,1)] before_ok [OF wf key Nil(2)] Nil(1)
        stop_iff [OF wf key] upper_stops [OF wf refl, of "\<lambda>a. 0 < ht a" key]
      by (subst less_loop.simps) (simp add: before_at_def)
  next
    case (Cons v vs)
    note m = ge_move [OF wf key Cons.prems(2,1)]
    have "set (v # vs @ filter (\<lambda>a. 0 < ht a) (upper sl key xs)) \<subseteq> set xs" "less_than sl key v"
      using path_nodes [OF wf Cons.prems(1)] by auto
    then show ?case
      using reader_next [OF wf Cons.prems(2,1)] before_ok [OF wf key Cons.prems(2)] Cons.IH [of "us @ [x]" v] Cons.prems m(2)
        stop_iff [OF wf key, of "v # vs @ filter (\<lambda>a. 0 < ht a) (upper sl key xs)"]
      by (subst less_loop.simps) simp
  qed
next
  case (Suc l)
  obtain us vs where "head sl # filter (\<lambda>a. Suc l < ht a) (lower sl key xs) = us @ x # vs" using reader_split [OF wf Suc(2)] by blast
  then show ?case using Suc.prems
  proof (induction vs arbitrary: us x)
    case Nil
    have "reader_ok sl ht xs key x l" using Nil(2) by (auto simp: reader_ok_def)
    then show ?case using reader_next [OF wf Nil(2,1)] before_ok [OF wf key Nil(2)] Suc.IH
        stop_iff [OF wf key] upper_stops [OF wf refl, of "\<lambda>a. Suc l < ht a" key]
      by (subst less_loop.simps) simp
  next
    case (Cons v vs)
    note m = ge_move [OF wf key Cons.prems(2,1)]
    have "set (v # vs @ filter (\<lambda>a. Suc l < ht a) (upper sl key xs)) \<subseteq> set xs" "less_than sl key v"
      using path_nodes [OF wf Cons.prems(1)] by auto
    then show ?case
      using reader_next [OF wf Cons.prems(2,1)] before_ok [OF wf key Cons.prems(2)] Cons.IH [of "us @ [x]" v] Cons.prems m(2)
        stop_iff [OF wf key, of "v # vs @ filter (\<lambda>a. Suc l < ht a) (upper sl key xs)"]
      by (subst less_loop.simps) simp
  qed
qed

lemma FindLessThan_ok:
  assumes wf: "sl_wf sl ht xs" and key: "valid key"
  shows "FindLessThan cmp sl key = Some (last (head sl # lower sl key xs))"
proof -
  have "reader_ok sl ht xs key (head sl) (max_height sl - 1)" using wf by (auto simp: sl_wf_def reader_ok_def)
  moreover have "filter (\<lambda>a. 0 < ht a) (lower sl key xs) = lower sl key xs"
    using wf in_lower [of _ sl key xs] by (auto simp: filter_id_conv sl_wf_def)
  ultimately show ?thesis using less_loop_ok [OF wf key] by (simp add: FindLessThan_def before_at_def)
qed

lemma wf_chain: "sl_wf sl ht xs \<Longrightarrow> i < kMaxHeight \<Longrightarrow> chain sl i (head sl) (filter (\<lambda>a. i < ht a) xs)"
  by (simp add: sl_wf_def)

lemma wf_level0: "sl_wf sl ht xs \<Longrightarrow> filter (\<lambda>a. 0 < ht a) xs = xs"
  by (simp add: filter_id_conv sl_wf_def)

lemma last_loop_ok:
  assumes wf: "sl_wf sl ht xs"
  shows "level < kMaxHeight \<Longrightarrow> head sl # filter (\<lambda>a. level < ht a) xs = us @ x # vs \<Longrightarrow> last_loop sl x level = Some (last (head sl # xs))"
proof (induction level arbitrary: x us vs)
  case (0 x us vs)
  then have "head sl # xs = us @ x # vs" "chain sl 0 (head sl) xs" using wf_chain [OF wf, of 0] wf_level0 [OF wf] by simp_all
  then show ?case
  proof (induction vs arbitrary: us x)
    case Nil
    then show ?case using chain_at [OF Nil(2,1)] by (subst last_loop.simps) simp
  next
    case (Cons v vs)
    then show ?case using chain_at [OF Cons.prems(2,1)] Cons.IH [of "us @ [x]" v] by (subst last_loop.simps) simp
  qed
next
  case (Suc l)
  have "chain sl (Suc l) (head sl) (filter (\<lambda>a. Suc l < ht a) xs)" using wf_chain [OF wf] Suc.prems(1) by simp
  then show ?case using Suc.prems
  proof (induction vs arbitrary: us x)
    case Nil
    have "x \<in> set (head sl # filter (\<lambda>a. l < ht a) xs)" using arg_cong [OF Nil(3), of set] by auto
    then obtain us' vs' where "head sl # filter (\<lambda>a. l < ht a) xs = us' @ x # vs'" using split_list by metis
    then show ?case using Suc.IH [of us' x vs'] Nil chain_at [OF Nil(1,3)] by (subst last_loop.simps) simp
  next
    case (Cons v vs)
    then show ?case using chain_at [OF Cons.prems(1,3)] Cons.IH [of "us @ [x]" v] by (subst last_loop.simps) simp
  qed
qed

lemma FindLast_ok: "sl_wf sl ht xs \<Longrightarrow> FindLast sl = Some (last (head sl # xs))"
  unfolding FindLast_def by (rule last_loop_ok [of sl ht xs _ "[]"]) (auto simp: sl_wf_def)

section \<open>Inserting\<close>

text \<open>
  While a node is being inserted it is linked in at the levels below some level. What does not change
  meanwhile: the other nodes, the new node and the predecessors.
\<close>

definition inserting :: "'k SkipList \<Rightarrow> (nat \<Rightarrow> nat) \<Rightarrow> nat list \<Rightarrow> nat list \<Rightarrow> 'k \<Rightarrow> nat \<Rightarrow> nat \<Rightarrow> nat list \<Rightarrow> bool" where
  "inserting sl ht B A key x h prev \<longleftrightarrow>
     (\<forall>a\<in>set (B @ A). 0 < ht a \<and> ht a \<le> max_height sl \<and> key_at sl a) \<and>
     sorted_wrt (\<lambda>a b. rank (key_of sl a) < rank (key_of sl b)) (B @ A) \<and>
     (\<forall>a\<in>set B. rank (key_of sl a) < rank key) \<and> (\<forall>a\<in>set A. rank key < rank (key_of sl a)) \<and>
     head sl \<notin> set (B @ A) \<and> x \<notin> set (head sl # B @ A) \<and> (\<forall>a\<in>set (head sl # B @ A). a < arena sl) \<and>
     node_key sl x = Some key \<and> valid key \<and> x < arena sl \<and> map_option (length \<circ> nnext) (nodes sl x) = Some h \<and>
     0 < h \<and> h \<le> max_height sl \<and> max_height sl \<le> kMaxHeight \<and>
     length prev = kMaxHeight \<and> (\<forall>l<h. prev ! l = last (head sl # filter (\<lambda>a. l < ht a) B))"

definition linked :: "'k SkipList \<Rightarrow> (nat \<Rightarrow> nat) \<Rightarrow> nat list \<Rightarrow> nat list \<Rightarrow> nat \<Rightarrow> nat \<Rightarrow> bool" where
  "linked sl ht B A x i \<longleftrightarrow>
     (\<forall>l<kMaxHeight. chain sl l (head sl) (filter (\<lambda>a. l < ht a) B @ (if l < i then [x] else []) @ filter (\<lambda>a. l < ht a) A))"

lemma linked_wf:
  assumes ins: "inserting sl ht B A key x h prev" and l: "linked sl ht B A x i" and "i \<le> h"
  shows "if i = 0 then sl_wf sl ht (B @ A) else sl_wf sl (ht(x := i)) (B @ x # A)"
proof (cases "i = 0")
  case True
  then show ?thesis using ins l by (auto simp: sl_wf_def inserting_def linked_def)
next
  case False
  have x: "x \<notin> set B" "x \<notin> set A" "key_at sl x" "key_of sl x = key" "i \<le> max_height sl" "0 < max_height sl"
    using ins \<open>i \<le> h\<close> by (auto simp: inserting_def key_at_def)
  have f: "filter (\<lambda>a. l < (ht(x := i)) a) B = filter (\<lambda>a. l < ht a) B" "filter (\<lambda>a. l < (ht(x := i)) a) A = filter (\<lambda>a. l < ht a) A" for l
    using x(1,2) by (auto intro!: filter_cong)
  have "chain sl l (head sl) (filter (\<lambda>a. l < (ht(x := i)) a) (B @ x # A))" if "l < kMaxHeight" for l
    using l that f [of l] by (auto simp: linked_def)
  moreover have "sorted_wrt (\<lambda>a b. rank (key_of sl a) < rank (key_of sl b)) (B @ x # A)"
    using ins x(4) by (auto simp: inserting_def sorted_wrt_append)
  moreover have "\<forall>a\<in>set (B @ x # A). 0 < (ht(x := i)) a \<and> (ht(x := i)) a \<le> max_height sl \<and> key_at sl a"
    using ins x False by (auto simp: inserting_def)
  ultimately show ?thesis using ins x(6) False by (auto simp: sl_wf_def inserting_def)
qed

lemma inserting_frame:
  assumes "inserting sl ht B A key x h prev" "\<forall>a. node_key sl' a = node_key sl a"
    "\<forall>a. map_option (length \<circ> nnext) (nodes sl' a) = map_option (length \<circ> nnext) (nodes sl a)"
    "head sl' = head sl" "max_height sl' = max_height sl" "arena sl' = arena sl"
  shows "inserting sl' ht B A key x h prev"
  using assms unfolding inserting_def key_at_def by simp

lemma linked_distinct:
  assumes "inserting sl ht B A key x h prev"
  shows "distinct (head sl # filter P B @ filter P A)" "x \<notin> set (head sl # filter P B @ filter P A)"
proof -
  have "distinct (B @ A)" using assms sorted_distinct [of sl "B @ A"] by (simp add: inserting_def)
  then show "distinct (head sl # filter P B @ filter P A)" "x \<notin> set (head sl # filter P B @ filter P A)"
    using assms by (auto simp: inserting_def)
qed

text \<open>The first store at a level fills the link of the new node, which no search can reach there yet.\<close>

lemma store_new:
  assumes ins: "inserting sl ht B A key x h prev" and l: "linked sl ht B A x i" and i: "i < h"
  shows "\<exists>sl1. SetNext x i y sl = Some sl1 \<and> inserting sl1 ht B A key x h prev \<and> linked sl1 ht B A x i \<and> node_key sl1 = node_key sl \<and>
    (\<forall>a l. Node_Next sl1 a l = (if a = x \<and> l = i then Some y else Node_Next sl a l))"
proof -
  obtain nd where nd: "nodes sl x = Some nd" "length (nnext nd) = h" using ins by (auto simp: inserting_def)
  obtain sl1 where sl1: "SetNext x i y sl = Some sl1"
    and n1: "\<And>a l. Node_Next sl1 a l = (if a = x \<and> l = i then Some y else Node_Next sl a l)"
    and f1: "\<forall>a. node_key sl1 a = node_key sl a" "\<forall>a. map_option (length \<circ> nnext) (nodes sl1 a) = map_option (length \<circ> nnext) (nodes sl a)"
      "head sl1 = head sl" "max_height sl1 = max_height sl" "arena sl1 = arena sl"
    using SetNext_ok [OF nd(1), of i y] nd(2) i by auto
  have "linked sl1 ht B A x i"
    unfolding linked_def f1(3)
  proof (intro allI impI)
    fix m
    assume m: "m < kMaxHeight"
    show "chain sl1 m (head sl) (filter (\<lambda>a. m < ht a) B @ (if m < i then [x] else []) @ filter (\<lambda>a. m < ht a) A)"
    proof (rule chain_frame [OF l [unfolded linked_def, rule_format, OF m]])
      fix a
      assume a: "a \<in> set (head sl # filter (\<lambda>a. m < ht a) B @ (if m < i then [x] else []) @ filter (\<lambda>a. m < ht a) A)"
      have "a \<noteq> x" if "m = i"
        using a linked_distinct(2) [OF ins, of "\<lambda>a. i < ht a"] unfolding that by (cases "a = x") simp_all
      then show "Node_Next sl1 a m = Node_Next sl a m" unfolding n1 by (cases "m = i") simp_all
    qed
  qed
  then show ?thesis using sl1 n1 f1(1) inserting_frame [OF ins f1] by blast
qed

lemma pred_split:
  assumes "p = last (h # P)"
  shows "h # P @ Q = butlast (h # P) @ p # Q"
proof -
  have "h # P = butlast (h # P) @ [p]" unfolding assms by (rule append_butlast_last_id [symmetric]) simp
  then show ?thesis by (metis append.assoc append_Cons append_Nil)
qed

lemma pred_next:
  assumes ins: "inserting sl ht B A key x h prev" and l: "linked sl ht B A x i" and i: "i < h"
  shows "i < kMaxHeight" "i < length prev" "prev ! i = last (head sl # filter (\<lambda>a. i < ht a) B)" "prev ! i \<noteq> x"
    "Node_Next sl (prev ! i) i = Some (first_of (filter (\<lambda>a. i < ht a) A))"
    "chain sl i (head sl) (filter (\<lambda>a. i < ht a) B @ filter (\<lambda>a. i < ht a) A)"
proof -
  let ?P = "filter (\<lambda>a. i < ht a) B" and ?Q = "filter (\<lambda>a. i < ht a) A"
  show i12: "i < kMaxHeight" and "i < length prev" and p: "prev ! i = last (head sl # ?P)" using ins i by (auto simp: inserting_def)
  show ch: "chain sl i (head sl) (?P @ ?Q)" using l [unfolded linked_def, rule_format, OF i12] by simp
  show "Node_Next sl (prev ! i) i = Some (first_of ?Q)" by (rule chain_at [OF ch pred_split [OF p]])
  show "prev ! i \<noteq> x" using linked_distinct(2) [OF ins, of "\<lambda>a. i < ht a"] arg_cong [OF pred_split [OF p, of ?Q], of set] by auto
qed

text \<open>The second store makes the node visible at the level.\<close>

lemma store_prev:
  assumes ins: "inserting sl ht B A key x h prev" and l: "linked sl ht B A x i" and i: "i < h"
    and x: "Node_Next sl x i = Some (first_of (filter (\<lambda>a. i < ht a) A))"
  shows "\<exists>sl2. SetNext (prev ! i) i (Some x) sl = Some sl2 \<and> inserting sl2 ht B A key x h prev \<and> linked sl2 ht B A x (Suc i) \<and>
    node_key sl2 = node_key sl"
proof -
  note p = pred_next [OF ins l i]
  obtain np where np: "nodes sl (prev ! i) = Some np" "i < length (nnext np)" using p(5) unfolding Node_Next_def2 by blast
  obtain sl2 where sl2: "SetNext (prev ! i) i (Some x) sl = Some sl2"
    and n2: "\<And>a l. Node_Next sl2 a l = (if a = prev ! i \<and> l = i then Some (Some x) else Node_Next sl a l)"
    and f2: "\<forall>a. node_key sl2 a = node_key sl a" "\<forall>a. map_option (length \<circ> nnext) (nodes sl2 a) = map_option (length \<circ> nnext) (nodes sl a)"
      "head sl2 = head sl" "max_height sl2 = max_height sl" "arena sl2 = arena sl"
    using SetNext_ok [OF np, of "Some x"] by auto
  have "linked sl2 ht B A x (Suc i)"
    unfolding linked_def f2(3)
  proof (intro allI impI)
    fix m
    assume m: "m < kMaxHeight"
    show "chain sl2 m (head sl) (filter (\<lambda>a. m < ht a) B @ (if m < Suc i then [x] else []) @ filter (\<lambda>a. m < ht a) A)"
    proof (cases "m = i")
      case False
      then have mi: "(m < Suc i) = (m < i)" by linarith
      have "Node_Next sl2 a m = Node_Next sl a m" for a unfolding n2 using False by simp
      then show ?thesis unfolding mi by (intro chain_frame [OF l [unfolded linked_def, rule_format, OF m]])
    next
      case True
      have "chain sl2 i (head sl) (filter (\<lambda>a. i < ht a) B @ x # filter (\<lambda>a. i < ht a) A)"
        by (rule chain_insert [OF p(6) linked_distinct [OF ins] p(3)]) (use x n2 p(4) in simp_all)
      then show ?thesis using True by simp
    qed
  qed
  then show ?thesis using sl2 f2(1) inserting_frame [OF ins f2] by blast
qed

lemma link_loop_ok:
  "inserting sl ht B A key x h prev \<Longrightarrow> linked sl ht B A x i \<Longrightarrow> i + n = h \<Longrightarrow>
   \<exists>sl'. link_loop x prev [i..<h] sl = Some sl' \<and> inserting sl' ht B A key x h prev \<and> linked sl' ht B A x h \<and> node_key sl' = node_key sl"
proof (induction n arbitrary: i sl)
  case 0
  then show ?case by simp
next
  case (Suc n)
  then have i: "i < h" by simp
  note p = pred_next [OF Suc.prems(1,2) i]
  obtain sl1 where sl1: "SetNext x i (first_of (filter (\<lambda>a. i < ht a) A)) sl = Some sl1"
    "inserting sl1 ht B A key x h prev" "linked sl1 ht B A x i" "Node_Next sl1 x i = Some (first_of (filter (\<lambda>a. i < ht a) A))"
    "node_key sl1 = node_key sl"
    using store_new [OF Suc.prems(1,2) i] by metis
  obtain sl2 where sl2: "SetNext (prev ! i) i (Some x) sl1 = Some sl2" "inserting sl2 ht B A key x h prev" "linked sl2 ht B A x (Suc i)"
    "node_key sl2 = node_key sl1"
    using store_prev [OF sl1(2,3) i sl1(4)] by blast
  then show ?case using Suc.IH [OF sl2(2,3)] Suc.prems(3) p sl1(1,5) sl2(1) by (simp add: upt_conv_Cons [OF i])
qed

lemma new_SkipList_wf: "\<exists>sl. new_SkipList junk any_key = Some sl \<and> sl_wf sl ht []"
proof -
  define sl0 where "sl0 = \<lparr>nodes = [0 \<mapsto> \<lparr>nkey = any_key, nnext = map junk [0..<kMaxHeight]\<rparr>], head = 0, max_height = 1,
    rnd = Random_new 0xdeadbeef, arena = 1\<rparr>"
  obtain sl where "clear_links 0 [0..<kMaxHeight] sl0 = Some sl"
    "\<forall>a l. Node_Next sl a l = (if a = 0 \<and> l \<in> set [0..<kMaxHeight] then Some None else Node_Next sl0 a l)"
    "head sl = 0" "max_height sl = 1" "arena sl = 1"
    using clear_links_ok [of sl0 0 "\<lparr>nkey = any_key, nnext = map junk [0..<kMaxHeight]\<rparr>" "[0..<kMaxHeight]"]
    by (auto simp: sl0_def)
  moreover have "new_SkipList junk any_key = clear_links 0 [0..<kMaxHeight] sl0"
    by (simp add: new_SkipList_def NewNode_def sl0_def)
  ultimately show ?thesis by (auto simp: sl_wf_def kMaxHeight_def)
qed

lemma prev_raised:
  assumes wf: "sl_wf sl ht xs" and h: "h \<le> kMaxHeight" and p: "length p = kMaxHeight"
    "\<forall>l\<le>max_height sl - 1. p ! l = before_at sl ht xs key l"
  shows "\<exists>p'. (if h > max_height sl then raise_prev (head sl) [max_height sl..<h] p else Some p) = Some p' \<and> length p' = kMaxHeight \<and>
    (\<forall>l<h. p' ! l = before_at sl ht xs key l)"
proof (cases "h > max_height sl")
  case True
  have top: "before_at sl ht xs key l = head sl" if "max_height sl \<le> l" for l
  proof -
    have "filter (\<lambda>a. l < ht a) (lower sl key xs) = []"
      using wf that in_lower [of _ sl key xs] by (fastforce simp: filter_empty_conv sl_wf_def)
    then show ?thesis by (simp add: before_at_def)
  qed
  obtain p' where p': "raise_prev (head sl) [max_height sl..<h] p = Some p'" "length p' = kMaxHeight"
    "\<forall>l<kMaxHeight. p' ! l = (if l \<in> set [max_height sl..<h] then head sl else p ! l)"
    using raise_prev_ok [of "[max_height sl..<h]" p "head sl"] p(1) h by auto
  have "p' ! l = before_at sl ht xs key l" if "l < h" for l
    using p'(3) [rule_format, of l] that h p(2) [rule_format, of l] top [of l] by (cases "l < max_height sl") auto
  then show ?thesis using True p'(1,2) by simp
next
  case False
  then show ?thesis using p by auto
qed

lemma insert_static:
  assumes wf: "sl_wf sl ht xs" and key: "valid key" and new: "\<forall>a\<in>set xs. rank (key_of sl a) \<noteq> rank key"
    and same: "\<forall>a\<in>set (head sl # xs). node_key sl1 a = node_key sl a" "head sl1 = head sl" "arena sl1 = arena sl + 1"
    and node: "node_key sl1 (arena sl) = Some key" "map_option (length \<circ> nnext) (nodes sl1 (arena sl)) = Some h"
    and h: "max_height sl \<le> max_height sl1" "max_height sl1 \<le> kMaxHeight" "0 < h" "h \<le> max_height sl1"
    and p: "length p = kMaxHeight" "\<forall>l<h. p ! l = last (head sl # filter (\<lambda>a. l < ht a) (lower sl key xs))"
  shows "inserting sl1 ht (lower sl key xs) (upper sl key xs) key (arena sl) h p"
proof -
  note xs = lower_upper [of sl key xs]
  have b: "a \<in> set xs" "rank (key_of sl1 a) < rank key" if "a \<in> set (lower sl key xs)" for a
    using in_lower [OF that] same(1) by simp_all
  have u: "a \<in> set xs" "rank key < rank (key_of sl1 a)" if "a \<in> set (upper sl key xs)" for a
    using in_upper [OF wf that] same(1) new by (auto simp: not_less order_less_le)
  have "sorted_wrt (\<lambda>a b. rank (key_of sl1 a) < rank (key_of sl1 b)) xs"
    by (rule sorted_wrt_mono_rel [of _ "\<lambda>a b. rank (key_of sl a) < rank (key_of sl b)"]) (use wf same(1) in \<open>auto simp: sl_wf_def\<close>)
  moreover have "\<forall>a\<in>set xs. 0 < ht a \<and> ht a \<le> max_height sl1 \<and> key_at sl1 a"
    using wf same(1) h(1) by (auto simp: sl_wf_def key_at_def)
  moreover have "head sl \<notin> set xs" "arena sl \<notin> set (head sl # xs)" "\<forall>a\<in>set (head sl # xs). a < arena sl + 1"
    using wf by (auto simp: sl_wf_def less_SucI)
  ultimately show ?thesis unfolding inserting_def xs same(2,3) using b u key node h p by auto
qed

lemma insert_prepare_ok:
  assumes wf: "sl_wf sl ht xs" and key: "valid key" and new: "\<forall>a\<in>set xs. rank (key_of sl a) \<noteq> rank key" and prev0: "length prev0 = kMaxHeight"
  shows "\<exists>h prev sl1. insert_prepare cmp junk prev0 key sl = Some (arena sl, h, prev, sl1) \<and>
    inserting sl1 ht (lower sl key xs) (upper sl key xs) key (arena sl) h prev \<and> linked sl1 ht (lower sl key xs) (upper sl key xs) (arena sl) 0 \<and>
    node_key sl1 = (node_key sl)(arena sl \<mapsto> key)"
proof -
  let ?B = "lower sl key xs" and ?A = "upper sl key xs"
  obtain p where p: "FindGreaterOrEqual cmp sl key (Some prev0) = Some (first_of ?A, Some p)" "length p = kMaxHeight"
    "\<forall>l\<le>max_height sl - 1. p ! l = before_at sl ht xs key l"
    using FindGreaterOrEqual_ok [OF wf key, of "Some prev0"] prev0 by (auto simp: found_prev_def)
  have fresh: "(case first_of ?A of None \<Rightarrow> Some True | Some y \<Rightarrow> do { k \<leftarrow> node_key sl y; c \<leftarrow> cmp key k; Some (c \<noteq> 0) }) = Some True"
  proof (cases ?A)
    case (Cons y ys)
    then have y: "y \<in> set xs" using in_upper [OF wf, of y key] by simp
    then obtain k where k: "node_key sl y = Some k" "valid k" using wf_key [OF wf] by blast
    then show ?thesis using new [rule_format, OF y] cmp_ok [OF key k(2)] by (auto simp: Cons)
  qed simp
  obtain h seed where h: "RandomHeight sl = Some (h, sl\<lparr>rnd := seed\<rparr>)" "0 < h" "h \<le> kMaxHeight" using RandomHeight_ok by blast
  obtain p' where p': "(if h > max_height sl then raise_prev (head sl) [max_height sl..<h] p else Some p) = Some p'" "length p' = kMaxHeight"
    "\<forall>l<h. p' ! l = before_at sl ht xs key l"
    using prev_raised [OF wf h(3) p(2,3)] by blast
  define sl1 where "sl1 = sl\<lparr>rnd := seed, max_height := max h (max_height sl),
    nodes := (nodes sl)(arena sl \<mapsto> \<lparr>nkey = key, nnext = map junk [0..<h]\<rparr>), arena := arena sl + 1\<rparr>"
  have "insert_prepare cmp junk prev0 key sl = Some (arena sl, h, p', sl1)"
    using p(1) fresh h(1) p'(1) by (cases "h > max_height sl") (simp_all add: insert_prepare_def NewNode_def sl1_def max_def)
  moreover have xs: "?B @ ?A = xs" "arena sl \<notin> set (head sl # xs)" using wf lower_upper by (auto simp: sl_wf_def)
  have nk: "node_key sl1 = (node_key sl)(arena sl \<mapsto> key)" by (auto simp: sl1_def node_key_def)
  have keys: "node_key sl1 a = node_key sl a" "Node_Next sl1 a l = Node_Next sl a l" if "a \<in> set (head sl # xs)" for a l
    using that xs(2) by (auto simp: sl1_def node_key_def Node_Next_def)
  moreover have "linked sl1 ht ?B ?A (arena sl) 0"
    unfolding linked_def
  proof (intro allI impI)
    fix l
    assume "l < kMaxHeight"
    then have "chain sl l (head sl) (filter (\<lambda>a. l < ht a) xs)" by (rule wf_chain [OF wf])
    then have "chain sl1 l (head sl) (filter (\<lambda>a. l < ht a) xs)" by (rule chain_frame) (auto intro!: keys)
    then show "chain sl1 l (head sl1) (filter (\<lambda>a. l < ht a) ?B @ (if l < 0 then [arena sl] else []) @ filter (\<lambda>a. l < ht a) ?A)"
      using level_split [of "\<lambda>a. l < ht a" xs sl key] by (simp add: sl1_def)
  qed
  moreover have "inserting sl1 ht ?B ?A key (arena sl) h p'"
  proof (rule insert_static [OF wf key new])
    show "\<forall>a\<in>set (head sl # xs). node_key sl1 a = node_key sl a" using keys(1) by blast
    show "node_key sl1 (arena sl) = Some key" by (simp add: nk)
    show "max_height sl1 \<le> kMaxHeight" using wf h(3) by (simp add: sl1_def sl_wf_def)
    show "\<forall>l<h. p' ! l = last (head sl # filter (\<lambda>a. l < ht a) ?B)" using p'(3) by (simp add: before_at_def)
  qed (use h(2) p'(2) in \<open>simp_all add: sl1_def\<close>)
  ultimately show ?thesis using nk by blast
qed

section \<open>The list as the sequence of its keys\<close>

definition holds :: "'k SkipList \<Rightarrow> nat list \<Rightarrow> 'k list \<Rightarrow> bool" where
  "holds sl xs ks \<longleftrightarrow> (\<exists>ht. sl_wf sl ht xs) \<and> ks = map (key_of sl) xs"

lemma new_SkipList_ok: "\<exists>sl. new_SkipList junk any_key = Some sl \<and> holds sl [] []"
  using new_SkipList_wf [of junk any_key "\<lambda>_. 0"] by (auto simp: holds_def)

lemma holds_sorted: "holds sl xs ks \<Longrightarrow> sorted_wrt (\<lambda>a b. rank a < rank b) ks"
  by (auto simp: holds_def sl_wf_def sorted_wrt_map)

lemma holds_valid: "holds sl xs ks \<Longrightarrow> k \<in> set ks \<Longrightarrow> valid k"
  by (auto simp: holds_def sl_wf_def key_at_def)

lemma lower_keys:
  "map (key_of sl) (lower sl key xs) = takeWhile (\<lambda>k. rank k < rank key) (map (key_of sl) xs)"
  "map (key_of sl) (upper sl key xs) = dropWhile (\<lambda>k. rank k < rank key) (map (key_of sl) xs)"
  by (simp_all add: lower_def upper_def takeWhile_map dropWhile_map comp_def)

lemma Insert_ok:
  assumes h: "holds sl xs ks" and key: "valid key" and new: "\<forall>k\<in>set ks. rank k \<noteq> rank key" and prev0: "length prev0 = kMaxHeight"
  shows "\<exists>sl'. Insert cmp junk prev0 key sl = Some sl' \<and>
    holds sl' (lower sl key xs @ arena sl # upper sl key xs)
      (takeWhile (\<lambda>k. rank k < rank key) ks @ key # dropWhile (\<lambda>k. rank k < rank key) ks)"
proof -
  obtain ht where wf: "sl_wf sl ht xs" and ks: "ks = map (key_of sl) xs" using h by (auto simp: holds_def)
  let ?B = "lower sl key xs" and ?A = "upper sl key xs"
  obtain hh prev sl1 where sl1: "insert_prepare cmp junk prev0 key sl = Some (arena sl, hh, prev, sl1)"
    "inserting sl1 ht ?B ?A key (arena sl) hh prev" "linked sl1 ht ?B ?A (arena sl) 0" "node_key sl1 = (node_key sl)(arena sl \<mapsto> key)"
    using insert_prepare_ok [OF wf key _ prev0, of junk] new by (auto simp: ks)
  obtain sl' where sl': "link_loop (arena sl) prev [0..<hh] sl1 = Some sl'" "inserting sl' ht ?B ?A key (arena sl) hh prev"
    "linked sl' ht ?B ?A (arena sl) hh" "node_key sl' = node_key sl1"
    using link_loop_ok [OF sl1(2,3)] by auto
  have "0 < hh" using sl1(2) by (simp add: inserting_def)
  then have "sl_wf sl' (ht(arena sl := hh)) (?B @ arena sl # ?A)" using linked_wf [OF sl'(2,3)] by simp
  moreover have "map (key_of sl') ys = map (key_of sl) ys" if "set ys \<subseteq> set xs" for ys
    using that wf by (auto simp: sl'(4) sl1(4) sl_wf_def)
  then have "map (key_of sl') ?B = map (key_of sl) ?B" "map (key_of sl') ?A = map (key_of sl) ?A"
    using lower_upper [of sl key xs] by (metis Un_upper1 Un_upper2 set_append)+
  ultimately show ?thesis using sl1(1) sl'(1) by (auto simp: Insert_def holds_def ks lower_keys sl'(4) sl1(4))
qed

text \<open>The position of an iterator in the list.\<close>

definition pos :: "nat list \<Rightarrow> nat \<Rightarrow> nat option" where
  "pos xs n = (if n < length xs then Some (xs ! n) else None)"

lemma first_of_drop: "first_of (drop n xs) = pos xs n"
  by (cases "n < length xs") (simp_all add: pos_def Cons_nth_drop_Suc [symmetric])

lemma upper_drop: "upper sl key xs = drop (length (lower sl key xs)) xs"
  using lower_upper by (metis append_eq_conv_conj)

lemma Seek_ok:
  assumes "holds sl xs ks" "valid key"
  shows "Iter_Seek cmp sl key = Some (pos xs (length (takeWhile (\<lambda>k. rank k < rank key) ks)))"
proof -
  obtain ht where wf: "sl_wf sl ht xs" and ks: "ks = map (key_of sl) xs" using assms(1) by (auto simp: holds_def)
  have "length (takeWhile (\<lambda>k. rank k < rank key) ks) = length (lower sl key xs)"
    using arg_cong [OF lower_keys(1), of length sl key xs] by (simp add: ks)
  then show ?thesis using FindGreaterOrEqual_ok [OF wf assms(2), of None]
    by (auto simp: Iter_Seek_def upper_drop first_of_drop)
qed

lemma holds_nth:
  assumes "holds sl xs ks"
  shows "length xs = length ks" "n < length ks \<Longrightarrow> node_key sl (xs ! n) = Some (ks ! n)"
proof -
  obtain ht where wf: "sl_wf sl ht xs" and ks: "ks = map (key_of sl) xs" using assms by (auto simp: holds_def)
  show "length xs = length ks" by (simp add: ks)
  show "node_key sl (xs ! n) = Some (ks ! n)" if "n < length ks" using that wf_key [OF wf, of "xs ! n"] by (auto simp: ks)
qed

lemma key_ok: "holds sl xs ks \<Longrightarrow> n < length ks \<Longrightarrow> Iter_key sl (pos xs n) = Some (ks ! n)"
  using holds_nth [of sl xs ks] by (simp add: Iter_key_def pos_def)

lemma Next_ok: "holds sl xs ks \<Longrightarrow> n < length ks \<Longrightarrow> Iter_Next sl (pos xs n) = Some (pos xs (Suc n))"
proof -
  assume "holds sl xs ks" and n: "n < length ks"
  then obtain ht where wf: "sl_wf sl ht xs" and "length xs = length ks" by (auto simp: holds_def)
  then have "head sl # xs = (head sl # take n xs) @ xs ! n # drop (Suc n) xs" using n by (simp add: id_take_nth_drop [symmetric])
  then show ?thesis using chain_at [OF wf_chain [OF wf, of 0], of "head sl # take n xs" "xs ! n"] wf_level0 [OF wf] n \<open>length xs = length ks\<close>
    by (simp add: Iter_Next_def pos_def [of xs n] first_of_drop kMaxHeight_def)
qed

lemma SeekToFirst_ok: "holds sl xs ks \<Longrightarrow> Iter_SeekToFirst sl = Some (pos xs 0)"
proof -
  assume "holds sl xs ks"
  then obtain ht where wf: "sl_wf sl ht xs" by (auto simp: holds_def)
  show ?thesis using chain_at [OF wf_chain [OF wf, of 0], of "[]" "head sl" xs] wf_level0 [OF wf] first_of_drop [of 0 xs]
    by (simp add: Iter_SeekToFirst_def kMaxHeight_def)
qed

lemma last_or_none: "h \<notin> set ys \<Longrightarrow> (if last (h # ys) = h then None else Some (last (h # ys))) = (if ys = [] then None else Some (last ys))"
  by (metis last.simps last_in_set)

lemma SeekToLast_ok: "holds sl xs ks \<Longrightarrow> Iter_SeekToLast sl = Some (if ks = [] then None else pos xs (length ks - 1))"
proof -
  assume h: "holds sl xs ks"
  then obtain ht where wf: "sl_wf sl ht xs" by (auto simp: holds_def)
  then have "head sl \<notin> set xs" by (simp add: sl_wf_def)
  then show ?thesis using FindLast_ok [OF wf] last_or_none [of "head sl" xs] holds_nth(1) [OF h]
    by (auto simp: Iter_SeekToLast_def pos_def last_conv_nth)
qed

lemma Prev_ok: "holds sl xs ks \<Longrightarrow> n < length ks \<Longrightarrow> Iter_Prev cmp sl (pos xs n) = Some (if n = 0 then None else pos xs (n - 1))"
proof -
  assume h: "holds sl xs ks" and n: "n < length ks"
  then obtain ht where wf: "sl_wf sl ht xs" and ks: "ks = map (key_of sl) xs" by (auto simp: holds_def)
  have k: "node_key sl (xs ! n) = Some (ks ! n)" "valid (ks ! n)" "n < length xs"
    using holds_nth [OF h] n holds_valid [OF h, of "ks ! n"] by auto
  have "takeWhile (less_than sl (ks ! n)) xs = take n xs"
  proof (rule takeWhile_eq_take_P_nth)
    fix i
    assume "i < n" "i < length xs"
    then show "less_than sl (ks ! n) (xs ! i)" using holds_sorted [OF h] n by (simp add: sorted_wrt_iff_nth_less ks)
  qed (use n in \<open>simp add: ks\<close>)
  then have lo: "lower sl (ks ! n) xs = take n xs" by (simp add: lower_def)
  show ?thesis
  proof (cases n)
    case 0
    then show ?thesis using FindLessThan_ok [OF wf k(2), unfolded lo] k(1,3) by (simp add: Iter_Prev_def pos_def)
  next
    case (Suc m)
    then have "last (take n xs) = xs ! m" "take n xs \<noteq> []" using k(3) by (auto simp: take_Suc_conv_app_nth)
    moreover have "xs ! m \<in> set xs" using k(3) Suc by simp
    then have "xs ! m \<noteq> head sl" using wf by (auto simp: sl_wf_def)
    ultimately show ?thesis using FindLessThan_ok [OF wf k(2), unfolded lo] k(1,3) Suc by (simp add: Iter_Prev_def pos_def)
  qed
qed

lemma Contains_ok:
  assumes h: "holds sl xs ks" and key: "valid key"
  shows "Contains cmp sl key = Some (rank key \<in> rank ` set ks)"
proof -
  obtain ht where wf: "sl_wf sl ht xs" and ks: "ks = map (key_of sl) xs" using h by (auto simp: holds_def)
  obtain pv where f: "FindGreaterOrEqual cmp sl key None = Some (first_of (upper sl key xs), pv)"
    using FindGreaterOrEqual_ok [OF wf key, of None] by auto
  have mem: "rank key \<in> rank ` set ks \<longleftrightarrow> rank key \<in> (\<lambda>a. rank (key_of sl a)) ` set (upper sl key xs)"
  proof -
    have "set xs = set (lower sl key xs) \<union> set (upper sl key xs)" by (metis lower_upper set_append)
    moreover have "rank key \<notin> (\<lambda>a. rank (key_of sl a)) ` set (lower sl key xs)" using in_lower [of _ sl key xs] by fastforce
    ultimately show ?thesis by (simp add: ks image_image image_Un)
  qed
  show ?thesis
  proof (cases "upper sl key xs")
    case Nil
    then show ?thesis using f mem by (simp add: Contains_def)
  next
    case (Cons y ys)
    obtain k where k: "node_key sl y = Some k" "valid k" using in_upper [OF wf, of y key] wf_key [OF wf, of y] Cons by auto
    have "sorted_wrt (\<lambda>a b. rank (key_of sl a) < rank (key_of sl b)) (upper sl key xs)"
      using wf lower_upper [of sl key xs] by (metis sl_wf_def sorted_wrt_append)
    then have "rank key \<notin> (\<lambda>a. rank (key_of sl a)) ` set ys"
      using in_upper [OF wf, of y key] Cons by (auto simp: not_less)
    then show ?thesis using f mem Cons k cmp_ok [OF key k(2)] by (auto simp: Contains_def)
  qed
qed

section \<open>Searching while a node is inserted\<close>

lemma insert_prepare_fresh:
  assumes wf: "sl_wf sl ht xs" and key: "valid key" and prev0: "length prev0 = kMaxHeight"
    and ins: "insert_prepare cmp junk prev0 key sl = Some r"
  shows "\<forall>a\<in>set xs. rank (key_of sl a) \<noteq> rank key"
proof (rule ccontr)
  assume "\<not> ?thesis"
  then obtain a where a: "a \<in> set xs" "rank (key_of sl a) = rank key" by auto
  then have "a \<in> set (upper sl key xs)" using lower_iff [OF wf, of a key] lower_upper [of sl key xs] by (metis Un_iff less_irrefl set_append)
  then obtain y ys where up: "upper sl key xs = y # ys" "a = y \<or> a \<in> set ys" by (cases "upper sl key xs") auto
  have "sorted_wrt (\<lambda>a b. rank (key_of sl a) < rank (key_of sl b)) (upper sl key xs)"
    using wf lower_upper [of sl key xs] by (metis sl_wf_def sorted_wrt_append)
  then have eq: "rank (key_of sl y) = rank key" using in_upper [OF wf, of y key] up a(2) by auto
  obtain k where k: "node_key sl y = Some k" "valid k" using in_upper [OF wf, of y key] wf_key [OF wf, of y] up(1) by auto
  obtain p where "FindGreaterOrEqual cmp sl key (Some prev0) = Some (Some y, Some p)"
    using FindGreaterOrEqual_ok [OF wf key, of "Some prev0"] prev0 up(1) by (auto simp: found_prev_def)
  moreover have "cmp key k = Some 0" using cmp_ok [OF key k(2)] eq k(1) by auto
  ultimately show False using ins k(1) by (simp add: insert_prepare_def)
qed

text \<open>What holds of the list and of a writer in progress.\<close>

definition writer_ok :: "'k SkipList \<Rightarrow> (nat \<Rightarrow> nat) \<Rightarrow> nat list \<Rightarrow> writer \<Rightarrow> bool" where
  "writer_ok sl ht xs w \<longleftrightarrow> sl_wf sl ht xs \<and>
     (case w of None \<Rightarrow> True
      | Some (x, h, prev, i, filled) \<Rightarrow> \<exists>ht0 B A key. inserting sl ht0 B A key x h prev \<and> linked sl ht0 B A x i \<and> i \<le> h \<and>
          (if i = 0 then ht = ht0 \<and> xs = B @ A else ht = ht0(x := i) \<and> xs = B @ x # A) \<and>
          (filled \<longrightarrow> i < h \<and> Node_Next sl x i = Some (first_of (filter (\<lambda>a. i < ht0 a) A))))"

text \<open>A later state keeps the head, the nodes, their keys and the levels they are linked in at.\<close>

definition extends :: "'k SkipList \<Rightarrow> (nat \<Rightarrow> nat) \<Rightarrow> nat list \<Rightarrow> 'k SkipList \<Rightarrow> (nat \<Rightarrow> nat) \<Rightarrow> nat list \<Rightarrow> bool" where
  "extends sl ht xs sl' ht' xs' \<longleftrightarrow> head sl' = head sl \<and>
     (\<forall>a\<in>set xs. a \<in> set xs' \<and> ht a \<le> ht' a \<and> node_key sl' a = node_key sl a)"

lemma extends_reader: "extends sl ht xs sl' ht' xs' \<Longrightarrow> reader_ok sl ht xs key x level \<Longrightarrow> reader_ok sl' ht' xs' key x level"
  by (fastforce simp: extends_def reader_ok_def)

lemma begin_ok:
  assumes "writer_ok sl ht xs None" "valid key" "length prev0 = kMaxHeight" "insert_prepare cmp junk prev0 key sl = Some (x, h, prev, sl')"
  shows "writer_ok sl' ht xs (Some (x, h, prev, 0, False)) \<and> extends sl ht xs sl' ht xs"
proof -
  have wf: "sl_wf sl ht xs" using assms(1) by (simp add: writer_ok_def)
  let ?B = "lower sl key xs" and ?A = "upper sl key xs"
  have x: "x = arena sl" and i: "inserting sl' ht ?B ?A key x h prev" "linked sl' ht ?B ?A x 0" and k: "node_key sl' = (node_key sl)(x \<mapsto> key)"
    using insert_prepare_ok [OF wf assms(2) insert_prepare_fresh [OF wf assms(2,3,4)] assms(3), of junk] assms(4) by auto
  have "sl_wf sl' ht xs" using linked_wf [OF i] lower_upper [of sl key xs] by simp
  then have "writer_ok sl' ht xs (Some (x, h, prev, 0, False))"
    unfolding writer_ok_def using i lower_upper [of sl key xs] by fastforce
  moreover have "head sl' = head sl" using assms(4)
    by (auto simp: insert_prepare_def NewNode_def RandomHeight_def split: bind_splits if_splits prod.splits)
  moreover have "arena sl \<notin> set xs" using wf by (auto simp: sl_wf_def)
  ultimately show ?thesis using x k by (auto simp: extends_def)
qed

lemma fill_ok:
  assumes "writer_ok sl ht xs (Some (x, h, prev, i, False))" "i < h" "nth_opt prev i = Some p" "Node_Next sl p i = Some y" "SetNext x i y sl = Some sl'"
  shows "writer_ok sl' ht xs (Some (x, h, prev, i, True)) \<and> extends sl ht xs sl' ht xs"
proof -
  obtain ht0 B A key where w: "inserting sl ht0 B A key x h prev" "linked sl ht0 B A x i"
    and xs: "if i = 0 then ht = ht0 \<and> xs = B @ A else ht = ht0(x := i) \<and> xs = B @ x # A"
    using assms(1) by (auto simp: writer_ok_def)
  note p = pred_next [OF w assms(2)]
  have y: "y = first_of (filter (\<lambda>a. i < ht0 a) A)" using assms(3,4) p(2,5) by simp
  obtain "inserting sl' ht0 B A key x h prev" "linked sl' ht0 B A x i" "node_key sl' = node_key sl" "Node_Next sl' x i = Some y"
    using store_new [OF w assms(2), of y] assms(5) by auto
  moreover have "head sl' = head sl" using assms(5) by (auto simp: SetNext_def split: bind_splits)
  ultimately show ?thesis using xs y linked_wf [of sl' ht0 B A key x h prev i] assms(2)
    unfolding writer_ok_def extends_def by (cases "i = 0") fastforce+
qed

lemma link_ok:
  assumes "writer_ok sl ht xs (Some (x, h, prev, i, True))" "nth_opt prev i = Some p" "SetNext p i (Some x) sl = Some sl'"
  shows "\<exists>ht' xs'. writer_ok sl' ht' xs' (Some (x, h, prev, i + 1, False)) \<and> extends sl ht xs sl' ht' xs'"
proof -
  obtain ht0 B A key where w: "inserting sl ht0 B A key x h prev" "linked sl ht0 B A x i"
    and i: "i < h" "Node_Next sl x i = Some (first_of (filter (\<lambda>a. i < ht0 a) A))"
    and xs: "if i = 0 then ht = ht0 \<and> xs = B @ A else ht = ht0(x := i) \<and> xs = B @ x # A"
    using assms(1) by (auto simp: writer_ok_def)
  note p = pred_next [OF w i(1)]
  have w': "inserting sl' ht0 B A key x h prev" "linked sl' ht0 B A x (Suc i)" "node_key sl' = node_key sl"
    using store_prev [OF w i] assms(2,3) p(2) by auto
  have "sl_wf sl' (ht0(x := Suc i)) (B @ x # A)" using linked_wf [OF w'(1,2)] i(1) by simp
  then have "writer_ok sl' (ht0(x := Suc i)) (B @ x # A) (Some (x, h, prev, i + 1, False))"
    unfolding writer_ok_def using w' i(1) by fastforce
  moreover have "head sl' = head sl" using assms(3) by (auto simp: SetNext_def split: bind_splits)
  moreover have "x \<notin> set (B @ A)" using w(1) by (auto simp: inserting_def)
  ultimately show ?thesis using xs w'(3)
    by (intro exI [of _ "ht0(x := Suc i)"] exI [of _ "B @ x # A"]) (auto simp: extends_def split: if_splits)
qed

text \<open>The state of a search at any time.\<close>

definition search_ok :: "'k SkipList \<Rightarrow> (nat \<Rightarrow> nat) \<Rightarrow> nat list \<Rightarrow> 'k \<Rightarrow> reader \<Rightarrow> bool" where
  "search_ok sl ht xs target r \<longleftrightarrow>
     (case r of Some (Inl (x, level)) \<Rightarrow> reader_ok sl ht xs target x level | _ \<Rightarrow> True)"

lemma search_extends: "extends sl ht xs sl' ht' xs' \<Longrightarrow> search_ok sl ht xs target r \<Longrightarrow> search_ok sl' ht' xs' target r"
  using extends_reader by (auto simp: search_ok_def split: option.splits sum.splits)

lemma search_round:
  assumes wf: "sl_wf sl ht xs" and t: "valid target" and r: "reader_ok sl ht xs target x level"
  shows "\<exists>res. ge_step cmp sl target (x, level, None) = Some res \<and>
    (case res of Inl (x', level', _) \<Rightarrow> reader_ok sl ht xs target x' level' | Inr (n, _) \<Rightarrow> n = first_of (upper sl target xs))"
proof -
  obtain us vs where sp: "head sl # filter (\<lambda>a. level < ht a) (lower sl target xs) = us @ x # vs" using reader_split [OF wf r] by blast
  show ?thesis
  proof (cases vs)
    case Nil
    then show ?thesis using ge_stop [OF wf t r, of us None] sp by (cases "level = 0") auto
  next
    case (Cons v vs')
    then show ?thesis using ge_move(1) [OF wf t r, of us v vs' None] ge_move(2) [OF wf t r, of us v vs'] sp by auto
  qed
qed

lemma rw_step_ok:
  assumes "rw_step cmp junk valid target s s'" "valid target" "writer_ok (fst s) ht xs (fst (snd s))" "search_ok (fst s) ht xs target (snd (snd s))"
  shows "\<exists>ht' xs'. writer_ok (fst s') ht' xs' (fst (snd s')) \<and> search_ok (fst s') ht' xs' target (snd (snd s'))"
  using assms
proof (induction rule: rw_step.induct)
  case (w_begin key prev0 sl x h prev sl' r)
  then show ?case using begin_ok [of sl ht xs key prev0 junk x h prev sl'] search_extends [of sl ht xs sl' ht xs target r] by auto
next
  case (w_fill i h prev p sl y x sl' r)
  then show ?case using fill_ok [of sl ht xs x h prev i p y sl'] search_extends [of sl ht xs sl' ht xs target r] by auto
next
  case (w_link prev i p x sl sl' h r)
  then show ?case using link_ok [of sl ht xs x h prev i p sl'] search_extends by fastforce
next
  case (w_end sl x h prev r)
  then show ?case by (auto simp: writer_ok_def)
next
  case (r_begin sl w)
  then show ?case by (intro exI [of _ ht] exI [of _ xs]) (auto simp: search_ok_def reader_ok_def writer_ok_def sl_wf_def)
next
  case (r_round sl x level x' level' pv w)
  have "sl_wf sl ht xs" "reader_ok sl ht xs target x level" using r_round by (simp_all add: search_ok_def writer_ok_def)
  then have "reader_ok sl ht xs target x' level'" using search_round [of sl ht xs target x level] r_round by auto
  then show ?case using r_round by (intro exI [of _ ht] exI [of _ xs]) (simp add: search_ok_def)
next
  case (r_end sl x level n pv w)
  then show ?case by (intro exI [of _ ht] exI [of _ xs]) (simp add: search_ok_def)
qed

lemma rw_reach_ok:
  assumes "(rw_step cmp junk valid target)\<^sup>*\<^sup>* (sl0, None, None) (sl, w, r)" "holds sl0 xs0 ks0" "valid target"
  shows "\<exists>ht xs. writer_ok sl ht xs w \<and> search_ok sl ht xs target r"
proof -
  obtain ht0 where start: "writer_ok sl0 ht0 xs0 None" "search_ok sl0 ht0 xs0 target None"
    using assms(2) by (auto simp: holds_def writer_ok_def search_ok_def)
  have "\<exists>ht xs. writer_ok (fst s) ht xs (fst (snd s)) \<and> search_ok (fst s) ht xs target (snd (snd s))"
    if "(rw_step cmp junk valid target)\<^sup>*\<^sup>* (sl0, None, None) s" for s
    using that
  proof (induction rule: rtranclp_induct)
    case base
    then show ?case using start by auto
  next
    case (step s s')
    then show ?case using rw_step_ok [OF step(2) assms(3)] by blast
  qed
  then show ?thesis using assms(1) by fastforce
qed

text \<open>
  Whatever a writer is doing, the next round of a search is defined, and if it ends the search, the
  node returned is where the target belongs among the keys the list holds at that moment.
\<close>

lemma concurrent_search:
  assumes "(rw_step cmp junk valid target)\<^sup>*\<^sup>* (sl0, None, None) (sl, w, Some (Inl (x, level)))" "holds sl0 xs0 ks0" "valid target"
  shows "\<exists>xs ks res. holds sl xs ks \<and> ge_step cmp sl target (x, level, None) = Some res \<and>
    (\<forall>n pv. res = Inr (n, pv) \<longrightarrow> n = pos xs (length (takeWhile (\<lambda>k. rank k < rank target) ks)))"
proof -
  obtain ht xs where w: "writer_ok sl ht xs w" "search_ok sl ht xs target (Some (Inl (x, level)))" using rw_reach_ok [OF assms] by blast
  then have wf: "sl_wf sl ht xs" and r: "reader_ok sl ht xs target x level" by (simp_all add: writer_ok_def search_ok_def)
  have "length (takeWhile (\<lambda>k. rank k < rank target) (map (key_of sl) xs)) = length (lower sl target xs)"
    using arg_cong [OF lower_keys(1), of length sl target xs] by simp
  then have "first_of (upper sl target xs) = pos xs (length (takeWhile (\<lambda>k. rank k < rank target) (map (key_of sl) xs)))"
    by (simp add: upper_drop first_of_drop)
  moreover have "holds sl xs (map (key_of sl) xs)" using wf by (auto simp: holds_def)
  ultimately show ?thesis using search_round [OF wf assms(3) r]
    by (intro exI [of _ xs] exI [of _ "map (key_of sl) xs"]) auto
qed

end

end
