(* ===== verification/Level_Memtable.thy ===== *)
theory Level_Memtable
  imports Level_Format Level_Skiplist
begin

text \<open>
  The memtable of LevelDB (db/memtable.cc): entries are byte strings in a skip list, compared by the
  internal key they start with.
\<close>

unbundle bit_operations_syntax

section \<open>Operations\<close>

text \<open>A length-prefixed slice at a pointer, with the bytes after it; entries are assumed not corrupted.\<close>

definition slice_at :: "u8 list \<Rightarrow> (u8 list \<times> u8 list) option" where
  "slice_at data = do {
     (len, p) \<leftarrow> GetVarint32Ptr data;
     assert_opt (unat len \<le> length p);
     Some (take (unat len) p, drop (unat len) p) }"

definition KeyComparator :: "bool \<Rightarrow> u8 list \<Rightarrow> u8 list \<Rightarrow> int option" where
  "KeyComparator e aptr bptr = do {
     (a, _) \<leftarrow> slice_at aptr;
     (b, _) \<leftarrow> slice_at bptr;
     InternalKey_Compare e a b }"

definition new_MemTable :: "(nat \<Rightarrow> nat option) \<Rightarrow> u8 list SkipList option" where
  "new_MemTable junk = new_SkipList junk []"

definition MemTable_Add ::
  "bool \<Rightarrow> (nat \<Rightarrow> nat option) \<Rightarrow> nat list \<Rightarrow> u64 \<Rightarrow> ValueType \<Rightarrow> u8 list \<Rightarrow> u8 list \<Rightarrow> u8 list SkipList \<Rightarrow> u8 list SkipList option" where
  "MemTable_Add e junk prev0 s t key value table = do {
     let key_size = length key;
     let val_size = length value;
     let internal_key_size = key_size + 8;
     let encoded_len = VarintLength (of_nat internal_key_size) + internal_key_size + VarintLength (of_nat val_size) + val_size;
     let buf = EncodeVarint32 (of_nat internal_key_size) @ key @ EncodeFixed64 e (push_bit 8 s OR ucast (tag_byte t)) @
       EncodeVarint32 (of_nat val_size) @ value;
     assert_opt (length buf = encoded_len);
     Insert (KeyComparator e) junk prev0 buf table }"

text \<open>No entry, a value, or the status for a deletion.\<close>

definition MemTable_Get :: "bool \<Rightarrow> LookupKey \<Rightarrow> u8 list SkipList \<Rightarrow> (u8 list + Status) option option" where
  "MemTable_Get e key table = do {
     it \<leftarrow> Iter_Seek (KeyComparator e) table (memtable_key key);
     case it of
       None \<Rightarrow> Some None
     | Some _ \<Rightarrow> do {
         entry \<leftarrow> Iter_key table it;
         (key_length, key_ptr) \<leftarrow> GetVarint32Ptr entry;
         let n = unat (key_length - 8);
         assert_opt (n \<le> length key_ptr);
         if Slice_compare (take n key_ptr) (user_key key) = 0 then do {
           tag \<leftarrow> DecodeFixed64 e (drop n key_ptr);
           if tag AND 0xff = ucast (tag_byte kTypeValue) then do {
             (v, _) \<leftarrow> slice_at (drop (unat key_length) key_ptr);
             Some (Some (Inl v)) }
           else if tag AND 0xff = ucast (tag_byte kTypeDeletion) then Some (Some (Inr (NotFound '''')))
           else Some None }
         else Some None } }"

text \<open>The iterator of a memtable gives internal keys and values.\<close>

definition EncodeKey :: "u8 list \<Rightarrow> u8 list" where
  "EncodeKey target = PutVarint32 [] (of_nat (length target)) @ target"

definition MemIter_Seek :: "bool \<Rightarrow> u8 list SkipList \<Rightarrow> u8 list \<Rightarrow> nat option option" where
  "MemIter_Seek e table k = Iter_Seek (KeyComparator e) table (EncodeKey k)"

definition MemIter_key :: "u8 list SkipList \<Rightarrow> nat option \<Rightarrow> u8 list option" where
  "MemIter_key table it = do { entry \<leftarrow> Iter_key table it; (k, _) \<leftarrow> slice_at entry; Some k }"

definition MemIter_value :: "u8 list SkipList \<Rightarrow> nat option \<Rightarrow> u8 list option" where
  "MemIter_value table it = do { entry \<leftarrow> Iter_key table it; (_, p) \<leftarrow> slice_at entry; (v, _) \<leftarrow> slice_at p; Some v }"

section \<open>Entries\<close>

text \<open>An entry starts with an internal key.\<close>

definition entry_ok :: "u8 list \<Rightarrow> bool" where
  "entry_ok b \<longleftrightarrow> (\<exists>ik rest. slice_at b = Some (ik, rest) \<and> 8 \<le> length ik)"

definition entry_rank :: "bool \<Rightarrow> u8 list \<Rightarrow> u8 list \<times> int" where
  "entry_rank e b = irank e (fst (the (slice_at b)))"

interpretation mt: key_order "KeyComparator e" entry_ok "entry_rank e" for e
proof
  fix a b
  assume "entry_ok a" "entry_ok b"
  then show "\<exists>c. KeyComparator e a b = Some c \<and> (c < 0 \<longleftrightarrow> entry_rank e a < entry_rank e b) \<and> (c = 0 \<longleftrightarrow> entry_rank e a = entry_rank e b)"
    using InternalKey_Compare_order [of _ _ e] by (fastforce simp: entry_ok_def entry_rank_def KeyComparator_def)
qed

text \<open>What was added: a sequence number, a type, a user key and a value.\<close>

type_synonym mem_entry = "u64 \<times> ValueType \<times> u8 list \<times> u8 list"

fun encode_entry :: "bool \<Rightarrow> mem_entry \<Rightarrow> u8 list" where
  "encode_entry e (s, t, k, v) = EncodeVarint32 (of_nat (length k + 8)) @ k @
     EncodeFixed64 e (push_bit 8 s OR ucast (tag_byte t)) @ EncodeVarint32 (of_nat (length v)) @ v"

fun mem_entry_ok :: "mem_entry \<Rightarrow> bool" where
  "mem_entry_ok (s, t, k, v) \<longleftrightarrow> s \<le> kMaxSequenceNumber \<and> length k + 8 < 2 ^ 32 \<and> length v < 2 ^ 32"

definition tag_of :: "u64 \<Rightarrow> ValueType \<Rightarrow> u64" where
  "tag_of s t = push_bit 8 s OR ucast (tag_byte t)"

lemma GetVarint32Ptr_Encode: "GetVarint32Ptr (EncodeVarint32 v @ rest) = Some (v, rest)"
  using GetVarint32_Put [of v rest] by (simp add: GetVarint32_def split: option.splits)

lemma slice_at_Encode: "length s < 2 ^ 32 \<Longrightarrow> slice_at (EncodeVarint32 (of_nat (length s)) @ s @ rest) = Some (s, rest)"
  by (simp add: slice_at_def GetVarint32Ptr_Encode unsigned_of_nat take_bit_nat_eq_self)

lemma slice_at_entry:
  assumes "length k + 8 < 2 ^ 32"
  shows "slice_at (EncodeVarint32 (of_nat (length k + 8)) @ k @ EncodeFixed64 e tag @ rest) = Some (k @ EncodeFixed64 e tag, rest)"
  using slice_at_Encode [of "k @ EncodeFixed64 e tag" rest] assms by simp

lemma irank_parts: "irank e (k @ EncodeFixed64 e tag) = (k, - uint tag)"
  using irank_PutFixed64 [of e k tag] by (simp add: PutFixed64_def)

lemma entry_parts:
  assumes "mem_entry_ok (s, t, k, v)"
  shows "entry_ok (encode_entry e (s, t, k, v))" "entry_rank e (encode_entry e (s, t, k, v)) = (k, - uint (tag_of s t))"
proof -
  have "slice_at (encode_entry e (s, t, k, v)) = Some (k @ EncodeFixed64 e (tag_of s t), EncodeVarint32 (of_nat (length v)) @ v)"
    unfolding encode_entry.simps tag_of_def using assms by (intro slice_at_entry) simp
  then show "entry_ok (encode_entry e (s, t, k, v))" "entry_rank e (encode_entry e (s, t, k, v)) = (k, - uint (tag_of s t))"
    by (simp_all add: entry_ok_def entry_rank_def irank_parts)
qed

section \<open>Tags\<close>

lemma tag_byte_less: "uint (tag_byte t) < 2"
  by (cases t) (simp_all add: tag_byte_def)

lemma kMax_le: "s \<le> kMaxSequenceNumber \<longleftrightarrow> uint s < 2 ^ 56"
  by (simp add: kMaxSequenceNumber_def word_le_def push_bit_eq_mult) linarith

lemma uint_tag_of:
  assumes "s \<le> kMaxSequenceNumber"
  shows "uint (tag_of s t) = 256 * uint s + uint (tag_byte t)"
proof -
  have s: "uint s < 2 ^ 56" using assms kMax_le by blast
  have "tag_of s t = push_bit 8 s + ucast (tag_byte t)"
    unfolding tag_of_def by (rule disjunctive_add [symmetric]) (auto simp: bit_simps dest: bit_imp_le_length)
  also have "uint \<dots> = 256 * uint s + uint (tag_byte t)"
    using s tag_byte_less [of t] uint_lt2p [of s]
    by (simp add: push_bit_eq_mult uint_word_ariths unsigned_ucast_eq take_bit_int_eq_self mod_pos_pos_trivial mult.commute)
  finally show ?thesis .
qed

lemma tag_type: "tag_of s t AND 0xff = ucast (tag_byte t)"
proof -
  have "tag_of s t AND 0xff = take_bit 8 (tag_of s t)" by (simp add: take_bit_eq_mask mask_eq_decr_exp)
  also have "\<dots> = ucast (tag_byte t)"
    by (rule bit_word_eqI) (auto simp: tag_of_def bit_simps dest: bit_imp_le_length)
  finally show ?thesis .
qed

lemma tag_order:
  assumes "s \<le> kMaxSequenceNumber" "s' \<le> kMaxSequenceNumber"
  shows "s < s' \<Longrightarrow> uint (tag_of s t) < uint (tag_of s' t')" "uint (tag_of s t) \<le> uint (tag_of s' kTypeValue) \<longleftrightarrow> s \<le> s'"
  using uint_tag_of [OF assms(1), of t] uint_tag_of [OF assms(2), of t'] uint_tag_of [OF assms(2), of kTypeValue]
    tag_byte_less [of t] tag_byte_less [of t'] uint_ge_0 [of "tag_byte t"] uint_ge_0 [of "tag_byte t'"]
  by (auto simp: word_less_def word_le_def tag_byte_def split: ValueType.splits)

section \<open>What a memtable holds\<close>

definition table_holds :: "bool \<Rightarrow> u8 list SkipList \<Rightarrow> mem_entry list \<Rightarrow> bool" where
  "table_holds e table ents \<longleftrightarrow> (\<exists>xs ks. mt.holds e table xs ks \<and> set ks = encode_entry e ` set ents) \<and>
     list_all mem_entry_ok ents \<and> sorted_wrt (\<lambda>a b. fst a < fst b) ents"

lemma new_MemTable_ok: "\<exists>table. new_MemTable junk = Some table \<and> table_holds e table []"
  using mt.new_SkipList_ok [of junk "[]" e] by (auto simp: new_MemTable_def table_holds_def)

lemma length_varint_n: "n < 2 ^ 32 \<Longrightarrow> VarintLength (of_nat n) = length (EncodeVarint32 (of_nat n))"
  by (simp add: VarintLength_varint EncodeVarint32_varint unsigned_of_nat take_bit_nat_eq_self)

lemma set_between: "set (takeWhile P xs @ x # dropWhile P xs) = insert x (set xs)"
  by (metis Un_insert_right list.simps(15) set_append takeWhile_dropWhile_id)

lemma MemTable_Add_ok:
  assumes h: "table_holds e table ents" and new: "mem_entry_ok (s, t, k, v)" "\<forall>x\<in>set ents. fst x < s" and prev0: "length prev0 = kMaxHeight"
  shows "\<exists>table'. MemTable_Add e junk prev0 s t k v table = Some table' \<and> table_holds e table' (ents @ [(s, t, k, v)])"
proof -
  let ?b = "encode_entry e (s, t, k, v)"
  obtain xs ks where ks: "mt.holds e table xs ks" "set ks = encode_entry e ` set ents" using h by (auto simp: table_holds_def)
  have ents: "\<forall>x\<in>set ents. mem_entry_ok x" using h by (simp add: table_holds_def list_all_iff)
  have "entry_rank e (encode_entry e x) \<noteq> entry_rank e ?b" if x: "x \<in> set ents" for x
  proof -
    obtain s' t' k' v' where p: "x = (s', t', k', v')" by (cases x)
    have "s' < s" "mem_entry_ok (s', t', k', v')" using new(2) ents x by (auto simp: p)
    then show ?thesis using tag_order(1) [of s' s t' t] new(1) entry_parts(2) [of s' t' k' v' e] entry_parts(2) [OF new(1), of e] by (simp add: p)
  qed
  then have "\<forall>b\<in>set ks. entry_rank e b \<noteq> entry_rank e ?b" using ks(2) by auto
  then obtain table' where t': "Insert (KeyComparator e) junk prev0 ?b table = Some table'"
    "mt.holds e table' (mt.lower e table ?b xs @ arena table # mt.upper e table ?b xs)
      (takeWhile (\<lambda>b. entry_rank e b < entry_rank e ?b) ks @ ?b # dropWhile (\<lambda>b. entry_rank e b < entry_rank e ?b) ks)"
    using mt.Insert_ok [OF ks(1) entry_parts(1) [OF new(1), of e] _ prev0, of junk] by blast
  have "set (takeWhile (\<lambda>b. entry_rank e b < entry_rank e ?b) ks @ ?b # dropWhile (\<lambda>b. entry_rank e b < entry_rank e ?b) ks) =
      encode_entry e ` set (ents @ [(s, t, k, v)])"
    unfolding set_between ks(2) by auto
  then have "\<exists>xs ks. mt.holds e table' xs ks \<and> set ks = encode_entry e ` set (ents @ [(s, t, k, v)])" using t'(2) by blast
  then have "table_holds e table' (ents @ [(s, t, k, v)])"
    unfolding table_holds_def using h new by (auto simp: table_holds_def sorted_wrt_append simp del: encode_entry.simps)
  moreover have "MemTable_Add e junk prev0 s t k v table = Insert (KeyComparator e) junk prev0 ?b table"
    using new(1) by (simp add: MemTable_Add_def Let_def length_varint_n [of "length k + 8", simplified] length_varint_n)
  ultimately show ?thesis using t'(1) by simp
qed

section \<open>Lookups\<close>

text \<open>What a lookup is to find: the last update of the key up to the snapshot.\<close>

definition visible :: "u8 list \<Rightarrow> u64 \<Rightarrow> mem_entry list \<Rightarrow> mem_entry list" where
  "visible k snap ents = filter (\<lambda>(s, t, k', v). k' = k \<and> s \<le> snap) ents"

definition latest :: "u8 list \<Rightarrow> u64 \<Rightarrow> mem_entry list \<Rightarrow> (u8 list + Status) option" where
  "latest k snap ents =
     (if visible k snap ents = [] then None
      else case last (visible k snap ents) of (s, t, _, v) \<Rightarrow>
        Some (case t of kTypeValue \<Rightarrow> Inl v | kTypeDeletion \<Rightarrow> Inr (NotFound '''')))"

lemma new_LookupKey_ok:
  assumes "length k + 8 < 2 ^ 32" "snap \<le> kMaxSequenceNumber"
  shows "\<exists>lk. new_LookupKey e k snap = Some lk \<and> user_key lk = k \<and> entry_ok (memtable_key lk) \<and>
    entry_rank e (memtable_key lk) = (k, - uint (tag_of snap kTypeValue)) \<and> internal_key lk = k @ EncodeFixed64 e (tag_of snap kTypeValue)"
proof -
  let ?n = "EncodeVarint32 (of_nat (length k + 8))" and ?tag = "tag_of snap kTypeValue"
  have "PackSequenceAndType snap kValueTypeForSeek = Some ?tag"
    using PackSequenceAndType_ok [OF assms(2), of kTypeValue] by (simp add: tag_of_def kValueTypeForSeek_def)
  moreover have "length ?n \<le> 5" using varint_length_32 by (simp add: EncodeVarint32_varint)
  ultimately have "new_LookupKey e k snap = Some \<lparr>lk_rep = ?n @ k @ EncodeFixed64 e ?tag, lk_kstart = length ?n\<rparr>"
    by (simp add: new_LookupKey_def Let_def)
  moreover have "slice_at (?n @ k @ EncodeFixed64 e ?tag) = Some (k @ EncodeFixed64 e ?tag, [])"
    using slice_at_entry [OF assms(1), of e ?tag "[]"] by simp
  ultimately show ?thesis
    by (simp add: user_key_def internal_key_def memtable_key_def entry_ok_def entry_rank_def irank_parts)
qed

lemma seek_least:
  assumes "sorted_wrt (\<lambda>a b. f a < (f b :: 'o :: linorder)) ks" "n = length (takeWhile (\<lambda>k. f k < t) ks)"
  shows "n < length ks \<Longrightarrow> \<not> f (ks ! n) < t" "y \<in> set ks \<Longrightarrow> \<not> f y < t \<Longrightarrow> n < length ks \<and> f (ks ! n) \<le> f y"
proof -
  show "n < length ks \<Longrightarrow> \<not> f (ks ! n) < t" using nth_length_takeWhile [of "\<lambda>k. f k < t" ks] assms(2) by simp
  assume "y \<in> set ks" "\<not> f y < t"
  then obtain m where m: "m < length ks" "ks ! m = y" by (auto simp: in_set_conv_nth)
  have "\<not> m < n"
  proof
    assume "m < n"
    then have "ks ! m \<in> set (takeWhile (\<lambda>k. f k < t) ks)" using assms(2) by (metis nth_mem takeWhile_nth)
    then show False using m(2) \<open>\<not> f y < t\<close> by (auto dest: set_takeWhileD)
  qed
  then show "n < length ks \<and> f (ks ! n) \<le> f y"
    using m assms(1) by (cases "m = n") (auto simp: sorted_wrt_iff_nth_less less_imp_le)
qed

lemma last_greatest:
  "sorted_wrt (\<lambda>a b. fst a < (fst b :: u64)) fs \<Longrightarrow> x \<in> set fs \<Longrightarrow> (\<forall>y\<in>set fs. fst y \<le> fst x) \<Longrightarrow> last fs = x"
proof (induction fs)
  case (Cons a fs)
  then show ?case
  proof (cases "fs = []")
    case False
    then have "last fs \<in> set fs" by simp
    then have "fst a < fst (last fs)" "fst (last fs) \<le> fst x" using Cons.prems by auto
    then have "x \<noteq> a" by auto
    then show ?thesis using Cons False by auto
  qed simp
qed simp

lemma visible_iff: "(s, t, k', v) \<in> set (visible k snap ents) \<longleftrightarrow> (s, t, k', v) \<in> set ents \<and> k' = k \<and> s \<le> snap"
  by (auto simp: visible_def)

text \<open>Reading the entry at which a lookup arrives.\<close>

lemma MemTable_Get_at:
  assumes "mem_entry_ok (s, t, k', v)" "Iter_Seek (KeyComparator e) table (memtable_key lk) = Some (Some x)"
    "Iter_key table (Some x) = Some (encode_entry e (s, t, k', v))" "user_key lk = k"
  shows "MemTable_Get e lk table =
    Some (if k' = k then Some (case t of kTypeValue \<Rightarrow> Inl v | kTypeDeletion \<Rightarrow> Inr (NotFound '''')) else None)"
proof -
  let ?rest = "EncodeFixed64 e (tag_of s t) @ EncodeVarint32 (of_nat (length v)) @ v"
  have l: "length k' + 8 < 2 ^ 32" "length v < 2 ^ 32" using assms(1) by simp_all
  have enc: "encode_entry e (s, t, k', v) = EncodeVarint32 (of_nat (length k' + 8)) @ k' @ ?rest" by (simp add: tag_of_def)
  define len :: u32 where "len = of_nat (length k' + 8)"
  have "GetVarint32Ptr (encode_entry e (s, t, k', v)) = Some (len, k' @ ?rest)"
    unfolding enc len_def by (rule GetVarint32Ptr_Encode)
  moreover have "unat len = length k' + 8"
    unfolding len_def using l(1) by (simp add: unsigned_of_nat take_bit_nat_eq_self del: of_nat_add)
  moreover have "unat (len - 8) = length k'"
    unfolding len_def using l(1) by (simp add: unsigned_of_nat take_bit_nat_eq_self)
  moreover have "slice_at (drop (length k' + 8) (k' @ ?rest)) = Some (v, [])" using slice_at_Encode [OF l(2), of "[]"] by simp
  ultimately show ?thesis using assms(2-4)
    by (cases t) (simp_all add: MemTable_Get_def Let_def tag_type tag_byte_def del: encode_entry.simps)
qed

lemma rank_target:
  assumes "mem_entry_ok (s, t, k', v)" "snap \<le> kMaxSequenceNumber"
  shows "entry_rank e (encode_entry e (s, t, k', v)) < (k, - uint (tag_of snap kTypeValue)) \<longleftrightarrow> k' < k \<or> k' = k \<and> \<not> s \<le> snap"
  using tag_order(2) [of s snap t] assms(1) entry_parts(2) [OF assms(1), of e] assms(2) by (auto simp: less_prod_def' not_le)

lemma rank_le:
  assumes "mem_entry_ok (s, t, k, v)" "mem_entry_ok (s', t', k', v')"
    and "entry_rank e (encode_entry e (s, t, k, v)) \<le> entry_rank e (encode_entry e (s', t', k', v'))"
  shows "k < k' \<or> k = k' \<and> s' \<le> s"
proof -
  have "k < k' \<or> k = k' \<and> uint (tag_of s' t') \<le> uint (tag_of s t)"
    using assms(3) entry_parts(2) [OF assms(1), of e] entry_parts(2) [OF assms(2), of e]
    by (auto simp: less_eq_prod_def simp del: encode_entry.simps)
  moreover have "s' \<le> s" if "uint (tag_of s' t') \<le> uint (tag_of s t)"
    using tag_order(1) [of s s' t t'] assms(1,2) that by (auto simp: not_le [symmetric])
  ultimately show ?thesis by blast
qed

lemma latest_at:
  assumes "sorted_wrt (\<lambda>a b. fst a < fst b) ents" "(s, t, k, v) \<in> set (visible k snap ents)"
    and "\<And>s' t' v'. (s', t', k, v') \<in> set (visible k snap ents) \<Longrightarrow> s' \<le> s"
  shows "latest k snap ents = Some (case t of kTypeValue \<Rightarrow> Inl v | kTypeDeletion \<Rightarrow> Inr (NotFound ''''))"
proof -
  have "sorted_wrt (\<lambda>a b. fst a < fst b) (visible k snap ents)" unfolding visible_def using assms(1) by (rule sorted_wrt_filter)
  moreover have "\<forall>y\<in>set (visible k snap ents). fst y \<le> fst (s, t, k, v)" using assms(3) by (auto simp: visible_iff)
  ultimately have "last (visible k snap ents) = (s, t, k, v)" using assms(2) last_greatest by blast
  then show ?thesis using assms(2) by (auto simp: latest_def)
qed

lemma latest_none: "(\<And>s t v. (s, t, k, v) \<notin> set (visible k snap ents)) \<Longrightarrow> latest k snap ents = None"
proof -
  assume none: "\<And>s t v. (s, t, k, v) \<notin> set (visible k snap ents)"
  have "visible k snap ents = []"
  proof (rule ccontr)
    assume "visible k snap ents \<noteq> []"
    then obtain s t k' v where "(s, t, k', v) \<in> set (visible k snap ents)" by (metis hd_in_set prod_cases4)
    then show False using none [of s t v] by (auto simp: visible_iff)
  qed
  then show ?thesis by (simp add: latest_def)
qed

lemma MemTable_Get_ok:
  assumes h: "table_holds e table ents" and k: "length k + 8 < 2 ^ 32" and snap: "snap \<le> kMaxSequenceNumber"
  shows "\<exists>lk. new_LookupKey e k snap = Some lk \<and> MemTable_Get e lk table = Some (latest k snap ents)"
proof -
  obtain lk where lk: "new_LookupKey e k snap = Some lk" "user_key lk = k" "entry_ok (memtable_key lk)"
    "entry_rank e (memtable_key lk) = (k, - uint (tag_of snap kTypeValue))"
    using new_LookupKey_ok [OF k snap] by blast
  obtain xs ks where ks: "mt.holds e table xs ks" "set ks = encode_entry e ` set ents"
    and ents: "\<forall>x\<in>set ents. mem_entry_ok x" "sorted_wrt (\<lambda>a b. fst a < fst b) ents" using h by (auto simp: table_holds_def list_all_iff)
  define n where "n = length (takeWhile (\<lambda>b. entry_rank e b < entry_rank e (memtable_key lk)) ks)"
  have seek: "Iter_Seek (KeyComparator e) table (memtable_key lk) = Some (mt.pos xs n)" using mt.Seek_ok [OF ks(1) lk(3)] by (simp add: n_def)
  note least = seek_least [OF mt.holds_sorted [OF ks(1)] n_def]
  have vis: "n < length ks \<and> entry_rank e (ks ! n) \<le> entry_rank e (encode_entry e (s, t, k, v)) \<and> mem_entry_ok (s, t, k, v)"
    if "(s, t, k, v) \<in> set (visible k snap ents)" for s t v
  proof -
    have x: "(s, t, k, v) \<in> set ents" "s \<le> snap" using that by (simp_all add: visible_iff)
    then have m: "encode_entry e (s, t, k, v) \<in> set ks" and ok: "mem_entry_ok (s, t, k, v)" using ks(2) ents(1) by blast+
    have "\<not> entry_rank e (encode_entry e (s, t, k, v)) < entry_rank e (memtable_key lk)"
      unfolding lk(4) rank_target [OF ok snap] using x(2) by simp
    then show ?thesis using least(2) [OF m] ok by blast
  qed
  have "MemTable_Get e lk table = Some (latest k snap ents)"
  proof (cases "n < length ks")
    case False
    then have "latest k snap ents = None" using vis by (intro latest_none) blast
    then show ?thesis using seek False mt.holds_nth(1) [OF ks(1)] by (simp add: MemTable_Get_def mt.pos_def)
  next
    case True
    obtain s t k' v where x: "(s, t, k', v) \<in> set ents" "ks ! n = encode_entry e (s, t, k', v)" using ks(2) nth_mem [OF True] by force
    have ok: "mem_entry_ok (s, t, k', v)" using ents(1) x(1) by blast
    have get: "MemTable_Get e lk table = Some (if k' = k then Some (case t of kTypeValue \<Rightarrow> Inl v | kTypeDeletion \<Rightarrow> Inr (NotFound '''')) else None)"
      using MemTable_Get_at [OF ok _ _ lk(2), of e table "xs ! n"] seek mt.key_ok [OF ks(1) True] mt.holds_nth(1) [OF ks(1)] True x(2)
      by (simp add: mt.pos_def del: encode_entry.simps)
    have r: "\<not> k' < k" "k' = k \<Longrightarrow> s \<le> snap"
      using least(1) [OF True] rank_target [OF ok snap, of e k] x(2) by (auto simp: lk(4) simp del: encode_entry.simps)
    have below: "k' = k \<and> s' \<le> s" if "(s', t', k, v') \<in> set (visible k snap ents)" for s' t' v'
      using rank_le [OF ok, of s' t' k v' e] vis [OF that] x(2) r(1) by auto
    show ?thesis
    proof (cases "k' = k")
      case False
      then have "latest k snap ents = None" using below by (intro latest_none) blast
      then show ?thesis using get False by simp
    next
      case True
      then have "(s, t, k, v) \<in> set (visible k snap ents)" using x(1) r by (auto simp: visible_iff)
      then show ?thesis using get True latest_at [OF ents(2)] below by simp
    qed
  qed
  then show ?thesis using lk(1) by blast
qed

section \<open>Searches during insertion\<close>

text \<open>
  C6. Reading without a lock. While a writer adds entries to the list of a memtable, one store at a
  time, a search that runs at the same time is never undefined; and when it ends, it ends at the first
  entry not before the target among the entries that the list holds at that moment, which is in order.
\<close>

theorem memtable_concurrent_search:
  assumes "new_MemTable junk0 = Some sl0" "entry_ok target"
    and "(rw_step (KeyComparator e) junk entry_ok target)\<^sup>*\<^sup>* (sl0, None, None) (sl, w, Some (Inl (x, level)))"
  shows "\<exists>res. ge_step (KeyComparator e) sl target (x, level, None) = Some res \<and>
    (\<exists>xs. chain sl 0 (head sl) xs \<and> sorted_wrt (\<lambda>a b. entry_rank e (the (node_key sl a)) < entry_rank e (the (node_key sl b))) xs \<and>
       (\<forall>n pv. res = Inr (n, pv) \<longrightarrow> n = first_of (dropWhile (\<lambda>a. entry_rank e (the (node_key sl a)) < entry_rank e target) xs)))"
proof -
  obtain xs0 ks0 where "mt.holds e sl0 xs0 ks0" using new_MemTable_ok [of junk0 e] assms(1) by (auto simp: table_holds_def)
  then obtain ht xs where "mt.writer_ok e sl ht xs w" "mt.search_ok e sl ht xs target (Some (Inl (x, level)))"
    using mt.rw_reach_ok [OF assms(3) _ assms(2)] by blast
  then have wf: "mt.sl_wf e sl ht xs" and r: "mt.reader_ok e sl ht xs target x level"
    by (simp_all add: mt.writer_ok_def mt.search_ok_def)
  have "chain sl 0 (head sl) xs" using mt.wf_chain [OF wf, of 0] mt.wf_level0 [OF wf] by (simp add: kMaxHeight_def)
  moreover have "sorted_wrt (\<lambda>a b. entry_rank e (the (node_key sl a)) < entry_rank e (the (node_key sl b))) xs"
    using wf by (simp add: mt.sl_wf_def)
  ultimately show ?thesis using mt.search_round [OF wf assms(2) r] unfolding mt.upper_def by fastforce
qed

theorem memtable_concurrent_search_witness:
  "\<exists>sl0 res. new_MemTable (\<lambda>_. None) = Some sl0 \<and>
     (rw_step (KeyComparator True) (\<lambda>_. None) entry_ok (encode_entry True (1, kTypeValue, [], [])))\<^sup>*\<^sup>*
       (sl0, None, None) (sl0, None, Some (Inl (head sl0, max_height sl0 - 1))) \<and>
     ge_step (KeyComparator True) sl0 (encode_entry True (1, kTypeValue, [], [])) (head sl0, max_height sl0 - 1, None) = Some res"
proof -
  let ?t = "encode_entry True (1, kTypeValue, [], [])"
  obtain sl0 where s: "new_MemTable (\<lambda>_. None) = Some sl0" using new_MemTable_ok [of "\<lambda>_. None" True] by blast
  have t: "entry_ok ?t" by (rule entry_parts(1)) (simp add: kMax_le)
  have r: "(rw_step (KeyComparator True) (\<lambda>_. None) entry_ok ?t)\<^sup>*\<^sup>* (sl0, None, None) (sl0, None, Some (Inl (head sl0, max_height sl0 - 1)))"
    by (intro r_into_rtranclp rw_step.r_begin)
  then show ?thesis using memtable_concurrent_search [OF s t r] s by blast
qed

end
