(* ===== verification/Level_Read.thy ===== *)
theory Level_Read
  imports Level_Db Level_Memtable
begin

text \<open>
  Reading from a LevelDB database (DBImpl::Get in db/db_impl.cc), and what a read sees of the writes:
  the database with its memtable, from the requests in the queue to the value a reader gets. The files
  of a version are given by their lookup.
\<close>

section \<open>Get\<close>

definition got :: "u8 list + Status \<Rightarrow> Status \<times> u8 list option" where
  "got r = (case r of Inl v \<Rightarrow> (OK, Some v) | Inr s \<Rightarrow> (s, None))"

definition DBImpl_Get ::
  "bool \<Rightarrow> u8 list SkipList \<Rightarrow> u8 list SkipList option \<Rightarrow> (LookupKey \<Rightarrow> (Status \<times> u8 list option) option) \<Rightarrow>
   u64 \<Rightarrow> u64 option \<Rightarrow> u8 list \<Rightarrow> (Status \<times> u8 list option) option" where
  "DBImpl_Get e mem imm current last_seq snapshot key = do {
     let snap = (case snapshot of None \<Rightarrow> last_seq | Some n \<Rightarrow> n);
     lkey \<leftarrow> new_LookupKey e key snap;
     r \<leftarrow> MemTable_Get e lkey mem;
     case r of
       Some x \<Rightarrow> Some (got x)
     | None \<Rightarrow> do {
         r \<leftarrow> (case imm of None \<Rightarrow> Some None | Some m \<Rightarrow> MemTable_Get e lkey m);
         case r of Some x \<Rightarrow> Some (got x) | None \<Rightarrow> current lkey } }"

text \<open>The memtable of the database; adding to a memtable that is undefined stays undefined.\<close>

definition mem_add ::
  "bool \<Rightarrow> (nat \<Rightarrow> nat option) \<Rightarrow> nat list \<Rightarrow> u64 \<Rightarrow> ValueType \<Rightarrow> u8 list \<Rightarrow> u8 list \<Rightarrow> u8 list SkipList option \<Rightarrow> u8 list SkipList option" where
  "mem_add e junk prev0 s t k v m = do { table \<leftarrow> m; MemTable_Add e junk prev0 s t k v table }"

section \<open>The memtable of a sequence of updates\<close>

fun entry_of :: "u64 \<Rightarrow> update \<Rightarrow> mem_entry" where
  "entry_of s (Upd k v) = (s, kTypeValue, k, v)"
| "entry_of s (Del k) = (s, kTypeDeletion, k, [])"

fun entries :: "nat \<Rightarrow> update list \<Rightarrow> mem_entry list" where
  "entries n [] = []"
| "entries n (u # us) = entry_of (of_nat n) u # entries (Suc n) us"

fun upd_key :: "update \<Rightarrow> u8 list" where
  "upd_key (Upd k v) = k"
| "upd_key (Del k) = k"

text \<open>What the last of some updates says about a key.\<close>

definition last_update :: "u8 list \<Rightarrow> update list \<Rightarrow> update option" where
  "last_update k us = (case filter (\<lambda>u. upd_key u = k) us of [] \<Rightarrow> None | fs \<Rightarrow> Some (last fs))"

definition storable :: "update \<Rightarrow> bool" where
  "storable u \<longleftrightarrow> update_ok u \<and> length (upd_key u) + 8 < 2 ^ 32"

lemma of_nat_le_kMax: "n < 2 ^ 32 \<Longrightarrow> of_nat n \<le> kMaxSequenceNumber"
  by (simp add: kMax_le unsigned_of_nat take_bit_nat_eq_self)

lemma fst_entry_of [simp]: "fst (entry_of s u) = s"
  by (cases u) simp_all

lemma entry_of_ok: "storable u \<Longrightarrow> s \<le> kMaxSequenceNumber \<Longrightarrow> mem_entry_ok (entry_of s u)"
  by (cases u) (simp_all add: storable_def)

lemma numbered_entries:
  assumes "length prev0 = kMaxHeight"
  shows "table_holds e table ents \<Longrightarrow> list_all storable us \<Longrightarrow> n + length us < 2 ^ 32 \<Longrightarrow> (\<forall>x\<in>set ents. fst x < of_nat n) \<Longrightarrow>
    \<exists>table'. numbered (mem_add e junk prev0) (of_nat n) us (Some table) = Some table' \<and> table_holds e table' (ents @ entries n us)"
proof (induction us arbitrary: table ents n)
  case Nil
  then show ?case by simp
next
  case (Cons u us)
  obtain s t k v where u: "entry_of (of_nat n) u = (s, t, k, v)" "s = of_nat n" by (cases "entry_of (of_nat n) u") (metis fst_entry_of fst_conv)
  have ok: "mem_entry_ok (s, t, k, v)" using entry_of_ok [of u "of_nat n"] Cons.prems(2,3) of_nat_le_kMax [of n] by (simp add: u)
  obtain table1 where t1: "MemTable_Add e junk prev0 s t k v table = Some table1" "table_holds e table1 (ents @ [(s, t, k, v)])"
    using MemTable_Add_ok [OF Cons.prems(1) ok _ assms] Cons.prems(4) u(2) by auto
  have "(of_nat n :: u64) < of_nat (Suc n)" using Cons.prems(3)
    by (simp add: word_less_nat_alt unsigned_of_nat take_bit_nat_eq_self del: of_nat_Suc)
  then have "\<forall>x\<in>set (ents @ [(s, t, k, v)]). fst x < of_nat (Suc n)" using Cons.prems(4) u(2) by (auto intro: less_trans)
  moreover have "numbered (mem_add e junk prev0) (of_nat n) (u # us) (Some table) = numbered (mem_add e junk prev0) (of_nat (Suc n)) us (Some table1)"
    using t1(1) u by (cases u) (auto simp: mem_add_def add.commute)
  ultimately show ?case using Cons.IH [OF t1(2), of "Suc n"] Cons.prems(2,3) u(1) by auto
qed

section \<open>What is visible in it\<close>

lemma of_nat_le_u64: "a < 2 ^ 32 \<Longrightarrow> b < 2 ^ 32 \<Longrightarrow> (of_nat a :: u64) \<le> of_nat b \<longleftrightarrow> a \<le> b"
  by (simp add: word_le_nat_alt unsigned_of_nat take_bit_nat_eq_self)

lemma visible_entries:
  "n + length us < 2 ^ 32 \<Longrightarrow> m < 2 ^ 32 \<Longrightarrow>
   visible k (of_nat m) (entries n us) = filter (\<lambda>(s, t, k', v). k' = k) (entries n (take (Suc m - n) us))"
proof (induction us arbitrary: n)
  case (Cons u us)
  have le: "(of_nat n :: u64) \<le> of_nat m \<longleftrightarrow> n \<le> m" using Cons.prems by (intro of_nat_le_u64) simp_all
  show ?case
  proof (cases "n \<le> m")
    case True
    then have "Suc m - n = Suc (Suc m - Suc n)" by simp
    then show ?thesis using Cons.IH [of "Suc n"] Cons.prems le True by (cases u) (simp_all add: visible_def)
  next
    case False
    then show ?thesis using Cons.IH [of "Suc n"] Cons.prems le by (cases u) (simp_all add: visible_def)
  qed
qed (simp add: visible_def)

lemma entries_of_key:
  "map snd (filter (\<lambda>(s, t, k', v). k' = k) (entries n us)) = map (\<lambda>u. snd (entry_of 0 u)) (filter (\<lambda>u. upd_key u = k) us)"
proof (induction us arbitrary: n)
  case (Cons u us)
  then show ?case by (cases u) simp_all
qed simp

definition value_of :: "update \<Rightarrow> u8 list + Status" where
  "value_of u = (case u of Upd _ v \<Rightarrow> Inl v | Del _ \<Rightarrow> Inr (NotFound ''''))"

lemma latest_entries:
  assumes "length us < 2 ^ 31" "m \<le> length us"
  shows "latest k (of_nat m) (entries 1 us) = map_option value_of (last_update k (take m us))"
proof -
  let ?V = "visible k (of_nat m) (entries 1 us)" and ?F = "filter (\<lambda>u. upd_key u = k) (take m us)"
  have "?V = filter (\<lambda>(s, t, k', v). k' = k) (entries 1 (take m us))" using visible_entries [of 1 us m k] assms by simp
  then have V: "map snd ?V = map (\<lambda>u. snd (entry_of 0 u)) ?F" using entries_of_key by metis
  show ?thesis
  proof (cases "?F = []")
    case True
    then have "?V = []" using V by simp
    then show ?thesis using True by (simp add: latest_def last_update_def)
  next
    case False
    then have ne: "?V \<noteq> []" using V by auto
    have "snd (last ?V) = snd (entry_of 0 (last ?F))" using arg_cong [OF V, of last] ne False by (simp add: last_map)
    moreover have "last_update k (take m us) = Some (last ?F)" using False by (simp add: last_update_def split: list.splits)
    ultimately show ?thesis using ne by (cases "last ?V"; cases "last ?F") (auto simp: latest_def value_of_def)
  qed
qed

text \<open>A read: from the last update of the key, or from the files when there is none.\<close>

definition read_of :: "bool \<Rightarrow> (LookupKey \<Rightarrow> (Status \<times> u8 list option) option) \<Rightarrow> u8 list \<Rightarrow> u64 \<Rightarrow> update list \<Rightarrow> (Status \<times> u8 list option) option" where
  "read_of e current k snap us =
     (case last_update k us of
        Some (Upd _ v) \<Rightarrow> Some (OK, Some v)
      | Some (Del _) \<Rightarrow> Some (NotFound '''', None)
      | None \<Rightarrow> do { lkey \<leftarrow> new_LookupKey e k snap; current lkey })"

lemma DBImpl_Get_entries:
  assumes "table_holds e table (entries 1 us)" "length us < 2 ^ 31" "length k + 8 < 2 ^ 32" "m \<le> length us"
    and "(case snapshot of None \<Rightarrow> last_seq | Some n \<Rightarrow> n) = of_nat m"
  shows "DBImpl_Get e table None current last_seq snapshot k = read_of e current k (of_nat m) (take m us)"
proof -
  obtain lk where "new_LookupKey e k (of_nat m) = Some lk" "MemTable_Get e lk table = Some (latest k (of_nat m) (entries 1 us))"
    using MemTable_Get_ok [OF assms(1,3), of "of_nat m"] of_nat_le_kMax [of m] assms(2,4) by auto
  then show ?thesis using latest_entries [OF assms(2,4), of k] assms(5)
    by (auto simp: DBImpl_Get_def read_of_def got_def value_of_def split: option.splits update.splits)
qed

lemma numbered_new:
  assumes "length prev0 = kMaxHeight" "list_all storable us" "length us < 2 ^ 31"
  shows "\<exists>table. numbered (mem_add e junk prev0) 1 us (new_MemTable junk0) = Some table \<and> table_holds e table (entries 1 us)"
proof -
  obtain t0 where "new_MemTable junk0 = Some t0" "table_holds e t0 []" using new_MemTable_ok by blast
  then show ?thesis using numbered_entries [OF assms(1), of e t0 "[]" us 1 junk] assms(2,3) by simp
qed

lemma subseq_updates: "subseq xs ys \<Longrightarrow> set (updates_of xs) \<subseteq> set (updates_of ys)"
  by (induction rule: list_emb.induct) auto

section \<open>Snapshot reads\<close>

text \<open>
  C3. Whatever requests were made and however they were grouped, reading a key at a snapshot gives
  what the last of the updates up to the snapshot says: its value, or that the key is not found; with
  no such update the files of the version are asked. Without a snapshot the read sees every update of
  the requests that succeeded.
\<close>

theorem db_snapshot_read:
  assumes "length prev0 = kMaxHeight" and "fresh_db addr0 (new_MemTable junk0) = Some db0"
    and "(db_step junk (mem_add e junk1 prev0) e)\<^sup>*\<^sup>* (db0, [], None, []) w"
    and "length (updates_of (arrived w)) < 2 ^ 31" "list_all storable (updates_of (arrived w))" "length k + 8 < 2 ^ 32"
  shows "\<exists>table. memtable (fst w) = Some table \<and>
    (\<forall>n\<le>length (updates_of (applied w)).
       DBImpl_Get e table None current (last_sequence (fst w)) (Some (of_nat n)) k =
         read_of e current k (of_nat n) (take n (updates_of (applied w)))) \<and>
    DBImpl_Get e table None current (last_sequence (fst w)) None k =
      read_of e current k (last_sequence (fst w)) (updates_of (applied w))"
proof -
  let ?us = "updates_of (applied w)"
  obtain gs fss where "world_inv e (mem_add e junk1 prev0) (new_MemTable junk0) ([] @ gs) ([] @ fss) w"
    using db_reach_inv [OF assms(3) fresh_db_inv [OF assms(2)] assms(4)] by blast
  then have db: "memtable (fst w) = numbered (mem_add e junk1 prev0) 1 ?us (new_MemTable junk0)" "last_sequence (fst w) = of_nat (length ?us)"
    by (cases w; simp add: db_inv_def)+
  have us: "length ?us < 2 ^ 31" "list_all storable ?us"
    using updates_of_applied [OF subseq_applied, of w] assms(4) subseq_updates [OF subseq_applied, of w] assms(5)
    by (auto simp: list_all_iff)
  obtain table where t: "memtable (fst w) = Some table" "table_holds e table (entries 1 ?us)"
    using numbered_new [OF assms(1) us(2,1)] db(1) by metis
  have "DBImpl_Get e table None current (last_sequence (fst w)) (Some (of_nat n)) k = read_of e current k (of_nat n) (take n ?us)"
    if "n \<le> length ?us" for n using DBImpl_Get_entries [OF t(2) us(1) assms(6) that] by simp
  moreover have "DBImpl_Get e table None current (last_sequence (fst w)) None k = read_of e current k (last_sequence (fst w)) ?us"
    using DBImpl_Get_entries [OF t(2) us(1) assms(6) order_refl] db(2) by simp
  ultimately show ?thesis using t(1) by blast
qed

abbreviation table_add :: "u64 \<Rightarrow> ValueType \<Rightarrow> u8 list \<Rightarrow> u8 list \<Rightarrow> u8 list SkipList option \<Rightarrow> u8 list SkipList option" where
  "table_add \<equiv> mem_add True (\<lambda>_. None) (replicate kMaxHeight 0)"

theorem db_snapshot_read_witness:
  "\<exists>b db0 db table. Put True [7] [8] new_WriteBatch = Some b \<and> fresh_db 0 (new_MemTable (\<lambda>_. None)) = Some db0 \<and>
     (db_step (\<lambda>_ _. 0) table_add True)\<^sup>*\<^sup>* (db0, [], None, []) (db, [], None, [(put_request b, OK)]) \<and>
     memtable db = Some table \<and>
     DBImpl_Get True table None (\<lambda>_. Some (OK, Some [1])) (last_sequence db) None [7] = Some (OK, Some [8]) \<and>
     DBImpl_Get True table None (\<lambda>_. Some (OK, Some [1])) (last_sequence db) (Some 1) [7] = Some (OK, Some [8])"
proof -
  obtain b db0 db where r: "Put True [7] [8] new_WriteBatch = Some b" "fresh_db 0 (new_MemTable (\<lambda>_. None)) = Some db0"
    "(db_step (\<lambda>_ _. 0) table_add True)\<^sup>*\<^sup>* (db0, [], None, []) (db, [], None, [(put_request b, OK)])"
    using one_request [of "new_MemTable (\<lambda>_. None)" table_add] by blast
  let ?w = "(db, [], None, [(put_request b, OK)]) :: u8 list SkipList option world"
  have a: "updates_of (applied ?w) = [Upd [7] [8]]" by (simp add: ok_def with_batch_def)
  have h: "length (updates_of (arrived ?w)) < 2 ^ 31" "list_all storable (updates_of (arrived ?w))" "length [7 :: u8] + 8 < 2 ^ 32"
    by (simp_all add: storable_def)
  obtain table where t: "memtable db = Some table"
    "\<forall>n\<le>1. DBImpl_Get True table None (\<lambda>_. Some (OK, Some [1])) (last_sequence db) (Some (of_nat n)) [7] =
       read_of True (\<lambda>_. Some (OK, Some [1])) [7] (of_nat n) (take n [Upd [7] [8]])"
    "DBImpl_Get True table None (\<lambda>_. Some (OK, Some [1])) (last_sequence db) None [7] =
       read_of True (\<lambda>_. Some (OK, Some [1])) [7] (last_sequence db) [Upd [7] [8]]"
    using db_snapshot_read [OF length_replicate r(2,3) h, of "\<lambda>_. Some (OK, Some [1])"] a by auto
  have v: "read_of True (\<lambda>_. Some (OK, Some [1])) [7] s [Upd [7] [8]] = Some (OK, Some [8])" for s
    by (simp add: read_of_def last_update_def)
  have "DBImpl_Get True table None (\<lambda>_. Some (OK, Some [1])) (last_sequence db) (Some 1) [7] = Some (OK, Some [8])"
    using t(2) [rule_format, of 1] v by simp
  then show ?thesis using r t(1,3) v by auto
qed

end
