(* ===== verification/Kv_Server.thy ===== *)
theory Kv_Server
  imports Level_Read
begin

text \<open>
  The server of the repository (kv_server/kv_server.cpp) and its LevelDB back end
  (kv_server/ldb_store.cpp), over the operations of a database and then over the model of LevelDB.
  Strings are C strings without their terminator; a null pointer is None. Messages to stderr are left
  out.
\<close>

section \<open>The LevelDB store\<close>

record 'db LdbStore =
  db_ptr :: "'db option"
  w_sync :: bool

definition new_LdbStore :: "'db LdbStore" where
  "new_LdbStore = \<lparr>db_ptr = None, w_sync = False\<rparr>"



definition LdbStore_Put ::
  "(bool \<Rightarrow> u8 list \<Rightarrow> u8 list \<Rightarrow> 'db \<Rightarrow> (Status \<times> 'db) option) \<Rightarrow> u8 list option \<Rightarrow> u8 list option \<Rightarrow>
   'db LdbStore \<Rightarrow> (bool \<times> 'db LdbStore) option" where
  "LdbStore_Put db_put key val st =
     (case db_ptr st of
        None \<Rightarrow> Some (False, st)
      | Some db \<Rightarrow> do {
          k \<leftarrow> key;
          v \<leftarrow> val;
          (s, db) \<leftarrow> db_put (w_sync st) k v db;
          Some (ok s, st\<lparr>db_ptr := Some db\<rparr>) })"

definition IsNotFound :: "Status \<Rightarrow> bool" where
  "IsNotFound s = (case s of NotFound _ \<Rightarrow> True | _ \<Rightarrow> False)"

definition LdbStore_Get ::
  "(u8 list \<Rightarrow> 'db \<Rightarrow> (Status \<times> u8 list option) option) \<Rightarrow> u8 list option \<Rightarrow> u8 list \<Rightarrow> 'db LdbStore \<Rightarrow> (bool \<times> u8 list) option" where
  "LdbStore_Get db_get key val st =
     (case key of
        None \<Rightarrow> Some (False, val)
      | Some k \<Rightarrow>
          (case db_ptr st of
             None \<Rightarrow> Some (False, val)
           | Some db \<Rightarrow> do {
               (s, v) \<leftarrow> db_get k db;
               let val = (case v of None \<Rightarrow> val | Some x \<Rightarrow> x);
               if \<not> IsNotFound s \<and> \<not> ok s then Some (False, val)
               else if IsNotFound s then Some (True, [])
               else Some (True, val) }))"

definition LdbStore_Delete ::
  "(bool \<Rightarrow> u8 list \<Rightarrow> 'db \<Rightarrow> (Status \<times> 'db) option) \<Rightarrow> u8 list option \<Rightarrow> 'db LdbStore \<Rightarrow> (bool \<times> 'db LdbStore) option" where
  "LdbStore_Delete db_delete key st =
     (case key of
        None \<Rightarrow> Some (False, st)
      | Some k \<Rightarrow>
          (case db_ptr st of
             None \<Rightarrow> Some (False, st)
           | Some db \<Rightarrow> do {
               (s, db) \<leftarrow> db_delete (w_sync st) k db;
               Some (ok s, st\<lparr>db_ptr := Some db\<rparr>) }))"

section \<open>The server\<close>

record 'db KVServer =
  kv_store_ptr :: "'db LdbStore option"
  rdb_opening :: bool

definition new_KVServer :: "'db KVServer" where
  "new_KVServer = \<lparr>kv_store_ptr = None, rdb_opening = False\<rparr>"

definition InitKVStore :: "'db KVServer \<Rightarrow> bool \<times> 'db KVServer" where
  "InitKVStore srv = (True, srv\<lparr>kv_store_ptr := Some new_LdbStore\<rparr>)"

definition KVServer_Put where
  "KVServer_Put db_put key val srv =
     (case kv_store_ptr srv of
        None \<Rightarrow> Some (False, srv)
      | Some st \<Rightarrow> do { (b, st) \<leftarrow> LdbStore_Put db_put key val st; Some (b, srv\<lparr>kv_store_ptr := Some st\<rparr>) })"

definition KVServer_Get where
  "KVServer_Get db_get key val srv =
     (case kv_store_ptr srv of None \<Rightarrow> Some (False, val) | Some st \<Rightarrow> LdbStore_Get db_get key val st)"

definition KVServer_Delete where
  "KVServer_Delete db_delete key srv =
     (case kv_store_ptr srv of
        None \<Rightarrow> Some (False, srv)
      | Some st \<Rightarrow> do { (b, st) \<leftarrow> LdbStore_Delete db_delete key st; Some (b, srv\<lparr>kv_store_ptr := Some st\<rparr>) })"

text \<open>Requests of a client, with the value that Get would overwrite, and their replies.\<close>

datatype kv_request = SPut "u8 list option" "u8 list option" | SGet "u8 list option" "u8 list" | SDelete "u8 list option"

fun serve where
  "serve db_put db_get db_delete [] srv = Some ([], srv)"
| "serve db_put db_get db_delete (r # rs) srv = do {
     (reply, srv) \<leftarrow> (case r of
         SPut k v \<Rightarrow> do { (b, srv) \<leftarrow> KVServer_Put db_put k v srv; Some ((b, None), srv) }
       | SGet k v \<Rightarrow> do { (b, v) \<leftarrow> KVServer_Get db_get k v srv; Some ((b, Some v), srv) }
       | SDelete k \<Rightarrow> do { (b, srv) \<leftarrow> KVServer_Delete db_delete k srv; Some ((b, None), srv) });
     (replies, srv) \<leftarrow> serve db_put db_get db_delete rs srv;
     Some (reply # replies, srv) }"

text \<open>
  The server never opens its database. InitKVStore reports success, but it does not call
  InitLdbStore, so the database pointer stays null: whatever requests follow, every one of them fails
  and Get leaves the value as it was.
\<close>

theorem kv_server_never_opens:
  "fst (InitKVStore new_KVServer) \<and>
   serve db_put db_get db_delete rs (snd (InitKVStore new_KVServer)) =
     Some (map (\<lambda>r. (False, case r of SGet _ v \<Rightarrow> Some v | _ \<Rightarrow> None)) rs, snd (InitKVStore new_KVServer))"
proof -
  let ?srv = "snd (InitKVStore new_KVServer)"
  have st: "kv_store_ptr ?srv = Some new_LdbStore" "?srv\<lparr>kv_store_ptr := Some new_LdbStore\<rparr> = ?srv"
    by (simp_all add: InitKVStore_def)
  have "serve db_put db_get db_delete rs ?srv = Some (map (\<lambda>r. (False, case r of SGet _ v \<Rightarrow> Some v | _ \<Rightarrow> None)) rs, ?srv)"
  proof (induction rs)
    case (Cons r rs)
    then show ?case
      by (cases r) (auto simp: KVServer_Put_def KVServer_Get_def KVServer_Delete_def LdbStore_Put_def LdbStore_Get_def LdbStore_Delete_def
          new_LdbStore_def st [unfolded new_LdbStore_def] split: option.splits)
  qed simp
  then show ?thesis by (simp add: InitKVStore_def)
qed

section \<open>The store over the model of LevelDB\<close>









section \<open>The store is a map\<close>


















section \<open>Requests one by one\<close>





section \<open>Sequences of requests\<close>







end
