(* ===== verification/Spec2Isabelle.thy ===== *)
theory Spec2Isabelle
  imports Dict_Scan Hashing Jenkins Crc32c Util_Num Util_Match Intset Adlist Sds_Text_Correct Level_Bloom Kv_Server
begin

text \<open>
  Verification of the storage core of the key/value stores in this repository.

  \<^bold>\<open>The program.\<close> One server (\<^verbatim>\<open>kv_server\<close>, C++) is meant to sit on top of three storage engines
  whose sources the repository holds: \<^verbatim>\<open>redis/redis\<close> (C), \<^verbatim>\<open>memcached/memcached\<close> (C) and
  \<^verbatim>\<open>leveldb\<close> (C++). Today the server uses LevelDB only: \<^verbatim>\<open>KVServer\<close> calls \<^verbatim>\<open>LdbStore\<close>, which calls
  \<^verbatim>\<open>DB::Put\<close>, \<^verbatim>\<open>DB::Get\<close> and \<^verbatim>\<open>DB::Delete\<close>. A write becomes a batch, joins the queue of writers, is
  grouped, appended to the log file and inserted into the memtable; a read looks in the memtable and
  then in the files; after a crash the log is read back into a memtable. The C engines are covered by
  their data structures and by the functions these are built on.

  \<^bold>\<open>How code becomes HOL.\<close> A C or C++ function is a HOL function with its state passed explicitly. A
  value \<^term>\<open>None\<close> of its result stands for undefined behaviour or a failed assertion: reading outside
  a buffer, following a null or freed pointer, signed overflow. Theorems of the form "the result is
  \<^term>\<open>Some\<close>" therefore include memory safety. Machine integers are words of their width; buffers are
  byte lists of fixed length with checked access; heaps are maps from addresses. Loops are structural
  recursions, functions with a termination proof, or \<^verbatim>\<open>partial_function (option)\<close>, where not
  returning is also \<^term>\<open>None\<close>, so that the same theorems include termination. No loop is given fuel.
  Only \<^verbatim>\<open>rehash_ms_loop\<close> (Dict) depends on a clock, which is an arbitrary function.

  \<^bold>\<open>Shared theories.\<close> Prelude: types, checked accesses and generic lemmas. Bytes
  (\<^verbatim>\<open>redis/src/endianconv.c\<close>, \<^verbatim>\<open>memcmp\<close>): byte order. Interfaces: the contracts \<^verbatim>\<open>kv_map\<close> and
  \<^verbatim>\<open>set_store\<close>, with the proof, once, that any sequence of operations of a provider gives the replies
  of a map or a set.

  \<^bold>\<open>redis.\<close>
  \<^item> Dict, Dict_Correct, Dict_Scan (\<^verbatim>\<open>dict.c\<close>, \<^verbatim>\<open>dict.h\<close>): the chained hash table with two tables and
    incremental rehashing. Under the invariant \<^verbatim>\<open>dict_full\<close> every operation is defined, keeps the
    invariant and acts on the abstract map; \<^verbatim>\<open>dict_kv\<close> interprets \<^verbatim>\<open>kv_map\<close> on it. The reverse-binary
    cursor visits every key that stays, when the table does not shrink during the scan, and every entry
    exactly once when nothing changes; a run where the table shrinks by four misses a key.
  \<^item> Intset (\<^verbatim>\<open>intset.c\<close>): the packed sorted array with upgrades of its encoding is a set of 64-bit
    integers (\<^verbatim>\<open>intset_set\<close> interprets \<^verbatim>\<open>set_store\<close>).
  \<^item> Adlist (\<^verbatim>\<open>adlist.c\<close>): the doubly linked list over a heap refines a list, and an edit fails only for
    lack of memory or of the position; duplication releases all it allocated when it fails.
  \<^item> Sds, Sds_Correct, Sds_Text, Sds_Text_Correct (\<^verbatim>\<open>sds.c\<close>, \<^verbatim>\<open>sds.h\<close>): dynamic strings with the five
    header types refine byte lists inside their allocation, but for \<^verbatim>\<open>sdsrange\<close> up to \<^verbatim>\<open>INT_MAX\<close> and
    \<^verbatim>\<open>sdstrim\<close> next to a zero byte; quoting and argument splitting, and
    splitting and joining, are inverse.
  \<^item> Util_Num, Util_Match (\<^verbatim>\<open>util.c\<close>): printing and strict parsing of integers, with the wrapping
    64-bit accumulator of the code, and the glob matcher against a reference relation for patterns
    without classes and zero bytes, with a family of patterns on which it reads past its end.
  \<^item> Crc (\<^verbatim>\<open>crc16.c\<close>, \<^verbatim>\<open>crc64.c\<close>, \<^verbatim>\<open>keyHashSlot\<close> of \<^verbatim>\<open>cluster.c\<close>): the table-driven checksums equal
    polynomial division; keys with the same tag share a slot.
  \<^item> Hashing (\<^verbatim>\<open>dict.c\<close>, and memcached's \<^verbatim>\<open>murmur3_hash.c\<close>): block hashes in the locale \<^verbatim>\<open>block_hash\<close>.

  \<^bold>\<open>memcached.\<close> Jenkins (\<^verbatim>\<open>jenkins_hash.c\<close>): the hash does not depend on alignment nor on the bytes
  behind the key, although it reads them.

  \<^bold>\<open>LevelDB.\<close>
  \<^item> Crc32c, Level_Coding, Level_Batch, Level_Bloom (\<^verbatim>\<open>util/crc32c.cc\<close>, \<^verbatim>\<open>util/coding.cc\<close>,
    \<^verbatim>\<open>db/write_batch.cc\<close>, \<^verbatim>\<open>util/hash.cc\<close>, \<^verbatim>\<open>util/bloom.cc\<close>): checksums, round trips of the encodings,
    replay of batches, no false negatives.
  \<^item> Level_Env, Level_Memenv (\<^verbatim>\<open>helpers/memenv/memenv.cc\<close>): the contracts \<^verbatim>\<open>writable_file\<close> and
    \<^verbatim>\<open>sequential_file\<close>, and the in-memory environment that provides them (\<^verbatim>\<open>mem_out\<close>, \<^verbatim>\<open>mem_in\<close>); its
    reference counts are right after every operation, but for the one extra reference and the null name
    that opening a new file for appending leaves behind.
  \<^item> Level_Log, Level_Log_Correct, Level_Recovery (\<^verbatim>\<open>db/log_writer.cc\<close>, \<^verbatim>\<open>db/log_reader.cc\<close>): what was
    added is read back; after a cut at any byte, a prefix that holds all that was complete.
  \<^item> Level_Db (\<^verbatim>\<open>db/db_impl.cc\<close>): the queue of writers as the step relation \<^verbatim>\<open>db_step\<close>, group commit
    and \<^verbatim>\<open>RecoverLogFile\<close>; requests survive a crash whole or not at all, in order, and none that was
    complete is lost.
  \<^item> Level_Skiplist, Level_Format, Level_Memtable (\<^verbatim>\<open>db/skiplist.h\<close>, \<^verbatim>\<open>util/random.h\<close>,
    \<^verbatim>\<open>db/dbformat.cc\<close>, \<^verbatim>\<open>util/comparator.cc\<close>, \<^verbatim>\<open>db/memtable.cc\<close>): the list over any order of keys
    (\<^verbatim>\<open>key_order\<close>), the order of internal keys (\<^verbatim>\<open>mt\<close> interprets it), and the memtable; a search that
    runs while a writer stores its links one at a time ends at the right entry. Memory is
    sequentially consistent there.
  \<^item> Level_Read (\<^verbatim>\<open>DBImpl::Get\<close>): reads at a snapshot see the last update up to it.

  \<^bold>\<open>The server.\<close> Kv_Server (\<^verbatim>\<open>kv_server.cpp\<close>, \<^verbatim>\<open>ldb_store.cpp\<close>): an opened store over the model of
  LevelDB, with the memtable never switched, answers as a map, refuses a write exactly when \<^verbatim>\<open>MakeRoomForWrite\<close> fails, and is undefined
  exactly when \<^verbatim>\<open>Put\<close> is given a null pointer; the server itself never opens it.

  \<^bold>\<open>Bounds.\<close> The capacity hypotheses keep counters within their machine types. A dict holds fewer than
  2^30 entries, so that sizes and their doubling fit the counters. Updates of a run of LevelDB number
  fewer than 2^31, the range of the count of a batch and far below the 56 bits of a sequence number.
  Keys and values are shorter than their 32-bit length fields. A rehashing call takes fewer than 2^31 / 10
  steps, the range of its counter of empty buckets. Paths of \<^verbatim>\<open>CreateDir\<close> have at most 246
  bytes, what its buffer holds.

  \<^bold>\<open>Parameters.\<close> Allocators, clocks, uninitialised memory, the byte order, the addresses of buffers,
  the shell, \<^verbatim>\<open>DB::Open\<close>, the statuses of \<^verbatim>\<open>MakeRoomForWrite\<close> and of the writing of tables, and the
  lookup in the files of a version are arguments of the definitions that use them.

  \<^bold>\<open>Not modelled.\<close> redis: the server, its event loop, networking, configuration, commands and objects,
  the packed encodings (\<^verbatim>\<open>ziplist.c\<close>, \<^verbatim>\<open>quicklist.c\<close>, \<^verbatim>\<open>zipmap.c\<close>), persistence, replication, cluster,
  sentinel, scripting; in \<^verbatim>\<open>dict.c\<close> the callbacks and the random samplers, in \<^verbatim>\<open>sds.c\<close> \<^verbatim>\<open>sdscatfmt\<close>, in
  \<^verbatim>\<open>util.c\<close> the floating-point conversions. memcached: the server, items, slabs, the hash table and the
  port to C++. LevelDB: the switch of the memtable inside
  \<^verbatim>\<open>MakeRoomForWrite\<close>, tables, versions, compaction, iterators over the database, the cache, the
  arena and the POSIX environment. The server: threads, destructors and the memcached store, which is
  only declared. These are input and output, shared mutable state under locks, or
  third-party libraries (jemalloc, Lua, hiredis, linenoise).
\<close>

end
